(* ===== verification/Prelude.thy ===== *)
theory Prelude
  imports Main "HOL-Library.Word"
begin

text \<open>
  Shared material of the development: the names of the C integer types
  (x64_kenerl/include/linux/type.h), byte-addressed memory with little-endian
  multi-byte accesses, the separation of memory ranges, and the collections
  of rewrite rules the component theories extend.

  Memory is a total function from machine addresses to bytes. The address
  width is a type parameter, so that one definition serves the 64-bit and the
  32-bit kernel.
\<close>

unbundle bit_operations_syntax

named_theorems mem_simps \<open>reading back what a store has written\<close>
named_theorems range_simps \<open>separation of address ranges\<close>

type_synonym u8 = "8 word"
type_synonym u16 = "16 word"
type_synonym u32 = "32 word"
type_synonym u64 = "64 word"

type_synonym 'a cmem = "'a word \<Rightarrow> 8 word"
type_synonym mem = "64 word \<Rightarrow> 8 word"
type_synonym mem32 = "32 word \<Rightarrow> 8 word"

section \<open>Loads and stores\<close>

definition load :: "'a::len cmem \<Rightarrow> 'a word \<Rightarrow> nat \<Rightarrow> u8 list" where
  "load m a n = map (\<lambda>i. m (a + of_nat i)) [0..<n]"

definition store :: "'a::len cmem \<Rightarrow> 'a word \<Rightarrow> u8 list \<Rightarrow> 'a cmem" where
  "store m a bs = (\<lambda>x. if unat (x - a) < length bs then bs ! unat (x - a) else m x)"

text \<open>Little-endian encoding of machine words.\<close>

definition le_bytes :: "nat \<Rightarrow> 'b::len word \<Rightarrow> u8 list" where
  "le_bytes n w = map (\<lambda>i. ucast (drop_bit (8 * i) w)) [0..<n]"

primrec of_le :: "u8 list \<Rightarrow> 'b::len word" where
  "of_le [] = 0"
| "of_le (b # bs) = ucast b OR push_bit 8 (of_le bs)"

definition rd16 :: "'a::len cmem \<Rightarrow> 'a word \<Rightarrow> u16" where
  "rd16 m a = of_le (load m a 2)"

definition rd32 :: "'a::len cmem \<Rightarrow> 'a word \<Rightarrow> u32" where
  "rd32 m a = of_le (load m a 4)"

definition rd64 :: "'a::len cmem \<Rightarrow> 'a word \<Rightarrow> u64" where
  "rd64 m a = of_le (load m a 8)"

definition wr8 :: "'a::len cmem \<Rightarrow> 'a word \<Rightarrow> u8 \<Rightarrow> 'a cmem" where
  "wr8 m a v = m(a := v)"

definition wr16 :: "'a::len cmem \<Rightarrow> 'a word \<Rightarrow> u16 \<Rightarrow> 'a cmem" where
  "wr16 m a v = store m a (le_bytes 2 v)"

definition wr32 :: "'a::len cmem \<Rightarrow> 'a word \<Rightarrow> u32 \<Rightarrow> 'a cmem" where
  "wr32 m a v = store m a (le_bytes 4 v)"

definition wr64 :: "'a::len cmem \<Rightarrow> 'a word \<Rightarrow> u64 \<Rightarrow> 'a cmem" where
  "wr64 m a v = store m a (le_bytes 8 v)"

text \<open>Two ranges, \<open>n\<close> bytes at \<open>a\<close> and \<open>k\<close> bytes at \<open>b\<close>, that do not overlap.\<close>

definition apart :: "'a::len word \<Rightarrow> nat \<Rightarrow> 'a word \<Rightarrow> nat \<Rightarrow> bool" where
  "apart a n b k \<longleftrightarrow> n \<le> unat (b - a) \<and> k \<le> unat (a - b)"

section \<open>Bytes and words\<close>

lemma length_load [simp]: "length (load m a n) = n"
  by (simp add: load_def)

lemma nth_load [simp]: "i < n \<Longrightarrow> load m a n ! i = m (a + of_nat i)"
  by (simp add: load_def)

lemma load_0 [simp]: "load m a 0 = []"
  by (simp add: load_def)

lemma load_Suc: "load m a (Suc n) = m a # load m (a + 1) n"
  by (rule nth_equalityI) (auto simp: nth_Cons add.assoc split: nat.split)

lemma load_snoc: "load m a (Suc n) = load m a n @ [m (a + of_nat n)]"
  by (simp add: load_def)

lemma load_add: "load m a (n + k) = load m a n @ load m (a + of_nat n) k"
  by (rule nth_equalityI) (simp_all add: nth_append add.assoc flip: of_nat_add)

lemma length_le_bytes [simp]: "length (le_bytes n w) = n"
  by (simp add: le_bytes_def)

lemma bit_of_le:
  "bit (of_le bs :: 'b::len word) i \<longleftrightarrow>
     i < LENGTH('b) \<and> i div 8 < length bs \<and> bit (bs ! (i div 8)) (i mod 8)"
proof (induction bs arbitrary: i)
  case Nil
  then show ?case by simp
next
  case (Cons b bs)
  show ?case
  proof (cases "i < 8")
    case True
    then show ?thesis
      by (auto simp: bit_or_iff bit_push_bit_iff bit_unsigned_iff)
  next
    case False
    then have "i div 8 = Suc ((i - 8) div 8)" and "(i - 8) mod 8 = i mod 8"
      by (auto simp: le_div_geq le_mod_geq not_less)
    moreover have "\<not> bit b i"
      using False bit_imp_le_length [of b i] by auto
    ultimately show ?thesis
      using False Cons.IH [of "i - 8"]
      by (auto simp: bit_or_iff bit_push_bit_iff bit_unsigned_iff)
  qed
qed

lemma of_le_le_bytes:
  "LENGTH('b) \<le> 8 * n \<Longrightarrow> of_le (le_bytes n w) = (w :: 'b::len word)"
  by (rule bit_eqI) (auto simp: bit_of_le le_bytes_def bit_unsigned_iff bit_drop_bit_eq)

lemma le_bytes_of_le:
  assumes "8 * length bs \<le> LENGTH('b)"
  shows "le_bytes (length bs) (of_le bs :: 'b::len word) = bs"
proof (rule nth_equalityI)
  fix j
  assume "j < length (le_bytes (length bs) (of_le bs :: 'b word))"
  then have j: "j < length bs" by simp
  show "le_bytes (length bs) (of_le bs :: 'b word) ! j = bs ! j"
  proof (rule bit_eqI)
    fix i
    assume "possible_bit TYPE(u8) i"
    then have "i < 8" by simp
    with j assms show "bit (le_bytes (length bs) (of_le bs :: 'b word) ! j) i = bit (bs ! j) i"
      by (auto simp: le_bytes_def bit_unsigned_iff bit_drop_bit_eq bit_of_le)
  qed
qed simp

lemma ucast_u64_u32 [simp]: "ucast (ucast (x :: u32) :: u64) = x"
  by (rule bit_eqI) (auto simp: bit_unsigned_iff dest: bit_imp_le_length)

lemma unat_drop_bit: "unat (drop_bit k x) = unat (x :: 'a::len word) div 2 ^ k"
  using drop_bit_eq_div [of k "unat x"] by (simp only: unat_drop_bit_eq)

lemma unat_and_mask: "unat (x AND mask n) = unat (x :: 'a::len word) mod 2 ^ n"
  by (simp only: unsigned_take_bit_eq take_bit_eq_mod [of n "unat x"] flip: take_bit_eq_mask)

lemma unat_and_255: "unat (x AND 0xff) = unat (x :: 'a::len word) mod 256"
  using unat_and_mask [of x 8] by (simp add: mask_eq_exp_minus_1)

section \<open>Separation of ranges\<close>

lemma unat_lt: "unat (x :: 'a::len word) < 2 ^ LENGTH('a)"
  by (rule unsigned_less)

lemma unat_sub_add_cancel:
  fixes a b :: "'a::len word"
  assumes "a \<noteq> b"
  shows "unat (a - b) + unat (b - a) = 2 ^ LENGTH('a)"
proof -
  have "unat (a - b) + unat (b - a) = 2 ^ LENGTH('a)"
    if "unat b < unat a" for a b :: "'a word"
  proof -
    from that have "unat (a - b) = unat a - unat b"
      and "unat (b - a) = unat b + 2 ^ LENGTH('a) - unat a"
      by (simp_all add: unat_sub_if')
    then show ?thesis
      using that unat_lt [of a] by linarith
  qed
  moreover have "unat a \<noteq> unat b"
    using assms by (simp add: word_unat_eq_iff)
  ultimately show ?thesis
    by (metis add.commute linorder_neqE_nat)
qed

lemma unat_of_nat_less: "i < 2 ^ LENGTH('a) \<Longrightarrow> unat (of_nat i :: 'a::len word) = i"
  by (simp add: unsigned_of_nat take_bit_nat_eq_self)

lemma of_nat_word_eq:
  assumes "i < 2 ^ LENGTH('a)" and "j < 2 ^ LENGTH('a)"
  shows "(of_nat i :: 'a::len word) = of_nat j \<longleftrightarrow> i = j"
  using unat_of_nat_less [OF assms(1)] unat_of_nat_less [OF assms(2)] by metis

lemma of_nat_u32_eq: "i < 2 ^ 32 \<Longrightarrow> j < 2 ^ 32 \<Longrightarrow> (of_nat i :: u32) = of_nat j \<longleftrightarrow> i = j"
  by (rule of_nat_word_eq) simp_all

lemma of_nat_u64_eq: "i < 2 ^ 64 \<Longrightarrow> j < 2 ^ 64 \<Longrightarrow> (of_nat i :: u64) = of_nat j \<longleftrightarrow> i = j"
  by (rule of_nat_word_eq) simp_all

lemma apart_commute: "apart a n b k \<longleftrightarrow> apart b k a n"
  by (auto simp: apart_def)

lemma apart_mono: "apart a n b k \<Longrightarrow> n' \<le> n \<Longrightarrow> k' \<le> k \<Longrightarrow> apart a n' b k'"
  by (auto simp: apart_def)

lemma apart_not_in:
  fixes a b :: "'a::len word"
  assumes "apart a n b k" and "i < n"
  shows "k \<le> unat (a + of_nat i - b)"
proof (cases "k = 0")
  case False
  then have "a \<noteq> b" using assms by (auto simp: apart_def)
  then have *: "unat (a - b) + unat (b - a) = 2 ^ LENGTH('a)"
    by (rule unat_sub_add_cancel)
  have i: "i < unat (b - a)" using assms by (auto simp: apart_def)
  then have "i < 2 ^ LENGTH('a)" using * by simp
  then have "unat (of_nat i :: 'a word) = i" by (rule unat_of_nat_less)
  then have "unat ((a - b) + of_nat i) = unat (a - b) + i"
    using * i by (subst unat_plus_simple [THEN iffD1]) (auto simp: no_olen_add_nat)
  then show ?thesis
    using assms by (simp add: apart_def algebra_simps)
qed simp

lemma apart_offset:
  fixes a b :: "'a::len word"
  assumes "apart a n b k" and "i + n' \<le> n" and "0 < n'" and "0 < k"
  shows "apart (a + of_nat i) n' b k"
proof -
  have i: "i < n" using assms by simp
  have "k \<le> unat (a + of_nat i - b)" by (rule apart_not_in [OF assms(1) i])
  moreover have "n' \<le> unat (b - (a + of_nat i))"
  proof -
    have "n \<le> unat (b - a)" using assms by (simp add: apart_def)
    moreover have "unat (of_nat i :: 'a word) = i"
      using i calculation unat_lt [of "b - a"] by (intro unat_of_nat_less) linarith
    ultimately have "unat ((b - a) - of_nat i) = unat (b - a) - i"
      using i by (subst unat_sub) (auto simp: word_le_nat_alt)
    then show ?thesis
      using \<open>n \<le> unat (b - a)\<close> assms(2) by (simp add: algebra_simps)
  qed
  ultimately show ?thesis by (simp add: apart_def)
qed

lemma apart_offset_same:
  fixes a :: "'a::len word"
  assumes "i + n \<le> j" and "j + k \<le> 2 ^ LENGTH('a)" and "0 < n" and "0 < k"
  shows "apart (a + of_nat i) n (a + of_nat j) k"
    and "apart (a + of_nat j) k (a + of_nat i) n"
proof -
  have ij: "unat (of_nat i :: 'a word) = i" "unat (of_nat j :: 'a word) = j"
    using assms by (auto intro!: unat_of_nat_less)
  have "unat (of_nat j - of_nat i :: 'a word) = j - i"
    using ij assms by (subst unat_sub) (auto simp: word_le_nat_alt)
  moreover have "of_nat i \<noteq> (of_nat j :: 'a word)"
    using ij assms by (metis add_leE less_add_same_cancel1 not_le)
  then have "unat (of_nat i - of_nat j :: 'a word) = 2 ^ LENGTH('a) - (j - i)"
    using unat_sub_add_cancel [of "of_nat i" "of_nat j :: 'a word"] calculation by simp
  ultimately show "apart (a + of_nat i) n (a + of_nat j) k"
    using assms by (simp add: apart_def) linarith
  then show "apart (a + of_nat j) k (a + of_nat i) n"
    by (simp add: apart_commute)
qed

section \<open>Loads after stores\<close>

lemma store_apply_out: "length bs \<le> unat (x - a) \<Longrightarrow> store m a bs x = m x"
  by (simp add: store_def)

lemma load_store_same:
  fixes m :: "'a::len cmem"
  assumes "length bs = n" and "n \<le> 2 ^ LENGTH('a)"
  shows "load (store m a bs) a n = bs"
  using assms by (auto simp: load_def store_def unat_of_nat_less intro!: nth_equalityI)

lemma load_store_apart [mem_simps]:
  "apart a n b (length bs) \<Longrightarrow> load (store m b bs) a n = load m a n"
  by (auto simp: load_def store_def dest: apart_not_in leD)

lemma load_cong: "(\<And>i. i < n \<Longrightarrow> m (a + of_nat i) = m' (a + of_nat i)) \<Longrightarrow> load m a n = load m' a n"
  by (simp add: load_def)

lemma rd64_wr64_same [mem_simps]:
  "3 \<le> LENGTH('a) \<Longrightarrow> rd64 (wr64 m a v) (a :: 'a::len word) = v"
  using power_increasing [of 3 "LENGTH('a)" "2::nat"]
  by (simp add: rd64_def wr64_def load_store_same of_le_le_bytes)

lemma rd32_wr32_same [mem_simps]:
  "2 \<le> LENGTH('a) \<Longrightarrow> rd32 (wr32 m a v) (a :: 'a::len word) = v"
  using power_increasing [of 2 "LENGTH('a)" "2::nat"]
  by (simp add: rd32_def wr32_def load_store_same of_le_le_bytes)

lemma rd64_wr64_apart [mem_simps]: "apart a 8 b 8 \<Longrightarrow> rd64 (wr64 m b v) a = rd64 m a"
  by (simp add: rd64_def wr64_def mem_simps)

lemma rd64_wr32_apart [mem_simps]: "apart a 8 b 4 \<Longrightarrow> rd64 (wr32 m b v) a = rd64 m a"
  by (simp add: rd64_def wr32_def mem_simps)

lemma rd32_wr64_apart [mem_simps]: "apart a 4 b 8 \<Longrightarrow> rd32 (wr64 m b v) a = rd32 m a"
  by (simp add: rd32_def wr64_def mem_simps)

lemma rd32_wr32_apart [mem_simps]: "apart a 4 b 4 \<Longrightarrow> rd32 (wr32 m b v) a = rd32 m a"
  by (simp add: rd32_def wr32_def mem_simps)

section \<open>Frames\<close>

text \<open>Outside the ranges \<open>rs\<close> the two memories agree.\<close>

definition frames :: "'a::len cmem \<Rightarrow> 'a cmem \<Rightarrow> ('a word \<times> nat) list \<Rightarrow> bool" where
  "frames m m' rs \<longleftrightarrow> (\<forall>x. (\<forall>(a, n) \<in> set rs. n \<le> unat (x - a)) \<longrightarrow> m' x = m x)"

lemma frames_refl [simp, intro]: "frames m m rs"
  by (simp add: frames_def)

lemma frames_trans: "frames m m' rs \<Longrightarrow> frames m' m'' rs' \<Longrightarrow> frames m m'' (rs @ rs')"
  unfolding frames_def by (metis (no_types, lifting) Un_iff set_append)

lemma frames_mono: "frames m m' rs \<Longrightarrow> set rs \<subseteq> set rs' \<Longrightarrow> frames m m' rs'"
  unfolding frames_def by blast

lemma frames_trans_same: "frames m m' rs \<Longrightarrow> frames m' m'' rs \<Longrightarrow> frames m m'' rs"
  by (simp add: frames_def)

lemma frames_load:
  assumes "frames m m' rs" and "\<forall>(a, n) \<in> set rs. apart c k a n"
  shows "load m' c k = load m c k"
proof (rule load_cong)
  fix i
  assume "i < k"
  then have "\<forall>(a, n) \<in> set rs. n \<le> unat (c + of_nat i - a)"
    using assms(2) apart_not_in by fast
  then show "m' (c + of_nat i) = m (c + of_nat i)" using assms(1) by (simp add: frames_def)
qed

lemma frames_store: "frames m (store m a bs) [(a, length bs)]"
  by (simp add: frames_def store_def)

text \<open>A write inside a range.\<close>

lemma unat_diff_offset:
  fixes x a :: "'a::len word"
  assumes "n \<le> unat (x - a)" and "i + k \<le> n"
  shows "k \<le> unat (x - (a + of_nat i))"
proof -
  have i: "i \<le> unat (x - a)" using assms by simp
  then have "unat (of_nat i :: 'a word) = i"
    using unat_lt [of "x - a"] by (intro unat_of_nat_less) linarith
  then have "unat ((x - a) - of_nat i) = unat (x - a) - i"
    using i by (subst unat_sub) (auto simp: word_le_nat_alt)
  then show ?thesis using assms by (simp add: algebra_simps)
qed

lemma frames_inside:
  assumes "frames m m' [(a + of_nat i, k)]" and "i + k \<le> n"
  shows "frames m m' [(a, n)]"
  using assms unat_diff_offset [of n _ a i k] by (auto simp: frames_def)

lemma frames_wr32: "frames m (wr32 m a v) [(a, 4)]"
  using frames_store [of m a "le_bytes 4 v"] by (simp add: wr32_def)

lemma frames_wr64: "frames m (wr64 m a v) [(a, 8)]"
  using frames_store [of m a "le_bytes 8 v"] by (simp add: wr64_def)

lemma frames_wr32_in: "i + 4 \<le> n \<Longrightarrow> frames m (wr32 m (a + of_nat i) v) [(a, n)]"
  using frames_inside [OF frames_wr32] .

lemma frames_wr64_in: "i + 8 \<le> n \<Longrightarrow> frames m (wr64 m (a + of_nat i) v) [(a, n)]"
  using frames_inside [OF frames_wr64] .

text \<open>Equal loads give equal fields.\<close>

lemma load_part:
  fixes a :: "'a::len word"
  assumes "load m' a n = load m a n" and "i + k \<le> n"
  shows "load m' (a + of_nat i) k = load m (a + of_nat i) k"
proof (rule load_cong)
  fix j
  assume "j < k"
  then have "load m' a n ! (i + j) = load m a n ! (i + j)" "i + j < n" using assms by auto
  then show "m' (a + of_nat i + of_nat j) = m (a + of_nat i + of_nat j)" by (simp add: add.assoc)
qed

lemma rd64_part: "load m' a n = load m a n \<Longrightarrow> i + 8 \<le> n \<Longrightarrow> rd64 m' (a + of_nat i) = rd64 m (a + of_nat i)"
  using load_part [of m' a n m i 8] by (simp add: rd64_def)

lemma rd32_part: "load m' a n = load m a n \<Longrightarrow> i + 4 \<le> n \<Longrightarrow> rd32 m' (a + of_nat i) = rd32 m (a + of_nat i)"
  using load_part [of m' a n m i 4] by (simp add: rd32_def)

lemma load_mono: "load m' a n = load m a n \<Longrightarrow> k \<le> n \<Longrightarrow> load m' a k = load m a k"
  using load_part [of m' a n m 0 k] by simp

section \<open>Alignment\<close>

lemma apart_aligned:
  fixes p q :: "'a::len word"
  assumes "k dvd unat p" "k dvd unat q" "k dvd 2 ^ LENGTH('a)" "p \<noteq> q"
  shows "apart p k q k"
proof -
  have "k dvd unat (a - b)" if "k dvd unat a" "k dvd unat b" for a b :: "'a word"
    using that assms(3) by (simp add: unat_sub_if' add.commute)
  then have "k dvd unat (p - q)" "k dvd unat (q - p)" using assms by blast+
  moreover have "unat (p - q) \<noteq> 0" "unat (q - p) \<noteq> 0"
    using assms(4) by (simp_all add: unat_eq_zero)
  ultimately show ?thesis by (simp add: apart_def dvd_imp_le)
qed

lemma apart_within:
  fixes p q :: "'a::len word"
  assumes "apart p n q k" "i + n' \<le> n" "j + k' \<le> k" "0 < n'" "0 < k'"
  shows "apart (p + of_nat i) n' (q + of_nat j) k'"
proof -
  have "apart (p + of_nat i) n' q k" using assms by (intro apart_offset) auto
  then have "apart q k (p + of_nat i) n'" by (simp add: apart_commute)
  then have "apart (q + of_nat j) k' (p + of_nat i) n'" using assms by (intro apart_offset) auto
  then show ?thesis by (simp add: apart_commute)
qed

end
