(* ===== verification/CString.thy ===== *)
theory CString
  imports Prelude
begin

text \<open>
  The string library of both kernels: x64_kenerl/libs/string.c and
  x86_kernel/lib/string.c. The two files have the same text but for memcmp,
  so the functions are defined once over memories of any address width; the
  64-bit kernel uses them at width 64 and the 32-bit kernel at width 32.

  Loops that run until a terminating zero byte are \<^theory_text>\<open>partial_function\<close>s:
  \<open>None\<close> says that the C loop does not return. Plain \<open>char\<close> is signed, \<open>size_t\<close>
  is a 32-bit unsigned integer in both kernels.
\<close>

section \<open>Definitions\<close>

partial_function (option) strcpy_loop ::
    "'a::len cmem \<Rightarrow> 'a word \<Rightarrow> 'a word \<Rightarrow> 'a cmem option" where
  "strcpy_loop m ptr src =
     (let m' = m(ptr := m src)
      in if m' src = 0 then Some m' else strcpy_loop m' (ptr + 1) (src + 1))"

definition strcpy :: "'a::len cmem \<Rightarrow> 'a word \<Rightarrow> 'a word \<Rightarrow> ('a cmem \<times> 'a word) option" where
  "strcpy m dest src = map_option (\<lambda>m'. (m', dest)) (strcpy_loop m dest src)"

partial_function (option) find_eos :: "'a::len cmem \<Rightarrow> 'a word \<Rightarrow> 'a word option" where
  "find_eos m ptr = (if m ptr \<noteq> 0 then find_eos m (ptr + 1) else Some ptr)"

definition strcat :: "'a::len cmem \<Rightarrow> 'a word \<Rightarrow> 'a word \<Rightarrow> ('a cmem \<times> 'a word) option" where
  "strcat m dest src =
     (case find_eos m dest of
        None \<Rightarrow> None
      | Some ptr \<Rightarrow> map_option (\<lambda>m'. (m', dest)) (strcpy_loop m ptr src))"

definition strlen :: "'a::len cmem \<Rightarrow> 'a word \<Rightarrow> u32 option" where
  "strlen m str = map_option (\<lambda>ptr. ucast (ptr - str)) (find_eos m str)"

partial_function (option) strcmp :: "'a::len cmem \<Rightarrow> 'a word \<Rightarrow> 'a word \<Rightarrow> int option" where
  "strcmp m lhs rhs =
     (if m lhs = m rhs \<and> m lhs \<noteq> 0 \<and> m rhs \<noteq> 0 then strcmp m (lhs + 1) (rhs + 1)
      else Some (if sint (m lhs) < sint (m rhs) then - 1
                 else if sint (m lhs) > sint (m rhs) then 1 else 0))"

text \<open>The result \<open>Some 0\<close> of strchr is the null pointer.\<close>

partial_function (option) strchr :: "'a::len cmem \<Rightarrow> 'a word \<Rightarrow> u32 \<Rightarrow> 'a word option" where
  "strchr m ptr ch =
     (if scast (m ptr) = ch then Some ptr
      else if m ptr = 0 then Some 0
      else strchr m (ptr + 1) ch)"

partial_function (option) strrchr_loop ::
    "'a::len cmem \<Rightarrow> 'a word \<Rightarrow> 'a word \<Rightarrow> u32 \<Rightarrow> 'a word option" where
  "strrchr_loop m lst ptr ch =
     (let lst' = (if scast (m ptr) = ch then ptr else lst)
      in if m ptr = 0 then Some lst' else strrchr_loop m lst' (ptr + 1) ch)"

definition strrchr :: "'a::len cmem \<Rightarrow> 'a word \<Rightarrow> u32 \<Rightarrow> 'a word option" where
  "strrchr m str ch = strrchr_loop m 0 str ch"

fun memcmp_loop :: "'a::len cmem \<Rightarrow> 'a word \<Rightarrow> 'a word \<Rightarrow> nat \<Rightarrow> int \<Rightarrow> int" where
  "memcmp_loop m su1 su2 0 res = res"
| "memcmp_loop m su1 su2 (Suc count) res =
     (let res' = uint (m su1) - uint (m su2)
      in if res' \<noteq> 0 then res' else memcmp_loop m (su1 + 1) (su2 + 1) count res')"

definition memcmp :: "'a::len cmem \<Rightarrow> 'a word \<Rightarrow> 'a word \<Rightarrow> u32 \<Rightarrow> int" where
  "memcmp m cs ct count = memcmp_loop m cs ct (unat count) 0"

fun memset_loop :: "'a::len cmem \<Rightarrow> 'a word \<Rightarrow> u8 \<Rightarrow> nat \<Rightarrow> 'a cmem" where
  "memset_loop m ptr ch 0 = m"
| "memset_loop m ptr ch (Suc count) = memset_loop (m(ptr := ch)) (ptr + 1) ch count"

definition memset :: "'a::len cmem \<Rightarrow> 'a word \<Rightarrow> u32 \<Rightarrow> u32 \<Rightarrow> 'a cmem" where
  "memset m dest ch count = memset_loop m dest (ucast ch) (unat count)"

fun memcpy_loop :: "'a::len cmem \<Rightarrow> 'a word \<Rightarrow> 'a word \<Rightarrow> nat \<Rightarrow> 'a cmem" where
  "memcpy_loop m ptr src 0 = m"
| "memcpy_loop m ptr src (Suc count) = memcpy_loop (m(ptr := m src)) (ptr + 1) (src + 1) count"

definition memcpy :: "'a::len cmem \<Rightarrow> 'a word \<Rightarrow> 'a word \<Rightarrow> u32 \<Rightarrow> 'a cmem" where
  "memcpy m dest src count = memcpy_loop m dest src (unat count)"

text \<open>
  memchr has no return statement after its loop: \<open>None\<close> stands for the
  unspecified value the caller then sees.
\<close>

fun memchr_loop :: "'a::len cmem \<Rightarrow> 'a word \<Rightarrow> u32 \<Rightarrow> nat \<Rightarrow> 'a word option" where
  "memchr_loop m ptr ch 0 = None"
| "memchr_loop m ptr ch (Suc count) =
     (if scast (m ptr) = ch then Some ptr else memchr_loop m (ptr + 1) ch count)"

definition memchr :: "'a::len cmem \<Rightarrow> 'a word \<Rightarrow> u32 \<Rightarrow> u32 \<Rightarrow> 'a word option" where
  "memchr m str ch count = memchr_loop m str ch (unat count)"

text \<open>
  The 32-bit kernel's memcmp: the loop condition \<open>*lptr == *rptr && count-- > 0\<close>
  reads the bytes before it looks at the count.
\<close>

fun x86_memcmp_loop :: "mem32 \<Rightarrow> u32 \<Rightarrow> u32 \<Rightarrow> nat \<Rightarrow> u32 \<times> u32" where
  "x86_memcmp_loop m lptr rptr 0 = (lptr, rptr)"
| "x86_memcmp_loop m lptr rptr (Suc count) =
     (if m lptr = m rptr then x86_memcmp_loop m (lptr + 1) (rptr + 1) count else (lptr, rptr))"

definition x86_memcmp :: "mem32 \<Rightarrow> u32 \<Rightarrow> u32 \<Rightarrow> u32 \<Rightarrow> int" where
  "x86_memcmp m lhs rhs count =
     (let (lptr, rptr) = x86_memcmp_loop m lhs rhs (unat count)
      in if sint (m lptr) < sint (m rptr) then - 1
         else if sint (m lptr) > sint (m rptr) then 1 else 0)"

text \<open>The zero-terminated string \<open>s\<close> stands at address \<open>p\<close>.\<close>

primrec cstr :: "'a::len cmem \<Rightarrow> 'a word \<Rightarrow> u8 list \<Rightarrow> bool" where
  "cstr m p [] \<longleftrightarrow> m p = 0"
| "cstr m p (c # s) \<longleftrightarrow> c \<noteq> 0 \<and> m p = c \<and> cstr m (p + 1) s"

section \<open>Strings and stores\<close>

lemma cstr_load: "cstr m p s \<longleftrightarrow> 0 \<notin> set s \<and> load m p (Suc (length s)) = s @ [0]"
  by (induction s arbitrary: p) (auto simp: load_Suc)

lemma cstr_cong:
  assumes "cstr m p s" and "\<And>i. i \<le> length s \<Longrightarrow> m' (p + of_nat i) = m (p + of_nat i)"
  shows "cstr m' p s"
proof -
  have "load m' p (Suc (length s)) = load m p (Suc (length s))"
    by (rule load_cong) (simp add: assms(2))
  with assms(1) show ?thesis by (simp add: cstr_load)
qed

lemma unat_minus_1_step:
  fixes x a :: "'a::len word"
  assumes "x \<noteq> a"
  shows "unat (x - a) = Suc (unat (x - (a + 1)))"
proof -
  have "x - a \<noteq> 0" using assms by simp
  then have "unat (x - a - 1) = unat (x - a) - 1" and "0 < unat (x - a)"
    by (simp_all add: unat_minus_one unat_gt_0)
  then show ?thesis by (simp add: algebra_simps)
qed

lemma store_Nil [simp]: "store m a [] = m"
  by (simp add: store_def)

lemma store_Cons:
  fixes m :: "'a::len cmem"
  assumes "length bs < 2 ^ LENGTH('a)"
  shows "store m a (b # bs) = store (m(a := b)) (a + 1) bs"
proof
  fix x
  show "store m a (b # bs) x = store (m(a := b)) (a + 1) bs x"
  proof (cases "x = a")
    case True
    have "a - (a + 1) = (- 1 :: 'a word)" by simp
    moreover have "unat (- 1 :: 'a word) = 2 ^ LENGTH('a) - 1"
      by (simp add: unsigned_minus_1_eq_mask mask_eq_exp_minus_1)
    ultimately have "\<not> unat (a - (a + 1)) < length bs" using assms by simp
    with True show ?thesis by (simp add: store_def)
  next
    case False
    then show ?thesis by (simp add: store_def unat_minus_1_step)
  qed
qed

lemma store_append:
  fixes m :: "'a::len cmem"
  assumes "length bs + length cs \<le> 2 ^ LENGTH('a)"
  shows "store m a (bs @ cs) = store (store m a bs) (a + of_nat (length bs)) cs"
  using assms
proof (induction bs arbitrary: m a)
  case Nil
  then show ?case by simp
next
  case (Cons b bs)
  then show ?case by (simp add: store_Cons add.assoc)
qed

lemma cstr_store:
  fixes m :: "'a::len cmem"
  assumes "0 \<notin> set s" and "length s < 2 ^ LENGTH('a)"
  shows "cstr (store m p (s @ [0])) p s"
  using assms by (simp add: cstr_load load_store_same)

section \<open>Length, copy and concatenation\<close>

lemma find_eos_cstr: "cstr m p s \<Longrightarrow> find_eos m p = Some (p + of_nat (length s))"
  by (induction s arbitrary: p) (simp_all add: find_eos.simps [of m] add.assoc)

lemma strlen_cstr:
  fixes m :: "'a::len cmem"
  assumes "cstr m p s" and "length s < 2 ^ 32" and "length s < 2 ^ LENGTH('a)"
  shows "strlen m p = Some (of_nat (length s))"
  using assms
  by (simp add: strlen_def find_eos_cstr word_unat_eq_iff unsigned_ucast_eq unsigned_of_nat
      take_bit_nat_eq_self)

lemma cstr_fun_upd:
  fixes m :: "'a::len cmem"
  assumes "cstr m p s" and "apart d (Suc n) p (Suc (length s))"
  shows "cstr (m(d := b)) p s"
proof (rule cstr_cong [OF assms(1)])
  fix i
  assume "i \<le> length s"
  then have "Suc n \<le> unat (p + of_nat i - d)"
    using apart_not_in [of p "Suc (length s)" d "Suc n" i] assms(2) by (simp add: apart_commute)
  then have "p + of_nat i \<noteq> d" by auto
  then show "(m(d := b)) (p + of_nat i) = m (p + of_nat i)" by simp
qed

lemma apart_Suc_Suc:
  fixes d p :: "'a::len word"
  assumes "apart d (Suc (Suc n)) p (Suc (Suc n))"
  shows "apart (d + 1) (Suc n) (p + 1) (Suc n)"
proof -
  have "apart (d + of_nat 1) (Suc n) p (Suc (Suc n))"
    by (rule apart_offset [OF assms]) auto
  then have "apart p (Suc (Suc n)) (d + 1) (Suc n)" by (simp add: apart_commute)
  then have "apart (p + of_nat 1) (Suc n) (d + 1) (Suc n)"
    by (rule apart_offset) auto
  then show ?thesis by (simp add: apart_commute)
qed

lemma apart_length_bound:
  fixes d p :: "'a::len word"
  assumes "apart d n p k"
  shows "n < 2 ^ LENGTH('a)" and "k < 2 ^ LENGTH('a)"
  using assms unat_lt [of "p - d"] unat_lt [of "d - p"]
  unfolding apart_def by linarith+

lemma strcpy_loop_cstr:
  fixes m :: "'a::len cmem"
  assumes "cstr m p s" and "apart d (Suc (length s)) p (Suc (length s))"
  shows "strcpy_loop m d p = Some (store m d (s @ [0]))"
  using assms
proof (induction s arbitrary: m d p)
  case Nil
  then show ?case
    by (simp add: strcpy_loop.simps store_Cons Let_def fun_upd_def)
next
  case (Cons c s)
  have ne: "p \<noteq> d" using Cons.prems(2) by (auto simp: apart_def)
  have d: "apart (d + 1) (Suc (length s)) (p + 1) (Suc (length s))"
    by (rule apart_Suc_Suc) (use Cons.prems(2) in simp)
  have "cstr (m(d := c)) p (c # s)"
    by (rule cstr_fun_upd [OF Cons.prems(1)]) (use Cons.prems(2) in simp)
  then have "cstr (m(d := c)) (p + 1) s" by simp
  then have "strcpy_loop (m(d := c)) (d + 1) (p + 1) = Some (store (m(d := c)) (d + 1) (s @ [0]))"
    using d by (rule Cons.IH)
  then show ?case
    using Cons.prems ne apart_length_bound(1) [OF Cons.prems(2)]
    by (simp add: strcpy_loop.simps [of m d] store_Cons Let_def)
qed

lemma cstr_append:
  "cstr m p (s @ t) \<longleftrightarrow>
     0 \<notin> set s \<and> load m p (length s) = s \<and> cstr m (p + of_nat (length s)) t"
  by (induction s arbitrary: p) (auto simp: load_Suc add.assoc)

lemma cstr_store_append:
  fixes m :: "'a::len cmem"
  assumes "cstr m d s" and "0 \<notin> set t" and "length s + length t < 2 ^ LENGTH('a)"
  shows "cstr (store m (d + of_nat (length s)) (t @ [0])) d (s @ t)"
proof -
  let ?m = "store m (d + of_nat (length s)) (t @ [0])"
  have "?m (d + of_nat i) = m (d + of_nat i)" if "i < length s" for i
  proof -
    have "apart (d + of_nat i) 1 (d + of_nat (length s)) (Suc (length t))"
      using that assms(3) by (intro apart_offset_same) auto
    then have "Suc (length t) \<le> unat (d + of_nat i - (d + of_nat (length s)))"
      by (simp add: apart_def)
    then show ?thesis by (intro store_apply_out) simp
  qed
  then have "load ?m d (length s) = load m d (length s)"
    by (rule load_cong)
  moreover have "load m d (length s) = s" and "0 \<notin> set s"
    using assms(1) by (simp_all add: cstr_load load_snoc)
  moreover have "cstr ?m (d + of_nat (length s)) t"
    by (rule cstr_store) (use assms in auto)
  ultimately show ?thesis by (simp add: cstr_append)
qed

section \<open>Memory blocks\<close>

lemma memset_loop_store:
  fixes m :: "'a::len cmem"
  assumes "n \<le> 2 ^ LENGTH('a)"
  shows "memset_loop m p ch n = store m p (replicate n ch)"
  using assms by (induction n arbitrary: m p) (simp_all add: store_Cons)

lemma memcpy_loop_store:
  fixes m :: "'a::len cmem"
  assumes "apart d n p n"
  shows "memcpy_loop m d p n = store m d (load m p n)"
  using assms
proof (induction n arbitrary: m d p)
  case 0
  then show ?case by simp
next
  case (Suc n)
  show ?case
  proof (cases n)
    case 0
    then show ?thesis by (simp add: load_Suc store_Cons)
  next
    case (Suc k)
    have ap: "apart (d + 1) n (p + 1) n"
      using Suc.prems apart_Suc_Suc [of d k p] \<open>n = Suc k\<close> by simp
    have "load (m(d := m p)) (p + 1) n = load m (p + 1) n"
    proof (rule load_cong)
      fix i
      assume "i < n"
      then have "Suc n \<le> unat (p + of_nat (Suc i) - d)"
        using apart_not_in [of p "Suc n" d "Suc n" "Suc i"] Suc.prems by (simp add: apart_commute)
      then have "p + of_nat (Suc i) \<noteq> d" by auto
      then show "(m(d := m p)) (p + 1 + of_nat i) = m (p + 1 + of_nat i)"
        by (simp add: add.assoc)
    qed
    then have "memcpy_loop (m(d := m p)) (d + 1) (p + 1) n =
        store (m(d := m p)) (d + 1) (load m (p + 1) n)"
      using Suc.IH [OF ap, of "m(d := m p)"] by metis
    then show ?thesis
      using apart_length_bound(1) [OF Suc.prems] by (simp add: load_Suc store_Cons)
  qed
qed

lemma memset_eq_store:
  fixes m :: "'a::len cmem"
  assumes "32 \<le> LENGTH('a)"
  shows "memset m p ch n = store m p (replicate (unat n) (ucast ch))"
proof -
  have "unat n < (2::nat) ^ 32" using unat_lt [of n] by simp
  also have "\<dots> \<le> 2 ^ LENGTH('a)" using assms by (rule power_increasing) simp
  finally show ?thesis by (simp add: memset_def memset_loop_store)
qed

lemma memcpy_eq_store:
  "apart d (unat n) p (unat n) \<Longrightarrow> memcpy m d p n = store m d (load m p (unat n))"
  by (simp add: memcpy_def memcpy_loop_store)

lemma memcmp_loop_eq_0: "memcmp_loop m p q n 0 = 0 \<longleftrightarrow> load m p n = load m q n"
  by (induction n arbitrary: p q) (auto simp: load_Suc Let_def word_uint_eq_iff)

text \<open>The first position at which two byte lists differ.\<close>

lemma memcmp_loop_first_diff:
  assumes "i < n" and "load m p i = load m q i" and "m (p + of_nat i) \<noteq> m (q + of_nat i)"
  shows "memcmp_loop m p q n 0 = uint (m (p + of_nat i)) - uint (m (q + of_nat i))"
  using assms
proof (induction i arbitrary: n p q)
  case 0
  then show ?case by (cases n) (auto simp: Let_def word_uint_eq_iff)
next
  case (Suc i)
  then show ?case
    using Suc.IH [of "n - 1" "p + 1" "q + 1"]
    by (cases n) (auto simp: Let_def load_Suc add.assoc)
qed

lemma x86_memcmp_loop_eq:
  "load m p n = load m q n \<Longrightarrow> x86_memcmp_loop m p q n = (p + of_nat n, q + of_nat n)"
  by (induction n arbitrary: p q) (auto simp: load_Suc add.assoc)

lemma x86_memcmp_loop_diff:
  assumes "i < n" and "load m p i = load m q i" and "m (p + of_nat i) \<noteq> m (q + of_nat i)"
  shows "x86_memcmp_loop m p q n = (p + of_nat i, q + of_nat i)"
  using assms
proof (induction i arbitrary: n p q)
  case 0
  then show ?case by (cases n) auto
next
  case (Suc i)
  then show ?case
    using Suc.IH [of "n - 1" "p + 1" "q + 1"]
    by (cases n) (auto simp: load_Suc add.assoc)
qed

section \<open>Searching\<close>

lemma strchr_found:
  assumes "cstr m p s" and "i < length s" and "scast (s ! i) = ch"
    and "\<And>j. j < i \<Longrightarrow> scast (s ! j) \<noteq> ch"
  shows "strchr m p ch = Some (p + of_nat i)"
  using assms
proof (induction s arbitrary: p i)
  case Nil
  then show ?case by simp
next
  case (Cons c s)
  show ?case
  proof (cases i)
    case 0
    with Cons.prems show ?thesis by (simp add: strchr.simps [of m p])
  next
    case (Suc k)
    have "scast (s ! j) \<noteq> ch" if "j < k" for j
      using Cons.prems(4) [of "Suc j"] that Suc by simp
    then have "strchr m (p + 1) ch = Some (p + 1 + of_nat k)"
      using Cons.IH [of "p + 1" k] Cons.prems Suc by simp
    moreover have "scast c \<noteq> ch"
      using Cons.prems(4) [of 0] Suc by simp
    ultimately show ?thesis
      using Cons.prems Suc by (simp add: strchr.simps [of m p] add.assoc)
  qed
qed

lemma strchr_absent:
  assumes "cstr m p s" and "\<forall>c \<in> set s. scast c \<noteq> ch" and "ch \<noteq> 0"
  shows "strchr m p ch = Some 0"
  using assms by (induction s arbitrary: p) (simp_all add: strchr.simps [of m])

lemma memchr_loop_correct:
  "memchr_loop m p ch n =
     (if \<exists>i < n. scast (m (p + of_nat i)) = ch
      then Some (p + of_nat (LEAST i. scast (m (p + of_nat i)) = ch)) else None)"
proof (induction n arbitrary: p)
  case 0
  then show ?case by simp
next
  case (Suc n)
  let ?P = "\<lambda>i. scast (m (p + of_nat i)) = ch"
  show ?case
  proof (cases "?P 0")
    case True
    then have "(LEAST i. ?P i) = 0" by (intro Least_eq_0)
    with True show ?thesis by auto
  next
    case False
    have ex: "(\<exists>i < Suc n. ?P i) \<longleftrightarrow> (\<exists>i < n. ?P (Suc i))"
      using False by (auto simp: less_Suc_eq_0_disj)
    have "(LEAST i. ?P i) = Suc (LEAST i. ?P (Suc i))" if "?P (Suc i)" for i
      using Least_Suc [of ?P "Suc i"] that False by simp
    with False show ?thesis
      by (auto simp: Suc.IH ex add.assoc)
  qed
qed

section \<open>Comparison\<close>

lemma strcmp_cstr:
  assumes "cstr m p s" and "cstr m q t"
  shows "\<exists>r. strcmp m p q = Some r \<and> (r = 0 \<longleftrightarrow> s = t) \<and>
    (r < 0 \<longleftrightarrow> ord_class.lexordp (map sint (s @ [0])) (map sint (t @ [0])))"
  using assms
proof (induction s arbitrary: p q t)
  case Nil
  then show ?case by (cases t) (auto simp: strcmp.simps [of m p] signed_eq_0_iff linorder_neq_iff)
next
  case (Cons c s)
  note Cons_s = this
  show ?case
  proof (cases t)
    case Nil
    with Cons.prems show ?thesis
      by (auto simp: strcmp.simps [of m p] signed_eq_0_iff linorder_neq_iff)
  next
    case (Cons d u)
    show ?thesis
    proof (cases "c = d")
      case True
      then show ?thesis
        using Cons_s Cons Cons_s(1) [of "p + 1" "q + 1" u]
        by (simp add: strcmp.simps [of m p])
    next
      case False
      then have "sint c \<noteq> sint d" using signed_word_eqI by blast
      then show ?thesis
        using Cons_s Cons False by (auto simp: strcmp.simps [of m p])
    qed
  qed
qed

section \<open>Properties\<close>

text \<open>strcpy returns its destination, which then holds the source string; the
  source is intact and no byte outside the copied range changes, when the two
  ranges do not overlap.\<close>

lemma strcpy_correct:
  fixes m :: mem
  assumes "cstr m src s"
    and "apart dest (Suc (length s)) src (Suc (length s))"
  shows "\<exists>m'. strcpy m dest src = Some (m', dest) \<and> cstr m' dest s \<and> cstr m' src s \<and>
    (\<forall>x. Suc (length s) \<le> unat (x - dest) \<longrightarrow> m' x = m x)"
proof -
  let ?m = "store m dest (s @ [0])"
  have "strcpy m dest src = Some (?m, dest)"
    using strcpy_loop_cstr [OF assms] by (simp add: strcpy_def)
  moreover have "0 \<notin> set s" using assms(1) by (simp add: cstr_load)
  then have "cstr ?m dest s"
    using apart_length_bound(1) [OF assms(2)] by (intro cstr_store) auto
  moreover have "cstr ?m src s"
    using assms by (simp add: cstr_load load_store_apart apart_commute)
  ultimately show ?thesis
    by (auto simp: store_apply_out)
qed

text \<open>strcat appends the source string to the destination string.\<close>

lemma strcat_correct:
  fixes m :: mem
  assumes "cstr m dest s" and "cstr m src t"
    and "apart (dest + of_nat (length s)) (Suc (length t)) src (Suc (length t))"
    and "length s + length t < 2 ^ 64"
  shows "\<exists>m'. strcat m dest src = Some (m', dest) \<and> cstr m' dest (s @ t)"
proof -
  have "strcat m dest src = Some (store m (dest + of_nat (length s)) (t @ [0]), dest)"
    using assms by (simp add: strcat_def find_eos_cstr strcpy_loop_cstr)
  moreover have "cstr (store m (dest + of_nat (length s)) (t @ [0])) dest (s @ t)"
    using assms by (intro cstr_store_append) (simp_all add: cstr_load)
  ultimately show ?thesis by blast
qed

text \<open>The 64-bit memcmp is 0 exactly when the two blocks of \<open>count\<close> bytes are
  equal, and otherwise the difference of the first pair of unequal bytes.\<close>

lemma memcmp_correct:
  fixes m :: mem
  shows "(memcmp m cs ct count = 0 \<longleftrightarrow> load m cs (unat count) = load m ct (unat count)) \<and>
    (\<forall>i < unat count. load m cs i = load m ct i \<and> m (cs + of_nat i) \<noteq> m (ct + of_nat i) \<longrightarrow>
       memcmp m cs ct count = uint (m (cs + of_nat i)) - uint (m (ct + of_nat i)))"
  using memcmp_loop_eq_0 memcmp_loop_first_diff by (auto simp: memcmp_def)

text \<open>The 32-bit memcmp looks one byte too far: on blocks whose \<open>count\<close> bytes
  agree its result is the comparison of the bytes after the blocks, so equal
  blocks can compare as unequal.\<close>

lemma x86_memcmp_past_end:
  assumes "load m lhs (unat count) = load m rhs (unat count)"
  shows "x86_memcmp m lhs rhs count =
    sgn (sint (m (lhs + count)) - sint (m (rhs + count)))"
  using x86_memcmp_loop_eq [OF assms] by (simp add: x86_memcmp_def)

end
