(* ===== verification/String32.thy ===== *)
theory String32
  imports CString
begin

text \<open>
  The string library of the 32-bit kernel (x86_kernel/lib/string.c): the functions
  whose text is the same as in x64_kenerl/libs/string.c are the instances of the
  definitions of CString at 32-bit pointers, and so the lemmas of CString apply to
  them. Its memcmp, which differs, is \<open>x86_memcmp\<close> of CString.
\<close>

definition x86_strcpy :: "mem32 \<Rightarrow> u32 \<Rightarrow> u32 \<Rightarrow> (mem32 \<times> u32) option" where "x86_strcpy = strcpy"
definition x86_strcat :: "mem32 \<Rightarrow> u32 \<Rightarrow> u32 \<Rightarrow> (mem32 \<times> u32) option" where "x86_strcat = strcat"
definition x86_strlen :: "mem32 \<Rightarrow> u32 \<Rightarrow> u32 option" where "x86_strlen = strlen"
definition x86_strcmp :: "mem32 \<Rightarrow> u32 \<Rightarrow> u32 \<Rightarrow> int option" where "x86_strcmp = strcmp"
definition x86_strchr :: "mem32 \<Rightarrow> u32 \<Rightarrow> u32 \<Rightarrow> u32 option" where "x86_strchr = strchr"
definition x86_strrchr :: "mem32 \<Rightarrow> u32 \<Rightarrow> u32 \<Rightarrow> u32 option" where "x86_strrchr = strrchr"
definition x86_memset :: "mem32 \<Rightarrow> u32 \<Rightarrow> u32 \<Rightarrow> u32 \<Rightarrow> mem32" where "x86_memset = memset"
definition x86_memcpy :: "mem32 \<Rightarrow> u32 \<Rightarrow> u32 \<Rightarrow> u32 \<Rightarrow> mem32" where "x86_memcpy = memcpy"
definition x86_memchr :: "mem32 \<Rightarrow> u32 \<Rightarrow> u32 \<Rightarrow> u32 \<Rightarrow> u32 option" where "x86_memchr = memchr"

lemmas x86_string_defs = x86_strcpy_def x86_strcat_def x86_strlen_def x86_strcmp_def x86_strchr_def
  x86_strrchr_def x86_memset_def x86_memcpy_def x86_memchr_def

lemma x86_strlen_string:
  "cstr m p s \<Longrightarrow> length s < 2 ^ 32 \<Longrightarrow> x86_strlen m p = Some (of_nat (length s))"
  by (simp add: x86_strlen_def strlen_cstr)

end
