(* ===== verification/Bitmap.thy ===== *)
theory Bitmap
  imports CString
begin

text \<open>
  The bitmap library (x64_kenerl/libs/bitmap.c, include/libs/bitmap.h): a
  descriptor of a bit array in memory, test and set of one bit, and the search
  for a run of free bits. All indices are 32-bit (\<open>size_t\<close> and \<open>u32\<close>), the
  \<open>int\<close> results of bitmap_scan are kept as their 32-bit pattern, EOF being -1.

  \<open>bitv m bmap i\<close> is the abstraction: bit \<open>i\<close> of the array, independent of the
  offset arithmetic.
\<close>

section \<open>Definitions\<close>

record bitmap_t =
  bm_bits :: u64
  bm_length :: u32
  bm_offset :: u32

definition EOF_pat :: u32 where
  "EOF_pat = - 1"

definition bitmap_make :: "u64 \<Rightarrow> u32 \<Rightarrow> u32 \<Rightarrow> bitmap_t" where
  "bitmap_make bits len off = \<lparr>bm_bits = bits, bm_length = len, bm_offset = off\<rparr>"

definition bitmap_init :: "mem \<Rightarrow> u64 \<Rightarrow> u32 \<Rightarrow> u32 \<Rightarrow> mem \<times> bitmap_t" where
  "bitmap_init m bits len start = (memset m bits 0 len, bitmap_make bits len start)"

definition bitmap_test :: "mem \<Rightarrow> bitmap_t \<Rightarrow> u32 \<Rightarrow> bool" where
  "bitmap_test m bmap index =
     (let idx = index - bm_offset bmap;
          bytes = idx div 8;
          bits = idx mod 8
      in (ucast (m (bm_bits bmap + ucast bytes)) :: u32) AND push_bit (unat bits) 1 \<noteq> 0)"

definition bitmap_set :: "mem \<Rightarrow> bitmap_t \<Rightarrow> u32 \<Rightarrow> bool \<Rightarrow> mem" where
  "bitmap_set m bmap index value =
     (let idx = index - bm_offset bmap;
          bytes = idx div 8;
          bits = idx mod 8;
          a = bm_bits bmap + ucast bytes;
          old = (ucast (m a) :: u32);
          msk = (push_bit (unat bits) 1 :: u32)
      in if value then m(a := ucast (old OR msk)) else m(a := ucast (old AND NOT msk)))"

text \<open>The search loop of bitmap_scan; its result is the variable \<open>start\<close>.\<close>

fun scan_find :: "mem \<Rightarrow> bitmap_t \<Rightarrow> u32 \<Rightarrow> nat \<Rightarrow> u32 \<Rightarrow> u32 \<Rightarrow> u32" where
  "scan_find m bmap count 0 next_bit counter = EOF_pat"
| "scan_find m bmap count (Suc bits_left) next_bit counter =
     (let counter' = (if \<not> bitmap_test m bmap (bm_offset bmap + next_bit) then counter + 1 else 0);
          next_bit' = next_bit + 1
      in if counter' = count then next_bit' - count
         else scan_find m bmap count bits_left next_bit' counter')"

text \<open>The loop that marks the run it has found.\<close>

fun scan_mark :: "mem \<Rightarrow> bitmap_t \<Rightarrow> nat \<Rightarrow> u32 \<Rightarrow> mem" where
  "scan_mark m bmap 0 next_bit = m"
| "scan_mark m bmap (Suc bits_left) next_bit =
     scan_mark (bitmap_set m bmap (bm_offset bmap + next_bit) True) bmap bits_left (next_bit + 1)"

definition bitmap_scan :: "mem \<Rightarrow> bitmap_t \<Rightarrow> u32 \<Rightarrow> mem \<times> u32" where
  "bitmap_scan m bmap count =
     (let start = scan_find m bmap count (unat (bm_length bmap * 8)) 0 0
      in if start = EOF_pat then (m, EOF_pat)
         else (scan_mark m bmap (unat count) start, start + bm_offset bmap))"

text \<open>Abstraction.\<close>

definition bitv :: "mem \<Rightarrow> bitmap_t \<Rightarrow> nat \<Rightarrow> bool" where
  "bitv m bmap i \<longleftrightarrow> bit (m (bm_bits bmap + of_nat (i div 8))) (i mod 8)"

definition free_run :: "mem \<Rightarrow> bitmap_t \<Rightarrow> nat \<Rightarrow> nat \<Rightarrow> bool" where
  "free_run m bmap s c \<longleftrightarrow> (\<forall>i < c. \<not> bitv m bmap (s + i))"

definition bm_nbits :: "bitmap_t \<Rightarrow> nat" where
  "bm_nbits bmap = 8 * unat (bm_length bmap)"

text \<open>A bitmap whose bit indices are positive C ints.\<close>

definition bm_wf :: "bitmap_t \<Rightarrow> bool" where
  "bm_wf bmap \<longleftrightarrow> bm_nbits bmap < 2 ^ 31"

section \<open>One bit\<close>

lemma idx_byte: "i < 2 ^ 32 \<Longrightarrow> ucast ((of_nat i :: u32) div 8) = (of_nat (i div 8) :: u64)"
  by (simp add: word_unat_eq_iff unat_div unsigned_of_nat unsigned_ucast_eq take_bit_nat_eq_self)

lemma idx_bit: "i < 2 ^ 32 \<Longrightarrow> unat ((of_nat i :: u32) mod 8) = i mod 8"
  by (simp add: unat_mod unsigned_of_nat take_bit_nat_eq_self)

lemma bitmap_test_eq:
  assumes "i < 2 ^ 32"
  shows "bitmap_test m bmap (bm_offset bmap + of_nat i) = bitv m bmap i"
proof -
  have "i mod 8 < 32" by (rule less_trans [of _ 8]) simp_all
  with assms show ?thesis
    by (simp add: bitmap_test_def Let_def idx_byte idx_bit and_exp_eq_0_iff_not_bit bitv_def
        bit_unsigned_iff)
qed

lemma bit_update_byte:
  assumes "n < 8"
  shows "bit (ucast ((ucast (b :: u8) :: u32) OR push_bit n 1) :: u8) j \<longleftrightarrow> bit b j \<or> j = n"
    and "bit (ucast ((ucast (b :: u8) :: u32) AND NOT (push_bit n 1)) :: u8) j \<longleftrightarrow> bit b j \<and> j \<noteq> n"
  using assms bit_imp_le_length [of b j]
  by (auto simp: bit_unsigned_iff bit_or_iff bit_and_iff bit_not_iff bit_exp_iff)

lemma bitmap_set_apply:
  assumes "i < 2 ^ 32"
  shows "bitmap_set m bmap (bm_offset bmap + of_nat i) v =
    m(bm_bits bmap + of_nat (i div 8) :=
        bitmap_set m bmap (bm_offset bmap + of_nat i) v (bm_bits bmap + of_nat (i div 8)))"
  using assms by (simp add: bitmap_set_def Let_def idx_byte idx_bit)

lemma bitmap_set_byte:
  assumes "i < 2 ^ 32"
  shows "bit (bitmap_set m bmap (bm_offset bmap + of_nat i) v (bm_bits bmap + of_nat (i div 8))) j \<longleftrightarrow>
    (if j = i mod 8 then v else bit (m (bm_bits bmap + of_nat (i div 8))) j)"
  using assms bit_update_byte [of "i mod 8"]
  by (auto simp: bitmap_set_def Let_def idx_byte idx_bit)

lemma of_nat_byte_inj:
  assumes "i < 2 ^ 32" and "j < 2 ^ 32" and "(of_nat (i div 8) :: u64) = of_nat (j div 8)"
  shows "i div 8 = j div 8"
proof -
  have "i div 8 < 2 ^ LENGTH(64)" "j div 8 < 2 ^ LENGTH(64)" using assms by auto
  then show ?thesis
    using assms(3) by (metis unat_of_nat_less)
qed

lemma bitv_bitmap_set:
  assumes "i < 2 ^ 32" and "j < 2 ^ 32"
  shows "bitv (bitmap_set m bmap (bm_offset bmap + of_nat i) v) bmap j = (if j = i then v else bitv m bmap j)"
proof (cases "j div 8 = i div 8")
  case True
  then have "(j = i) = (j mod 8 = i mod 8)"
    by (metis div_mult_mod_eq)
  with True show ?thesis
    using bitmap_set_byte [OF assms(1)] by (simp add: bitv_def)
next
  case False
  then have "(of_nat (j div 8) :: u64) \<noteq> of_nat (i div 8)"
    using of_nat_byte_inj assms by blast
  then have "bitmap_set m bmap (bm_offset bmap + of_nat i) v (bm_bits bmap + of_nat (j div 8))
      = m (bm_bits bmap + of_nat (j div 8))"
    by (subst bitmap_set_apply [OF assms(1)]) simp
  with False show ?thesis by (auto simp: bitv_def)
qed

lemma bitmap_set_frame:
  assumes "i < bm_nbits bmap" and "bm_nbits bmap \<le> 2 ^ 32"
    and "unat (bm_length bmap) \<le> unat (x - bm_bits bmap)"
  shows "bitmap_set m bmap (bm_offset bmap + of_nat i) v x = m x"
proof -
  have i: "i div 8 < unat (bm_length bmap)" "i < 2 ^ 32" using assms by (auto simp: bm_nbits_def)
  then have "i div 8 < 2 ^ LENGTH(64)" by simp
  then have "unat (of_nat (i div 8) :: u64) = i div 8" by (rule unat_of_nat_less)
  then have "x \<noteq> bm_bits bmap + of_nat (i div 8)" using i assms(3) by auto
  then show ?thesis by (subst bitmap_set_apply [OF i(2)]) simp
qed

section \<open>The search\<close>

text \<open>
  The loop invariant: of the first \<open>nb\<close> bits the last \<open>k\<close> are free, the one
  before them (if any) is taken, and no run of \<open>c\<close> free bits ends in them.
\<close>

definition scan_inv :: "mem \<Rightarrow> bitmap_t \<Rightarrow> nat \<Rightarrow> nat \<Rightarrow> nat \<Rightarrow> bool" where
  "scan_inv m bmap c nb k \<longleftrightarrow>
     k < c \<and> k \<le> nb \<and> free_run m bmap (nb - k) k \<and>
     (k < nb \<longrightarrow> bitv m bmap (nb - k - 1)) \<and>
     (\<forall>s. s + c \<le> nb \<longrightarrow> \<not> free_run m bmap s c)"

lemma free_run_Suc: "free_run m bmap s (Suc c) \<longleftrightarrow> free_run m bmap s c \<and> \<not> bitv m bmap (s + c)"
  by (auto simp: free_run_def less_Suc_eq)

lemma scan_inv_taken:
  assumes "scan_inv m bmap c nb k" and "bitv m bmap nb"
  shows "scan_inv m bmap c (Suc nb) 0"
proof -
  have "\<not> free_run m bmap s c" if "s + c \<le> Suc nb" for s
  proof (cases "s + c \<le> nb")
    case True
    with assms show ?thesis by (simp add: scan_inv_def)
  next
    case False
    with that have "s + (c - 1) = nb" "c - 1 < c" using assms by (auto simp: scan_inv_def)
    with assms(2) show ?thesis by (auto simp: free_run_def)
  qed
  with assms show ?thesis by (auto simp: scan_inv_def free_run_def)
qed

lemma scan_inv_free:
  assumes "scan_inv m bmap c nb k" and "\<not> bitv m bmap nb" and "Suc k \<noteq> c"
  shows "scan_inv m bmap c (Suc nb) (Suc k)"
proof -
  have k: "k < c" "k \<le> nb" "free_run m bmap (nb - k) k" using assms by (auto simp: scan_inv_def)
  have "\<not> free_run m bmap s c" if "s + c \<le> Suc nb" for s
  proof (cases "s + c \<le> nb")
    case True
    with assms show ?thesis by (simp add: scan_inv_def)
  next
    case False
    with that k assms(3) have "k < nb" and "nb - k - 1 = s + (nb - k - 1 - s)" and "nb - k - 1 - s < c"
      by auto
    then show ?thesis
      using assms(1) unfolding scan_inv_def free_run_def by metis
  qed
  moreover have "free_run m bmap (nb - k) (Suc k)"
    using k assms(2) by (simp add: free_run_Suc)
  ultimately show ?thesis
    using assms k by (auto simp: scan_inv_def)
qed

lemma scan_find_step:
  assumes "nb < 2 ^ 32" and "k < c" and "c < 2 ^ 32"
  shows "scan_find m bmap (of_nat c) (Suc n) (of_nat nb) (of_nat k) =
    (if bitv m bmap nb then scan_find m bmap (of_nat c) n (of_nat (Suc nb)) (of_nat 0)
     else if Suc k = c then of_nat (Suc nb) - of_nat c
     else scan_find m bmap (of_nat c) n (of_nat (Suc nb)) (of_nat (Suc k)))"
proof -
  have "(of_nat k + 1 :: u32) = of_nat c \<longleftrightarrow> Suc k = c"
    using of_nat_u32_eq [of "Suc k" c] assms by (simp add: add.commute)
  moreover have "(0 :: u32) = of_nat c \<longleftrightarrow> False"
    using of_nat_u32_eq [of 0 c] assms by simp
  ultimately show ?thesis
    using assms(1) by (simp add: bitmap_test_eq Let_def add.commute [of 1])
qed

text \<open>
  From a state that satisfies the invariant the loop finds the first run that
  ends within the next \<open>n\<close> bits, or EOF when there is none.
\<close>

definition scan_result :: "mem \<Rightarrow> bitmap_t \<Rightarrow> nat \<Rightarrow> nat \<Rightarrow> u32 \<Rightarrow> bool" where
  "scan_result m bmap c N r \<longleftrightarrow>
     (r = EOF_pat \<and> (\<forall>s. s + c \<le> N \<longrightarrow> \<not> free_run m bmap s c)) \<or>
     (\<exists>s. r = of_nat s \<and> s + c \<le> N \<and> free_run m bmap s c \<and> (\<forall>t < s. \<not> free_run m bmap t c))"

lemma scan_find_correct:
  assumes "scan_inv m bmap c nb k" and "nb + n < 2 ^ 31" and "c < 2 ^ 32"
  shows "scan_result m bmap c (nb + n) (scan_find m bmap (of_nat c) n (of_nat nb) (of_nat k))"
  using assms
proof (induction n arbitrary: nb k)
  case 0
  then show ?case by (simp add: scan_inv_def scan_result_def)
next
  case (Suc n)
  have "nb < 2 ^ 32" "k < c" using Suc.prems by (auto simp: scan_inv_def)
  note step = scan_find_step [OF this Suc.prems(3), of m bmap n]
  consider (taken) "bitv m bmap nb" | (found) "\<not> bitv m bmap nb" "Suc k = c"
    | (free) "\<not> bitv m bmap nb" "Suc k \<noteq> c" by blast
  then show ?case
  proof cases
    case taken
    then have "scan_inv m bmap c (Suc nb) 0"
      using scan_inv_taken Suc.prems(1) by blast
    then show ?thesis
      using Suc.IH [of "Suc nb" 0] Suc.prems taken by (simp add: step del: scan_find.simps of_nat_Suc)
  next
    case found
    have run: "free_run m bmap (nb - k) c" and k: "k \<le> nb"
      using Suc.prems(1) found by (auto simp: scan_inv_def free_run_Suc)
    have least: "\<not> free_run m bmap t c" if "t < nb - k" for t
      using Suc.prems(1) that found by (auto simp: scan_inv_def)
    have "(of_nat (Suc nb) :: u32) - of_nat c = of_nat (Suc nb - c)"
      using k found by (simp add: of_nat_diff)
    moreover have "Suc nb - c = nb - k" using found by simp
    ultimately have "scan_find m bmap (of_nat c) (Suc n) (of_nat nb) (of_nat k) = of_nat (nb - k)"
      using found by (simp add: step del: scan_find.simps of_nat_Suc)
    moreover have "nb - k + c \<le> nb + Suc n" using k found by simp
    ultimately show ?thesis
      using run least unfolding scan_result_def by blast
  next
    case free
    then have "scan_inv m bmap c (Suc nb) (Suc k)"
      using scan_inv_free Suc.prems(1) by blast
    then show ?thesis
      using Suc.IH [of "Suc nb" "Suc k"] Suc.prems free by (simp add: step del: scan_find.simps of_nat_Suc)
  qed
qed

lemma scan_mark_Suc:
  "scan_mark m bmap (Suc n) (of_nat s) =
     scan_mark (bitmap_set m bmap (bm_offset bmap + of_nat s) True) bmap n (of_nat (Suc s))"
  by (simp add: add.commute [of 1])

lemma bitv_scan_mark:
  assumes "s + n \<le> 2 ^ 32" and "j < 2 ^ 32"
  shows "bitv (scan_mark m bmap n (of_nat s)) bmap j \<longleftrightarrow> bitv m bmap j \<or> s \<le> j \<and> j < s + n"
  using assms(1)
proof (induction n arbitrary: m s)
  case 0
  then show ?case by auto
next
  case (Suc n)
  have "s < 2 ^ 32" "Suc s + n \<le> 2 ^ 32" using Suc.prems by auto
  then have "bitv (scan_mark m bmap (Suc n) (of_nat s)) bmap j \<longleftrightarrow>
      (j = s \<or> bitv m bmap j) \<or> Suc s \<le> j \<and> j < Suc s + n"
    by (simp only: scan_mark_Suc Suc.IH bitv_bitmap_set assms(2)) simp
  then show ?case by auto
qed

lemma scan_mark_frame:
  assumes "s + n \<le> bm_nbits bmap" and "bm_nbits bmap \<le> 2 ^ 32"
    and "unat (bm_length bmap) \<le> unat (x - bm_bits bmap)"
  shows "scan_mark m bmap n (of_nat s) x = m x"
  using assms(1)
proof (induction n arbitrary: m s)
  case 0
  then show ?case by simp
next
  case (Suc n)
  then show ?case
    using Suc.IH [of "Suc s"] assms(2,3)
    by (simp add: scan_mark_Suc bitmap_set_frame del: scan_mark.simps of_nat_Suc)
qed

section \<open>Properties\<close>

lemma unat_length_times_8:
  "bm_wf bmap \<Longrightarrow> unat (bm_length bmap * 8) = bm_nbits bmap"
  by (simp add: bm_wf_def bm_nbits_def unat_mult_lem [THEN iffD1])

lemma of_nat_neq_EOF: "s < 2 ^ 31 \<Longrightarrow> (of_nat s :: u32) \<noteq> EOF_pat"
proof
  assume s: "s < 2 ^ 31" and "(of_nat s :: u32) = EOF_pat"
  then have "unat (of_nat s :: u32) = unat (- 1 :: u32)" by (simp add: EOF_pat_def)
  moreover have "unat (of_nat s :: u32) = s" using s by (intro unat_of_nat_less) simp
  ultimately show False
    using s by (simp add: unsigned_minus_1_eq_mask mask_eq_exp_minus_1)
qed

lemma scan_inv_init: "0 < c \<Longrightarrow> scan_inv m bmap c 0 0"
  by (simp add: scan_inv_def free_run_def)

lemma bitmap_scan_cases:
  assumes "bm_wf bmap" and "0 < count"
  obtains (found) s m' where "bitmap_scan m bmap count = (m', of_nat s + bm_offset bmap)"
      "s + unat count \<le> bm_nbits bmap"
      "free_run m bmap s (unat count)" "\<forall>t < s. \<not> free_run m bmap t (unat count)"
      "\<forall>j < bm_nbits bmap. bitv m' bmap j \<longleftrightarrow> bitv m bmap j \<or> s \<le> j \<and> j < s + unat count"
      "\<forall>x. unat (bm_length bmap) \<le> unat (x - bm_bits bmap) \<longrightarrow> m' x = m x"
      "m' = scan_mark m bmap (unat count) (of_nat s)"
  | (full) "bitmap_scan m bmap count = (m, EOF_pat)"
      "\<forall>s. s + unat count \<le> bm_nbits bmap \<longrightarrow> \<not> free_run m bmap s (unat count)"
proof -
  let ?c = "unat count" and ?N = "bm_nbits bmap"
  have N: "?N < 2 ^ 31" using assms(1) by (simp add: bm_wf_def)
  have c: "0 < ?c" using assms(2) by (simp add: unat_gt_0 word_greater_zero_iff)
  define r where "r = scan_find m bmap count ?N 0 0"
  have "scan_result m bmap ?c (0 + ?N) (scan_find m bmap (of_nat ?c) ?N (of_nat 0) (of_nat 0))"
    using N unat_lt [of count] by (intro scan_find_correct scan_inv_init c) simp_all
  then have "scan_result m bmap ?c ?N r" by (simp add: r_def)
  then consider "r = EOF_pat" "\<forall>s. s + ?c \<le> ?N \<longrightarrow> \<not> free_run m bmap s ?c"
    | s where "r = of_nat s" "s + ?c \<le> ?N" "free_run m bmap s ?c" "\<forall>t < s. \<not> free_run m bmap t ?c"
    unfolding scan_result_def by blast
  then show thesis
  proof cases
    case 1
    then show thesis
      using assms(1) by (intro full) (simp_all add: bitmap_scan_def unat_length_times_8 flip: r_def)
  next
    case 2
    let ?m = "scan_mark m bmap ?c (of_nat s)"
    have "r \<noteq> EOF_pat" using 2 N of_nat_neq_EOF [of s] by simp
    then have "bitmap_scan m bmap count = (?m, of_nat s + bm_offset bmap)"
      using 2 assms(1) by (simp add: bitmap_scan_def Let_def unat_length_times_8 flip: r_def)
    moreover have "\<forall>j < ?N. bitv ?m bmap j \<longleftrightarrow> bitv m bmap j \<or> s \<le> j \<and> j < s + ?c"
      using 2 N by (auto simp: bitv_scan_mark)
    moreover have "\<forall>x. unat (bm_length bmap) \<le> unat (x - bm_bits bmap) \<longrightarrow> ?m x = m x"
      using 2 N by (auto intro: scan_mark_frame)
    ultimately show thesis using 2 found by blast
  qed
qed

text \<open>C16. bitmap_scan is first fit: when a run of \<open>count\<close> free bits exists it
  returns the first one (plus the offset) and sets exactly its bits; otherwise
  it returns EOF and changes nothing. Bytes outside the bit array never
  change.\<close>

theorem bitmap_scan_first_fit:
  assumes "bm_wf bmap" and "0 < count"
  shows "(\<exists>s m'. bitmap_scan m bmap count = (m', of_nat s + bm_offset bmap) \<and>
            s + unat count \<le> bm_nbits bmap \<and>
            free_run m bmap s (unat count) \<and> (\<forall>t < s. \<not> free_run m bmap t (unat count)) \<and>
            (\<forall>j < bm_nbits bmap. bitv m' bmap j \<longleftrightarrow> bitv m bmap j \<or> s \<le> j \<and> j < s + unat count) \<and>
            (\<forall>x. unat (bm_length bmap) \<le> unat (x - bm_bits bmap) \<longrightarrow> m' x = m x)) \<or>
         (bitmap_scan m bmap count = (m, EOF_pat) \<and>
            (\<forall>s. s + unat count \<le> bm_nbits bmap \<longrightarrow> \<not> free_run m bmap s (unat count)))"
  using assms by (cases rule: bitmap_scan_cases [of bmap count m]) blast+

theorem bitmap_scan_first_fit_witness:
  "\<exists>s m'. bitmap_scan ((\<lambda>_. 0)(0x500 := 1)) (bitmap_make 0x500 1 0) 2 = (m', of_nat s) \<and>
     (\<forall>j < 8. bitv m' (bitmap_make 0x500 1 0) j \<longleftrightarrow>
        bitv ((\<lambda>_. 0)(0x500 := 1)) (bitmap_make 0x500 1 0) j \<or> s \<le> j \<and> j < s + 2)"
proof -
  let ?m = "(\<lambda>_. 0)(0x500 := 1) :: mem" and ?b = "bitmap_make 0x500 1 0"
  have wf: "bm_wf ?b" and n: "bm_nbits ?b = 8"
    by (simp_all add: bm_wf_def bm_nbits_def bitmap_make_def)
  have "free_run ?m ?b 1 2"
    by (auto simp: free_run_def bitv_def bitmap_make_def less_2_cases_iff bit_1_iff)
  then have "\<not> (\<forall>s. s + unat (2 :: u32) \<le> bm_nbits ?b \<longrightarrow> \<not> free_run ?m ?b s (unat (2 :: u32)))"
    using n by (auto intro: exI [of _ 1])
  then show ?thesis
    using bitmap_scan_first_fit [OF wf, of 2 ?m] n by (auto simp: bitmap_make_def)
qed

text \<open>Test and set agree: after setting a bit the test reads the value back, and
  the test of any other bit of the array is unchanged.\<close>

lemma bitmap_test_set:
  assumes "bm_nbits bmap \<le> 2 ^ 32" and "i < bm_nbits bmap" and "j < bm_nbits bmap"
  shows "bitmap_test (bitmap_set m bmap (bm_offset bmap + of_nat i) v) bmap (bm_offset bmap + of_nat j) =
    (if j = i then v else bitmap_test m bmap (bm_offset bmap + of_nat j))"
  using assms by (simp add: bitmap_test_eq bitv_bitmap_set)

text \<open>bitmap_init clears the array.\<close>

lemma bitv_bitmap_init:
  assumes "bitmap_init m bits len start = (m', bmap)" and "i < bm_nbits bmap"
  shows "\<not> bitv m' bmap i"
proof -
  have b: "bmap = \<lparr>bm_bits = bits, bm_length = len, bm_offset = start\<rparr>"
    and m': "m' = store m bits (replicate (unat len) 0)"
    using assms(1) by (auto simp: bitmap_init_def bitmap_make_def memset_eq_store)
  have i: "i div 8 < unat len" using assms(2) b by (auto simp: bm_nbits_def)
  then have "i div 8 < 2 ^ LENGTH(64)" using unat_lt [of len] by simp
  then have "unat (of_nat (i div 8) :: u64) = i div 8" by (rule unat_of_nat_less)
  with i show ?thesis by (simp add: bitv_def b m' store_def)
qed

end
