(* ===== verification/PageAlloc.thy ===== *)
theory PageAlloc
  imports Prelude
begin

text \<open>
  The contract between the physical page allocators and their clients. Two
  components provide it: x64_kenerl/kernel/phymm.c (a bitmap) and
  x86_kernel/kernel/memory.c (a byte map). The clients are the bucket
  allocators, the page-table code and the descriptor tables. Address 0 is the
  null pointer, so 0 is the failure value of \<open>get_page\<close>.
\<close>

text \<open>The first \<open>n\<close> pages a client gets, oldest first; it stops at the first failure.\<close>

fun get_many :: "('s \<Rightarrow> 's \<times> 'a::len word) \<Rightarrow> nat \<Rightarrow> 's \<Rightarrow> 's \<times> 'a word list" where
  "get_many get_page 0 s = (s, [])"
| "get_many get_page (Suc n) s =
     (case get_page s of (s1, p) \<Rightarrow>
        if p = 0 then (s1, []) else (case get_many get_page n s1 of (s2, ps) \<Rightarrow> (s2, p # ps)))"

locale page_allocator =
  fixes get_page :: "'s \<Rightarrow> 's \<times> 'a::len word"
    and put_page :: "'s \<Rightarrow> 'a word \<Rightarrow> 's"
    and pages :: "'s \<Rightarrow> 'a word set"
    and used :: "'s \<Rightarrow> 'a word set"
    and invar :: "'s \<Rightarrow> bool"
  assumes get_page_ok: "invar s \<Longrightarrow> get_page s = (s', p) \<Longrightarrow> p \<noteq> 0 \<Longrightarrow>
      p \<in> pages s - used s \<and> used s' = insert p (used s) \<and> pages s' = pages s \<and> invar s'"
    and get_page_fail: "invar s \<Longrightarrow> get_page s = (s', 0) \<Longrightarrow> s' = s \<and> pages s \<subseteq> used s"
    and put_page_ok: "invar s \<Longrightarrow> p \<in> used s \<Longrightarrow>
      used (put_page s p) = used s - {p} \<and> pages (put_page s p) = pages s \<and> invar (put_page s p)"
    and used_pages: "invar s \<Longrightarrow> used s \<subseteq> pages s"
    and finite_pages: "invar s \<Longrightarrow> finite (pages s)"
    and null_not_page: "invar s \<Longrightarrow> 0 \<notin> pages s"
begin

lemma get_page_succeeds:
  assumes "invar s" and "p \<in> pages s - used s"
  shows "snd (get_page s) \<noteq> 0"
  using get_page_fail [OF assms(1), of "fst (get_page s)"] assms(2)
  by (metis Diff_iff prod.collapse subsetD)

lemma put_then_get:
  assumes "invar s" and "p \<in> used s"
  shows "snd (get_page (put_page s p)) \<noteq> 0"
proof (rule get_page_succeeds)
  show "invar (put_page s p)" using put_page_ok assms by blast
  show "p \<in> pages (put_page s p) - used (put_page s p)"
    using put_page_ok used_pages assms by blast
qed

lemma get_then_put:
  assumes "invar s" and "get_page s = (s', p)" and "p \<noteq> 0"
  shows "used (put_page s' p) = used s"
  using get_page_ok [OF assms] put_page_ok [of s' p] by auto

lemma get_many_spec:
  assumes "invar s" and "get_many get_page n s = (s', ps)"
  shows "invar s' \<and> pages s' = pages s \<and> used s' = used s \<union> set ps \<and>
    distinct ps \<and> set ps \<subseteq> pages s - used s \<and>
    length ps = min n (card (pages s - used s))"
  using assms
proof (induction n arbitrary: s ps)
  case 0
  then show ?case by simp
next
  case (Suc n)
  obtain s1 p where sp: "get_page s = (s1, p)" by (cases "get_page s")
  show ?case
  proof (cases "p = 0")
    case True
    then have "s1 = s" "pages s \<subseteq> used s"
      using get_page_fail [OF Suc.prems(1)] sp by blast+
    moreover from this have "min (Suc n) (card (pages s - used s)) = 0"
      by (metis Diff_eq_empty_iff card.empty min_0R)
    ultimately show ?thesis using Suc.prems sp True by simp
  next
    case False
    obtain ps' where many: "get_many get_page n s1 = (s', ps')" and ps: "ps = p # ps'"
      using Suc.prems(2) sp False by (auto split: prod.splits)
    have ok: "p \<in> pages s - used s" "used s1 = insert p (used s)" "pages s1 = pages s" "invar s1"
      using get_page_ok [OF Suc.prems(1) sp False] by auto
    have IH: "invar s' \<and> pages s' = pages s \<and> used s' = used s1 \<union> set ps' \<and> distinct ps' \<and>
        set ps' \<subseteq> pages s - used s1 \<and> length ps' = min n (card (pages s - used s1))"
      using Suc.IH [OF ok(4) many] ok(3) by simp
    have "pages s - used s1 = (pages s - used s) - {p}" using ok(2) by auto
    then have "Suc (card (pages s - used s1)) = card (pages s - used s)"
      using card_Suc_Diff1 [of "pages s - used s" p] ok(1) finite_pages [OF Suc.prems(1)] by simp
    then show ?thesis using IH ok ps by auto
  qed
qed

end

end
