(* ===== verification/Phymm.thy ===== *)
theory Phymm
  imports Bitmap PageAlloc
begin

text \<open>
  The physical page allocator of the 64-bit kernel (x64_kenerl/kernel/phymm.c):
  mm_init reads the memory map the loader left at address 0x1100 and sets up a
  bitmap at 0x500; get_free_page and free_page allocate and release pages of
  4096 bytes. The state is the memory and the static g_pm; the prints of
  mm_init are left out.

  The source shifts 32-bit fields left by 32 (\<open>baseAddrHigh << 32\<close>). The note
  in doc/ records that this yields 0 with the project's compiler, which is
  what \<open>push_bit 32\<close> gives on a 32-bit word.
\<close>

section \<open>Definitions\<close>

definition PAGE_SIZE :: u32 where
  "PAGE_SIZE = 4096"

record ards_t =
  baseAddrLow :: u32
  baseAddrHigh :: u32
  lengthAddrLow :: u32
  lengthAddrHigh :: u32
  ards_type :: u32

record mm_pages_manager_t =
  pm_start :: u64
  pm_length :: u64
  pm_bitsMap :: u64
  pm_map :: bitmap_t

type_synonym pm_state = "mem \<times> mm_pages_manager_t"

definition MEN_ARDS_NUM_ADDR :: u64 where "MEN_ARDS_NUM_ADDR = 0x1100"

definition MEN_ARDS_ADDR :: u64 where "MEN_ARDS_ADDR = 0x1102"

definition MEN_BITS_MAP :: u64 where "MEN_BITS_MAP = 0x500"

definition MEN_KERNEL_START :: u32 where "MEN_KERNEL_START = 0x100000"

definition MEN_MANAGER_START :: u64 where "MEN_MANAGER_START = 0x300000"

text \<open>The table entry \<open>g_mem_ards.ards[i]\<close>, 20 packed bytes.\<close>

definition rd_ards :: "mem \<Rightarrow> nat \<Rightarrow> ards_t" where
  "rd_ards m i =
     (let a = MEN_ARDS_ADDR + 20 * of_nat i
      in \<lparr>baseAddrLow = rd32 m a, baseAddrHigh = rd32 m (a + 4),
          lengthAddrLow = rd32 m (a + 8), lengthAddrHigh = rd32 m (a + 12),
          ards_type = rd32 m (a + 16)\<rparr>)"

definition mm_setup :: "mem \<Rightarrow> ards_t \<Rightarrow> pm_state" where
  "mm_setup m ards =
     (let len = ucast (push_bit 32 (lengthAddrHigh ards) OR lengthAddrLow ards);
          (m', bmap) = bitmap_init m MEN_BITS_MAP (ucast (drop_bit 12 (len :: u64))) 0
      in (m', \<lparr>pm_start = MEN_MANAGER_START, pm_length = len,
               pm_bitsMap = MEN_BITS_MAP, pm_map = bmap\<rparr>))"

fun mm_init_loop :: "mem \<Rightarrow> mm_pages_manager_t \<Rightarrow> nat \<Rightarrow> nat \<Rightarrow> pm_state" where
  "mm_init_loop m pm i 0 = (m, pm)"
| "mm_init_loop m pm i (Suc left) =
     (let ards = rd_ards m i
      in if MEN_KERNEL_START = push_bit 32 (baseAddrHigh ards) OR baseAddrLow ards
         then mm_setup m ards
         else mm_init_loop m pm (Suc i) left)"

definition mm_init :: "pm_state \<Rightarrow> pm_state" where
  "mm_init s = (let (m, pm) = s in mm_init_loop m pm 0 (unat (rd16 m MEN_ARDS_NUM_ADDR)))"

definition get_free_page :: "pm_state \<Rightarrow> pm_state \<times> u64" where
  "get_free_page s =
     (let (m, pm) = s;
          (m', idx) = bitmap_scan m (pm_map pm) 1
      in if idx = EOF_pat then ((m', pm), 0)
         else ((m', pm), pm_start pm + ucast (push_bit 12 idx)))"

definition free_page :: "pm_state \<Rightarrow> u64 \<Rightarrow> pm_state" where
  "free_page s p =
     (let (m, pm) = s;
          idx = ucast (drop_bit 12 (p - pm_start pm))
      in (bitmap_set m (pm_map pm) idx False, pm))"

text \<open>Abstraction: the address of page \<open>i\<close>, the managed and the allocated pages.\<close>

definition page_addr :: "mm_pages_manager_t \<Rightarrow> nat \<Rightarrow> u64" where
  "page_addr pm i = pm_start pm + of_nat (4096 * i)"

definition pm_pages :: "pm_state \<Rightarrow> u64 set" where
  "pm_pages s = page_addr (snd s) ` {i. i < bm_nbits (pm_map (snd s))}"

definition pm_used :: "pm_state \<Rightarrow> u64 set" where
  "pm_used s = page_addr (snd s) `
     {i. i < bm_nbits (pm_map (snd s)) \<and> bitv (fst s) (pm_map (snd s)) i}"

definition pm_invar :: "pm_state \<Rightarrow> bool" where
  "pm_invar s \<longleftrightarrow>
     bm_offset (pm_map (snd s)) = 0 \<and> bm_nbits (pm_map (snd s)) \<le> 2 ^ 20 \<and>
     0 < pm_start (snd s) \<and>
     unat (pm_start (snd s)) + 4096 * bm_nbits (pm_map (snd s)) \<le> 2 ^ 64"

section \<open>Page addresses\<close>

lemma unat_page_addr:
  assumes "pm_invar (m, pm)" and "i < bm_nbits (pm_map pm)"
  shows "unat (page_addr pm i) = unat (pm_start pm) + 4096 * i"
proof -
  have lt: "unat (pm_start pm) + 4096 * i < 2 ^ 64" using assms by (auto simp: pm_invar_def)
  then have "unat (of_nat (4096 * i) :: u64) = 4096 * i" by (intro unat_of_nat_less) simp
  with lt show ?thesis
    unfolding page_addr_def by (subst unat_plus_simple [THEN iffD1]) (auto simp: no_olen_add_nat)
qed

lemma page_addr_inj:
  assumes "pm_invar (m, pm)" and "i < bm_nbits (pm_map pm)" and "j < bm_nbits (pm_map pm)"
  shows "page_addr pm i = page_addr pm j \<longleftrightarrow> i = j"
proof
  assume "page_addr pm i = page_addr pm j"
  then have "unat (pm_start pm) + 4096 * i = unat (pm_start pm) + 4096 * j"
    using unat_page_addr [OF assms(1,2)] unat_page_addr [OF assms(1,3)] by metis
  then show "i = j" by simp
qed simp

lemma page_addr_neq_0:
  "pm_invar (m, pm) \<Longrightarrow> i < bm_nbits (pm_map pm) \<Longrightarrow> page_addr pm i \<noteq> 0"
  using unat_page_addr [of m pm i] by (auto simp: pm_invar_def word_less_nat_alt)

lemma page_addr_shift:
  assumes "i < 2 ^ 20"
  shows "ucast (push_bit 12 (of_nat i :: u32)) = (of_nat (4096 * i) :: u64)"
proof -
  have "push_bit 12 (of_nat i :: u32) = of_nat (4096 * i)"
    by (simp add: push_bit_eq_mult)
  moreover have "unat (of_nat (4096 * i) :: u32) = 4096 * i"
    using assms by (intro unat_of_nat_less) simp
  moreover have "unat (of_nat (4096 * i) :: u64) = 4096 * i"
    using assms by (intro unat_of_nat_less) simp
  ultimately show ?thesis
    using assms by (simp add: word_unat_eq_iff unsigned_ucast_eq take_bit_nat_eq_self)
qed

lemma page_index:
  assumes "i < 2 ^ 20"
  shows "(ucast (drop_bit 12 (page_addr pm i - pm_start pm)) :: u32) = of_nat i"
proof -
  have "unat (of_nat (4096 * i) :: u64) = 4096 * i"
    using assms by (intro unat_of_nat_less) simp
  then have "unat (drop_bit 12 (of_nat (4096 * i) :: u64)) = i"
    unfolding unat_drop_bit_eq by (simp only: drop_bit_eq_div) simp
  then show ?thesis
    using assms unat_of_nat_less [of i, where 'a=32]
    by (simp add: page_addr_def word_unat_eq_iff unsigned_ucast_eq take_bit_nat_eq_self)
qed

section \<open>Allocation and release\<close>

lemma pm_invar_bm_wf: "pm_invar (m, pm) \<Longrightarrow> bm_wf (pm_map pm)"
  by (simp add: pm_invar_def bm_wf_def)

lemma pm_invar_mem: "pm_invar (m, pm) \<Longrightarrow> pm_invar (m', pm)"
  by (simp add: pm_invar_def)

lemma get_free_page_cases:
  assumes "pm_invar (m, pm)"
  obtains (page) i m' where "get_free_page (m, pm) = ((m', pm), page_addr pm i)"
      "i < bm_nbits (pm_map pm)" "\<not> bitv m (pm_map pm) i"
      "\<forall>j < i. bitv m (pm_map pm) j"
      "\<forall>j < bm_nbits (pm_map pm). bitv m' (pm_map pm) j \<longleftrightarrow> bitv m (pm_map pm) j \<or> j = i"
      "\<forall>x. unat (bm_length (pm_map pm)) \<le> unat (x - bm_bits (pm_map pm)) \<longrightarrow> m' x = m x"
      "m' = bitmap_set m (pm_map pm) (bm_offset (pm_map pm) + of_nat i) True"
  | (none) "get_free_page (m, pm) = ((m, pm), 0)"
      "\<forall>i < bm_nbits (pm_map pm). bitv m (pm_map pm) i"
proof (rule bitmap_scan_cases [OF pm_invar_bm_wf [OF assms], of 1 m])
  let ?b = "pm_map pm"
  have off: "bm_offset ?b = 0" and N: "bm_nbits ?b \<le> 2 ^ 20"
    using assms by (simp_all add: pm_invar_def)
  show "(0 :: u32) < 1" by simp
  {
    fix s m'
    assume scan: "bitmap_scan m ?b 1 = (m', of_nat s + bm_offset ?b)"
      and s: "s + unat (1 :: u32) \<le> bm_nbits ?b"
      and run: "free_run m ?b s (unat (1 :: u32))" "\<forall>t < s. \<not> free_run m ?b t (unat (1 :: u32))"
      and set: "\<forall>j < bm_nbits ?b. bitv m' ?b j \<longleftrightarrow> bitv m ?b j \<or> s \<le> j \<and> j < s + unat (1 :: u32)"
      and frame: "\<forall>x. unat (bm_length ?b) \<le> unat (x - bm_bits ?b) \<longrightarrow> m' x = m x"
      and m': "m' = scan_mark m ?b (unat (1 :: u32)) (of_nat s)"
    have s20: "s < 2 ^ 20" using s N by simp
    then have "(of_nat s :: u32) \<noteq> EOF_pat" by (intro of_nat_neq_EOF) simp
    then have "get_free_page (m, pm) = ((m', pm), page_addr pm s)"
      using scan off page_addr_shift [OF s20] by (simp add: get_free_page_def page_addr_def)
    then show thesis
      using s run set frame m' by (intro page [of m' s]) (auto simp: free_run_def)
  next
    assume "bitmap_scan m ?b 1 = (m, EOF_pat)"
      and "\<forall>s. s + unat (1 :: u32) \<le> bm_nbits ?b \<longrightarrow> \<not> free_run m ?b s (unat (1 :: u32))"
    then show thesis
      by (intro none) (auto simp: get_free_page_def free_run_def)
  }
qed

lemma bitv_free_page:
  assumes "pm_invar (m, pm)" and "i < bm_nbits (pm_map pm)" and "free_page (m, pm) (page_addr pm i) = (m', pm')"
  shows "pm' = pm \<and> (\<forall>j < bm_nbits (pm_map pm). bitv m' (pm_map pm) j \<longleftrightarrow> bitv m (pm_map pm) j \<and> j \<noteq> i)"
proof -
  have i: "i < 2 ^ 20" "bm_nbits (pm_map pm) \<le> 2 ^ 20" using assms by (auto simp: pm_invar_def)
  have "m' = bitmap_set m (pm_map pm) (bm_offset (pm_map pm) + of_nat i) False" "pm' = pm"
    using assms page_index [OF i(1), of pm] by (auto simp: free_page_def pm_invar_def)
  then show ?thesis using i by (auto simp: bitv_bitmap_set)
qed

lemma get_free_page_used:
  assumes inv: "pm_invar s" and get: "get_free_page s = (s', p)" and p: "p \<noteq> 0"
  shows "p \<in> pm_pages s - pm_used s \<and> pm_used s' = insert p (pm_used s) \<and>
    pm_pages s' = pm_pages s \<and> pm_invar s'"
proof -
  obtain m pm where s: "s = (m, pm)" by (cases s)
  note inv' = inv [unfolded s]
  from inv' show ?thesis
  proof (cases rule: get_free_page_cases)
    case (page i m')
    then have sp: "s' = (m', pm)" "p = page_addr pm i" using get s by auto
    have "p \<notin> pm_used s"
      using page inv' sp page_addr_inj [OF inv', of i] by (auto simp: pm_used_def s)
    moreover have "pm_used s' = insert p (pm_used s)"
      using page sp by (auto simp: pm_used_def s)
    ultimately show ?thesis
      using page sp pm_invar_mem [OF inv'] by (auto simp: pm_pages_def s)
  qed (use get s p in simp)
qed

lemma free_page_used:
  assumes inv: "pm_invar s" and p: "p \<in> pm_used s"
  shows "pm_used (free_page s p) = pm_used s - {p} \<and>
    pm_pages (free_page s p) = pm_pages s \<and> pm_invar (free_page s p)"
proof -
  obtain m pm where s: "s = (m, pm)" by (cases s)
  obtain i where i: "i < bm_nbits (pm_map pm)" "p = page_addr pm i"
    using p by (auto simp: pm_used_def s)
  obtain m' pm' where f: "free_page (m, pm) (page_addr pm i) = (m', pm')" by fastforce
  note inv' = inv [unfolded s]
  have "pm' = pm" and b: "\<forall>j < bm_nbits (pm_map pm). bitv m' (pm_map pm) j \<longleftrightarrow> bitv m (pm_map pm) j \<and> j \<noteq> i"
    using bitv_free_page [OF inv' i(1) f] by auto
  moreover have "pm_used (m', pm) = pm_used s - {p}"
    using b i page_addr_inj [OF inv' _ i(1)] by (auto simp: pm_used_def s)
  ultimately show ?thesis
    using f i s pm_invar_mem [OF inv'] by (auto simp: pm_pages_def)
qed

lemma get_free_page_none:
  assumes inv: "pm_invar s" and get: "get_free_page s = (s', 0)"
  shows "s' = s \<and> pm_pages s \<subseteq> pm_used s"
proof -
  obtain m pm where s: "s = (m, pm)" by (cases s)
  note inv' = inv [unfolded s]
  from inv' show ?thesis
  proof (cases rule: get_free_page_cases)
    case (page i m')
    then show ?thesis using get s page_addr_neq_0 [OF inv'] by auto
  next
    case none
    then show ?thesis using get s by (auto simp: pm_pages_def pm_used_def)
  qed
qed

lemma bitv_cong:
  assumes "load m' (bm_bits b) (unat (bm_length b)) = load m (bm_bits b) (unat (bm_length b))"
    and "i < bm_nbits b"
  shows "bitv m' b i \<longleftrightarrow> bitv m b i"
proof -
  have "i div 8 < unat (bm_length b)" using assms(2) by (simp add: bm_nbits_def)
  then have "m' (bm_bits b + of_nat (i div 8)) = m (bm_bits b + of_nat (i div 8))"
    using assms(1) by (metis nth_load)
  then show ?thesis by (simp add: bitv_def)
qed

text \<open>The bytes of the bitmap.\<close>

definition pm_range :: "mm_pages_manager_t \<Rightarrow> u64 \<times> nat" where
  "pm_range pm = (bm_bits (pm_map pm), unat (bm_length (pm_map pm)))"

lemma pm_used_cong:
  assumes "load m' (bm_bits (pm_map pm)) (unat (bm_length (pm_map pm))) =
    load m (bm_bits (pm_map pm)) (unat (bm_length (pm_map pm)))"
  shows "pm_used (m', pm) = pm_used (m, pm)" and "pm_pages (m', pm) = pm_pages (m, pm)"
  using bitv_cong [OF assms] by (auto simp: pm_used_def pm_pages_def)

lemma get_free_page_frame:
  assumes "pm_invar (m, pm)" and "get_free_page (m, pm) = ((m', pm'), p)"
  shows "pm' = pm \<and> frames m m' [pm_range pm]"
  using assms(1) by (cases rule: get_free_page_cases) (use assms(2) in \<open>auto simp: frames_def pm_range_def\<close>)

lemma free_page_frame:
  assumes inv: "pm_invar (m, pm)" and p: "p \<in> pm_used (m, pm)" and free: "free_page (m, pm) p = (m', pm')"
  shows "pm' = pm \<and> frames m m' [pm_range pm]"
proof -
  obtain i where i: "i < bm_nbits (pm_map pm)" "p = page_addr pm i" using p by (auto simp: pm_used_def)
  have n: "i < 2 ^ 20" "bm_nbits (pm_map pm) \<le> 2 ^ 32" using i inv by (auto simp: pm_invar_def)
  have "m' = bitmap_set m (pm_map pm) (bm_offset (pm_map pm) + of_nat i) False" "pm' = pm"
    using free i inv page_index [OF n(1), of pm] by (auto simp: free_page_def pm_invar_def)
  then show ?thesis
    using bitmap_set_frame [OF i(1) n(2)] by (simp add: frames_def pm_range_def)
qed

interpretation pm: page_allocator get_free_page free_page pm_pages pm_used pm_invar
proof
  fix s :: pm_state
  assume inv: "pm_invar s"
  show "finite (pm_pages s)" by (simp add: pm_pages_def)
  show "pm_used s \<subseteq> pm_pages s" by (auto simp: pm_used_def pm_pages_def)
  show "0 \<notin> pm_pages s"
    using inv page_addr_neq_0 by (cases s) (force simp: pm_pages_def)
qed (use get_free_page_used get_free_page_none free_page_used in blast)+

section \<open>Initialisation\<close>

text \<open>Entry \<open>k\<close> is the first of the memory map that starts at 0x100000.\<close>

definition kernel_entry :: "mem \<Rightarrow> nat \<Rightarrow> bool" where
  "kernel_entry m k \<longleftrightarrow>
     k < unat (rd16 m MEN_ARDS_NUM_ADDR) \<and> baseAddrLow (rd_ards m k) = MEN_KERNEL_START \<and>
     (\<forall>i < k. baseAddrLow (rd_ards m i) \<noteq> MEN_KERNEL_START)"

lemma push_bit_32_u32 [simp]: "push_bit 32 (w :: u32) = 0"
  by (rule bit_eqI) (simp add: bit_push_bit_iff)

lemma mm_init_loop_found:
  assumes "k < n" and "baseAddrLow (rd_ards m (i + k)) = MEN_KERNEL_START"
    and "\<forall>j < k. baseAddrLow (rd_ards m (i + j)) \<noteq> MEN_KERNEL_START"
  shows "mm_init_loop m pm i n = mm_setup m (rd_ards m (i + k))"
  using assms
proof (induction k arbitrary: i n)
  case 0
  then show ?case by (cases n) auto
next
  case (Suc k)
  from Suc.prems(3) have "baseAddrLow (rd_ards m i) \<noteq> MEN_KERNEL_START" by force
  moreover have "\<forall>j < k. baseAddrLow (rd_ards m (Suc i + j)) \<noteq> MEN_KERNEL_START"
    using Suc.prems(3) by (metis Suc_less_eq add_Suc add_Suc_right)
  ultimately show ?case
    using Suc.IH [of "n - 1" "Suc i"] Suc.prems(1,2) by (cases n) (auto simp: Let_def)
qed

lemma mm_init_eq:
  "kernel_entry m k \<Longrightarrow> mm_init (m, pm) = mm_setup m (rd_ards m k)"
  using mm_init_loop_found [of k "unat (rd16 m MEN_ARDS_NUM_ADDR)" m 0]
  by (simp add: mm_init_def kernel_entry_def)

lemma mm_setup_fields:
  assumes "mm_setup m ards = (m', pm')"
  shows "pm_start pm' = MEN_MANAGER_START"
    and "bm_offset (pm_map pm') = 0"
    and "bm_nbits (pm_map pm') = 8 * (unat (lengthAddrLow ards) div 4096)"
    and "\<forall>i < bm_nbits (pm_map pm'). \<not> bitv m' (pm_map pm') i"
proof -
  let ?len = "lengthAddrLow ards"
  let ?n = "ucast (drop_bit 12 (ucast ?len :: u64)) :: u32"
  have n: "unat ?n = unat ?len div 4096"
  proof -
    have "unat ?len div 4096 < 2 ^ 32" using unat_lt [of ?len] by simp
    then show ?thesis
      using unat_lt [of ?len]
      by (simp add: unsigned_ucast_eq unat_drop_bit_eq drop_bit_eq_div unat_div take_bit_nat_eq_self)
  qed
  obtain bmap where b: "bitmap_init m MEN_BITS_MAP ?n 0 = (m', bmap)" and pm: "pm_map pm' = bmap"
    and start: "pm_start pm' = MEN_MANAGER_START"
    using assms by (auto simp: mm_setup_def Let_def split: prod.splits)
  then show "pm_start pm' = MEN_MANAGER_START" by simp
  have bm: "bmap = bitmap_make MEN_BITS_MAP ?n 0" using b by (simp add: bitmap_init_def)
  then show "bm_offset (pm_map pm') = 0" using pm by (simp add: bitmap_make_def)
  show "bm_nbits (pm_map pm') = 8 * (unat (lengthAddrLow ards) div 4096)"
    using bm pm n by (simp add: bitmap_make_def bm_nbits_def)
  show "\<forall>i < bm_nbits (pm_map pm'). \<not> bitv m' (pm_map pm') i"
    using bitv_bitmap_init [OF b] pm by simp
qed

lemma mm_setup_state:
  assumes "mm_setup m ards = s'" and "unat (lengthAddrLow ards) < 2 ^ 29 + 4096"
  shows "pm_invar s'" and "pm_used s' = {}"
    and "pm_pages s' = (\<lambda>i. 0x300000 + of_nat (4096 * i)) ` {i. i < 8 * (unat (lengthAddrLow ards) div 4096)}"
proof -
  obtain m' pm' where s': "s' = (m', pm')" by (cases s')
  note f = mm_setup_fields [OF assms(1) [unfolded s']]
  have "unat (lengthAddrLow ards) div 4096 \<le> 2 ^ 17" using assms(2) by simp
  then show "pm_invar s'"
    using f by (simp add: pm_invar_def s' MEN_MANAGER_START_def)
  show "pm_used s' = {}" using f(4) by (auto simp: pm_used_def s')
  show "pm_pages s' = (\<lambda>i. 0x300000 + of_nat (4096 * i)) ` {i. i < 8 * (unat (lengthAddrLow ards) div 4096)}"
    using f by (simp add: pm_pages_def s' page_addr_def MEN_MANAGER_START_def)
qed

lemma bitmap_set_undo:
  assumes "i < 2 ^ 32" and "\<not> bitv m bmap i"
  shows "bitmap_set (bitmap_set m bmap (bm_offset bmap + of_nat i) True) bmap (bm_offset bmap + of_nat i) False = m"
    (is "bitmap_set ?m _ _ _ = m")
proof
  fix x
  let ?a = "bm_bits bmap + of_nat (i div 8)"
  show "bitmap_set ?m bmap (bm_offset bmap + of_nat i) False x = m x"
  proof (cases "x = ?a")
    case True
    have "bitmap_set ?m bmap (bm_offset bmap + of_nat i) False ?a = m ?a"
      using assms by (intro bit_eqI) (auto simp: bitmap_set_byte bitv_def)
    then show ?thesis using True by simp
  next
    case False
    then show ?thesis
      by (subst bitmap_set_apply [OF assms(1)], simp) (subst bitmap_set_apply [OF assms(1)], simp)
  qed
qed

lemma get_free_page_free_page:
  assumes "pm_invar s" and "get_free_page s = (s', p)" and "p \<noteq> 0"
  shows "free_page s' p = s"
proof -
  obtain m pm where s: "s = (m, pm)" by (cases s)
  note inv = assms(1) [unfolded s]
  from inv show ?thesis
  proof (cases rule: get_free_page_cases)
    case (page i m')
    have i: "i < 2 ^ 20" and off: "bm_offset (pm_map pm) = 0" using page inv by (auto simp: pm_invar_def)
    have "free_page (m', pm) (page_addr pm i) = (bitmap_set m' (pm_map pm) (of_nat i) False, pm)"
      using page_index [OF i, of pm] by (simp add: free_page_def)
    moreover have "bitmap_set m' (pm_map pm) (of_nat i) False = m"
      using bitmap_set_undo [of i m "pm_map pm"] page off i by simp
    ultimately show ?thesis using page s assms(2) by auto
  qed (use assms s in simp)
qed

section \<open>Properties\<close>

text \<open>C14. A page that get_free_page returns was free, is the lowest free page, is
  allocated afterwards, and only bytes of the bitmap change; the null pointer
  comes back only when every managed page is in use.\<close>

theorem get_free_page_correct:
  assumes "pm_invar s"
  shows "case get_free_page s of (s', p) \<Rightarrow>
    if p = 0 then s' = s \<and> pm_pages s = pm_used s
    else p \<in> pm_pages s - pm_used s \<and> (\<forall>q \<in> pm_pages s - pm_used s. p \<le> q) \<and>
      pm_used s' = insert p (pm_used s) \<and> pm_pages s' = pm_pages s \<and> pm_invar s' \<and>
      (\<forall>x. unat (bm_length (pm_map (snd s))) \<le> unat (x - bm_bits (pm_map (snd s))) \<longrightarrow> fst s' x = fst s x)"
proof -
  obtain m pm where s: "s = (m, pm)" by (cases s)
  note inv = assms [unfolded s]
  from inv show ?thesis
  proof (cases rule: get_free_page_cases)
    case (page i m')
    have nz: "page_addr pm i \<noteq> 0" using page_addr_neq_0 [OF inv page(2)] .
    have "page_addr pm i \<le> q" if q: "q \<in> pm_pages s - pm_used s" for q
    proof -
      obtain j where j: "j < bm_nbits (pm_map pm)" "q = page_addr pm j" "\<not> bitv m (pm_map pm) j"
        using q by (auto simp: pm_pages_def pm_used_def s)
      then have "i \<le> j" using page(4) not_le by blast
      then show ?thesis
        using unat_page_addr [OF inv] page(2) j by (simp add: word_le_nat_alt)
    qed
    then show ?thesis
      using page s nz get_free_page_used [OF assms, of "(m', pm)" "page_addr pm i"] by auto
  next
    case none
    then show ?thesis
      using s get_free_page_none [OF assms, of s] pm.used_pages [OF assms] by auto
  qed
qed

text \<open>The manager of a machine whose memory map has one region of 64 KiB at 0x100000.\<close>

definition demo_pm :: mm_pages_manager_t where
  "demo_pm = \<lparr>pm_start = 0x300000, pm_length = 0x10000, pm_bitsMap = 0x500,
     pm_map = bitmap_make 0x500 16 0\<rparr>"

lemma demo_pm_invar: "pm_invar (m, demo_pm)"
  by (simp add: pm_invar_def demo_pm_def bitmap_make_def bm_nbits_def)

theorem get_free_page_correct_witness:
  "case get_free_page (\<lambda>_. 0, demo_pm) of (s', p) \<Rightarrow>
    if p = 0 then s' = (\<lambda>_. 0, demo_pm) \<and> pm_pages (\<lambda>_. 0, demo_pm) = pm_used (\<lambda>_. 0, demo_pm)
    else p \<in> pm_pages (\<lambda>_. 0, demo_pm) - pm_used (\<lambda>_. 0, demo_pm)"
  using get_free_page_correct [OF demo_pm_invar, of "\<lambda>_. 0"] by (auto split: prod.splits if_splits)

text \<open>Repeated allocation: \<open>n\<close> calls of get_free_page return pairwise distinct
  pages that were all free, as many as there are (at most \<open>n\<close>), and exactly these
  become allocated.\<close>

lemma get_free_page_many:
  assumes "pm_invar s" and "get_many get_free_page n s = (s', ps)"
  shows "distinct ps \<and> set ps \<subseteq> pm_pages s - pm_used s \<and>
    length ps = min n (card (pm_pages s - pm_used s)) \<and>
    pm_used s' = pm_used s \<union> set ps \<and> pm_invar s'"
  using pm.get_many_spec [OF assms] by blast

text \<open>C15. free_page undoes get_free_page: freeing the page just obtained restores the
  whole state, and freeing any allocated page makes exactly that page free.\<close>

theorem free_page_correct:
  assumes "pm_invar s" and "p \<in> pm_used s"
  shows "pm_used (free_page s p) = pm_used s - {p} \<and> pm_invar (free_page s p) \<and>
    snd (get_free_page (free_page s p)) \<noteq> 0 \<and>
    (\<forall>t q. pm_invar t \<and> get_free_page t = (s, q) \<and> q \<noteq> 0 \<longrightarrow> free_page s q = t)"
  using free_page_used [OF assms] pm.put_then_get [OF assms] get_free_page_free_page by auto

theorem free_page_correct_witness:
  "pm_used (free_page ((\<lambda>_. 0)(0x500 := 1), demo_pm) 0x300000) =
   pm_used ((\<lambda>_. 0)(0x500 := 1), demo_pm) - {0x300000}"
proof -
  let ?s = "((\<lambda>_. 0)(0x500 := 1), demo_pm)"
  have "page_addr demo_pm 0 \<in> pm_used ?s"
    by (auto simp: pm_used_def bitv_def demo_pm_def bitmap_make_def bm_nbits_def intro!: imageI)
  then have "0x300000 \<in> pm_used ?s" by (simp add: page_addr_def demo_pm_def)
  then show ?thesis using free_page_correct [OF demo_pm_invar] by blast
qed

text \<open>C19. mm_init establishes the allocator's invariant with no page allocated, but
  it manages eight pages for every page of the region: the bitmap gets one byte
  per page where one bit is meant, and the pages start at 0x300000 although the
  length counts from 0x100000. Some managed page lies past the end of the
  region.\<close>

theorem mm_init_manages_too_much:
  assumes "kernel_entry m k"
    and "unat (lengthAddrLow (rd_ards m k)) < 2 ^ 29 + 4096"
    and "4096 \<le> unat (lengthAddrLow (rd_ards m k))"
  shows "pm_invar (mm_init (m, pm)) \<and> pm_used (mm_init (m, pm)) = {} \<and>
    card (pm_pages (mm_init (m, pm))) = 8 * (unat (lengthAddrLow (rd_ards m k)) div 4096) \<and>
    (\<exists>p \<in> pm_pages (mm_init (m, pm)). unat p \<ge> 0x100000 + unat (lengthAddrLow (rd_ards m k)))"
proof -
  let ?L = "unat (lengthAddrLow (rd_ards m k))" and ?s = "mm_init (m, pm)"
  have st: "mm_setup m (rd_ards m k) = ?s" using mm_init_eq [OF assms(1)] by simp
  note s' = mm_setup_state [OF st assms(2)]
  obtain m' pm' where s: "?s = (m', pm')" by fastforce
  note f = mm_setup_fields [OF st [unfolded s]]
  have inv: "pm_invar (m', pm')" using s' s by simp
  have "inj_on (page_addr pm') {i. i < bm_nbits (pm_map pm')}"
    using page_addr_inj [OF inv] by (auto simp: inj_on_def)
  then have "card (pm_pages ?s) = 8 * (?L div 4096)"
    using f by (simp add: pm_pages_def s card_image)
  moreover have "\<exists>p \<in> pm_pages ?s. unat p \<ge> 0x100000 + ?L"
  proof (rule bexI)
    let ?i = "8 * (?L div 4096) - 1"
    have n: "1 \<le> ?L div 4096" using assms(3) by (simp add: less_eq_div_iff_mult_less_eq)
    then have i: "?i < bm_nbits (pm_map pm')" using f by simp
    then show "page_addr pm' ?i \<in> pm_pages ?s" by (auto simp: pm_pages_def s)
    have "unat (page_addr pm' ?i) = 0x300000 + 4096 * ?i"
      using unat_page_addr [OF inv i] f by (simp add: MEN_MANAGER_START_def)
    moreover have "?L < 4096 * (?L div 4096) + 4096"
      using div_mult_mod_eq [of ?L 4096] mod_less_divisor [of 4096 ?L] by linarith
    ultimately show "unat (page_addr pm' ?i) \<ge> 0x100000 + ?L" using n by simp
  qed
  ultimately show ?thesis using s' by blast
qed

text \<open>A memory map with one entry: 64 KiB at 0x100000.\<close>

definition demo_ards_mem :: mem where
  "demo_ards_mem = (\<lambda>_. 0)(0x1100 := 1, 0x1104 := 0x10, 0x110C := 0x01)"

lemma demo_ards:
  "kernel_entry demo_ards_mem 0" "unat (lengthAddrLow (rd_ards demo_ards_mem 0)) = 0x10000"
  by (simp_all add: kernel_entry_def demo_ards_mem_def rd_ards_def Let_def rd16_def rd32_def
      load_def upt_rec MEN_ARDS_NUM_ADDR_def MEN_ARDS_ADDR_def MEN_KERNEL_START_def)

theorem mm_init_manages_too_much_witness:
  "pm_used (mm_init (demo_ards_mem, demo_pm)) = {} \<and>
   (\<exists>p \<in> pm_pages (mm_init (demo_ards_mem, demo_pm)). unat p \<ge> 0x110000)"
  using mm_init_manages_too_much [OF demo_ards(1), of demo_pm] by (simp add: demo_ards(2))

end
