(* ===== verification/Memory32.thy ===== *)
theory Memory32
  imports CString PageAlloc
begin

text \<open>
  The physical page allocator of the 32-bit kernel (x86_kernel/kernel/memory.c):
  one byte per page, the pages counted in phy_pages_used. The state is the
  32-bit memory and the static g_mm_manager; the prints of mm_init are left
  out. free_page asserts that its argument is not null; a failed assertion
  raises interrupt 0x81, which is the result \<open>None\<close>.
\<close>

section \<open>Definitions\<close>

record x86_ards_t =
  x86_baseAddrLow :: u32
  x86_baseAddrHigh :: u32
  x86_lengthAddrLow :: u32
  x86_lengthAddrHigh :: u32
  x86_ards_type :: u32

record mm32_manager =
  phy_base :: u32
  phy_pages :: u32
  phy_pages_used :: u32
  phy_map_size :: u32
  phy_map :: u32

type_synonym mm32_state = "mem32 \<times> mm32_manager"

definition MEM_MANAGER_ADDR :: u32 where "MEM_MANAGER_ADDR = 0x100000"

definition MEM_MANAGER_MAP_ADD :: u32 where "MEM_MANAGER_MAP_ADD = 0"

definition MEM_VALID :: u32 where "MEM_VALID = 1"

fun x86_find_page :: "mem32 \<Rightarrow> mm32_manager \<Rightarrow> u32 \<Rightarrow> nat \<Rightarrow> u32 option" where
  "x86_find_page m mm i 0 = None"
| "x86_find_page m mm i (Suc left) =
     (if m (phy_map mm + i) = 0 then Some i else x86_find_page m mm (i + 1) left)"

definition x86_get_free_page :: "mm32_state \<Rightarrow> mm32_state \<times> u32" where
  "x86_get_free_page s =
     (let (m, mm) = s
      in case x86_find_page m mm 0 (unat (phy_map_size mm)) of
           None \<Rightarrow> (s, 0)
         | Some i \<Rightarrow>
             ((m(phy_map mm + i := 1), mm\<lparr>phy_pages_used := phy_pages_used mm + 1\<rparr>),
              phy_base mm + i * 4096))"

definition x86_free_page :: "mm32_state \<Rightarrow> u32 \<Rightarrow> mm32_state option" where
  "x86_free_page s ptr =
     (let (m, mm) = s
      in if ptr = 0 then None
         else (let idx = drop_bit 12 (ptr - phy_base mm)
               in Some (m(phy_map mm + idx := 0), mm\<lparr>phy_pages_used := phy_pages_used mm - 1\<rparr>)))"

definition mm_manager_init :: "mm32_state \<Rightarrow> mm32_state" where
  "mm_manager_init s =
     (let (m, mm) = s; mm' = mm\<lparr>phy_map := 0x9000\<rparr>
      in (memset m (phy_map mm') 0 (phy_map_size mm'), mm'))"

definition rd_ards32 :: "mem32 \<Rightarrow> nat \<Rightarrow> x86_ards_t" where
  "rd_ards32 m i =
     (let a = 0x1102 + 20 * of_nat i
      in \<lparr>x86_baseAddrLow = rd32 m a, x86_baseAddrHigh = rd32 m (a + 4),
          x86_lengthAddrLow = rd32 m (a + 8), x86_lengthAddrHigh = rd32 m (a + 12),
          x86_ards_type = rd32 m (a + 16)\<rparr>)"

definition x86_mm_init_entry :: "mem32 \<Rightarrow> mm32_manager \<Rightarrow> nat \<Rightarrow> mm32_manager" where
  "x86_mm_init_entry m mm i =
     (let ards = rd_ards32 m i;
          mm1 = (if x86_baseAddrLow ards = MEM_MANAGER_ADDR \<and> x86_ards_type ards = MEM_VALID
                 then mm\<lparr>phy_base := MEM_MANAGER_ADDR, phy_pages := x86_lengthAddrLow ards div 4096,
                         phy_pages_used := 0, phy_map_size := x86_lengthAddrLow ards div 4096\<rparr>
                 else mm)
      in if x86_baseAddrLow ards = MEM_MANAGER_MAP_ADD \<and> x86_ards_type ards = MEM_VALID
         then mm1\<lparr>phy_map := MEM_MANAGER_MAP_ADD\<rparr> else mm1)"

fun x86_mm_init_loop :: "mem32 \<Rightarrow> mm32_manager \<Rightarrow> nat \<Rightarrow> nat \<Rightarrow> mm32_manager" where
  "x86_mm_init_loop m mm i 0 = mm"
| "x86_mm_init_loop m mm i (Suc left) = x86_mm_init_loop m (x86_mm_init_entry m mm i) (Suc i) left"

definition x86_mm_init :: "mm32_state \<Rightarrow> mm32_state \<times> int" where
  "x86_mm_init s =
     (let (m, mm) = s;
          mm' = x86_mm_init_loop m mm 0 (unat (rd16 m 0x1100))
      in if phy_base mm' \<noteq> MEM_MANAGER_ADDR \<or> phy_map mm' \<noteq> MEM_MANAGER_MAP_ADD
         then ((m, mm'), - 1) else (mm_manager_init (m, mm'), 0))"

text \<open>Abstraction.\<close>

definition page32 :: "mm32_manager \<Rightarrow> nat \<Rightarrow> u32" where
  "page32 mm i = phy_base mm + of_nat i * 4096"

definition mm32_pages :: "mm32_state \<Rightarrow> u32 set" where
  "mm32_pages s = page32 (snd s) ` {i. i < unat (phy_map_size (snd s))}"

definition mm32_taken :: "mm32_state \<Rightarrow> nat set" where
  "mm32_taken s = {i. i < unat (phy_map_size (snd s)) \<and> fst s (phy_map (snd s) + of_nat i) \<noteq> 0}"

definition mm32_used :: "mm32_state \<Rightarrow> u32 set" where
  "mm32_used s = page32 (snd s) ` mm32_taken s"

definition mm32_invar :: "mm32_state \<Rightarrow> bool" where
  "mm32_invar s \<longleftrightarrow>
     0 < phy_base (snd s) \<and> unat (phy_map_size (snd s)) \<le> 2 ^ 20 \<and>
     unat (phy_base (snd s)) + 4096 * unat (phy_map_size (snd s)) \<le> 2 ^ 32 \<and>
     phy_pages_used (snd s) = of_nat (card (mm32_taken s))"

section \<open>Page addresses and the map\<close>

lemma unat_page32:
  assumes "mm32_invar (m, mm)" and "i < unat (phy_map_size mm)"
  shows "unat (page32 mm i) = unat (phy_base mm) + 4096 * i"
proof -
  have lt: "unat (phy_base mm) + 4096 * i < 2 ^ 32" using assms by (auto simp: mm32_invar_def)
  then have "unat (of_nat (4096 * i) :: u32) = 4096 * i" by (intro unat_of_nat_less) simp
  moreover have "page32 mm i = phy_base mm + of_nat (4096 * i)" by (simp add: page32_def mult.commute)
  ultimately show ?thesis
    using lt by (simp only:) (subst unat_plus_simple [THEN iffD1], auto simp: no_olen_add_nat)
qed

lemma page32_inj:
  assumes "mm32_invar (m, mm)" and "i < unat (phy_map_size mm)" and "j < unat (phy_map_size mm)"
  shows "page32 mm i = page32 mm j \<longleftrightarrow> i = j"
proof
  assume "page32 mm i = page32 mm j"
  then have "unat (phy_base mm) + 4096 * i = unat (phy_base mm) + 4096 * j"
    using unat_page32 [OF assms(1,2)] unat_page32 [OF assms(1,3)] by metis
  then show "i = j" by simp
qed simp

lemma page32_neq_0:
  "mm32_invar (m, mm) \<Longrightarrow> i < unat (phy_map_size mm) \<Longrightarrow> page32 mm i \<noteq> 0"
  using unat_page32 [of m mm i] by (auto simp: mm32_invar_def word_less_nat_alt)

lemma page32_index:
  assumes "i < 2 ^ 20"
  shows "drop_bit 12 (page32 mm i - phy_base mm) = of_nat i"
proof -
  have "unat (of_nat (4096 * i) :: u32) = 4096 * i" using assms by (intro unat_of_nat_less) simp
  then have "unat (drop_bit 12 (of_nat (4096 * i) :: u32)) = i"
    unfolding unat_drop_bit_eq by (simp only: drop_bit_eq_div) simp
  moreover have "unat (of_nat i :: u32) = i" using assms by (intro unat_of_nat_less) simp
  moreover have "page32 mm i - phy_base mm = of_nat (4096 * i)" by (simp add: page32_def mult.commute)
  ultimately show ?thesis by (metis word_unat_eq_iff)
qed

lemma x86_find_page_spec:
  assumes "i + n \<le> 2 ^ 32"
  shows "(x86_find_page m mm (of_nat i) n = None \<longrightarrow> (\<forall>j < n. m (phy_map mm + of_nat (i + j)) \<noteq> 0)) \<and>
    (\<forall>r. x86_find_page m mm (of_nat i) n = Some r \<longrightarrow>
       (\<exists>j < n. r = of_nat (i + j) \<and> m (phy_map mm + of_nat (i + j)) = 0 \<and>
          (\<forall>k < j. m (phy_map mm + of_nat (i + k)) \<noteq> 0)))"
  using assms
proof (induction n arbitrary: i)
  case 0
  then show ?case by simp
next
  case (Suc n)
  show ?case
  proof (cases "m (phy_map mm + of_nat i) = 0")
    case True
    then show ?thesis by (auto intro!: exI [of _ 0])
  next
    case False
    have step: "x86_find_page m mm (of_nat i) (Suc n) = x86_find_page m mm (of_nat (Suc i)) n"
      using False by (simp add: add.commute [of 1])
    have IH: "(x86_find_page m mm (of_nat (Suc i)) n = None \<longrightarrow> (\<forall>j < n. m (phy_map mm + of_nat (Suc i + j)) \<noteq> 0)) \<and>
      (\<forall>r. x86_find_page m mm (of_nat (Suc i)) n = Some r \<longrightarrow>
       (\<exists>j < n. r = of_nat (Suc i + j) \<and> m (phy_map mm + of_nat (Suc i + j)) = 0 \<and>
          (\<forall>k < j. m (phy_map mm + of_nat (Suc i + k)) \<noteq> 0)))"
      using Suc.prems by (intro Suc.IH) simp
    have all: "\<forall>k < Suc j. m (phy_map mm + of_nat (i + k)) \<noteq> 0"
      if "\<forall>k < j. m (phy_map mm + of_nat (Suc i + k)) \<noteq> 0" for j
    proof (intro allI impI)
      fix k
      assume "k < Suc j"
      then show "m (phy_map mm + of_nat (i + k)) \<noteq> 0"
        using that False by (cases k) auto
    qed
    show ?thesis
    proof (intro conjI impI allI)
      assume "x86_find_page m mm (of_nat i) (Suc n) = None"
      then show "m (phy_map mm + of_nat (i + j)) \<noteq> 0" if "j < Suc n" for j
        using that IH step all [of n] by simp
    next
      fix r
      assume "x86_find_page m mm (of_nat i) (Suc n) = Some r"
      then obtain j where "j < n" "r = of_nat (Suc i + j)" "m (phy_map mm + of_nat (Suc i + j)) = 0"
          "\<forall>k < j. m (phy_map mm + of_nat (Suc i + k)) \<noteq> 0"
        using IH step by metis
      then show "\<exists>j < Suc n. r = of_nat (i + j) \<and> m (phy_map mm + of_nat (i + j)) = 0 \<and>
          (\<forall>k < j. m (phy_map mm + of_nat (i + k)) \<noteq> 0)"
        using all [of j] by (intro exI [of _ "Suc j"]) simp
    qed
  qed
qed

lemma x86_get_free_page_cases:
  assumes "mm32_invar (m, mm)"
  obtains (page) i where "x86_get_free_page (m, mm) =
        ((m(phy_map mm + of_nat i := 1), mm\<lparr>phy_pages_used := phy_pages_used mm + 1\<rparr>), page32 mm i)"
      "i < unat (phy_map_size mm)" "i \<notin> mm32_taken (m, mm)" "\<forall>j < i. j \<in> mm32_taken (m, mm)"
  | (none) "x86_get_free_page (m, mm) = ((m, mm), 0)"
      "mm32_taken (m, mm) = {i. i < unat (phy_map_size mm)}"
proof -
  let ?n = "unat (phy_map_size mm)"
  have "0 + ?n \<le> 2 ^ 32" using assms by (simp add: mm32_invar_def)
  note spec = x86_find_page_spec [OF this, of m mm, simplified]
  show thesis
  proof (cases "x86_find_page m mm 0 ?n")
    case None
    then show thesis using spec by (intro none) (auto simp: x86_get_free_page_def mm32_taken_def)
  next
    case (Some r)
    then obtain i where i: "i < ?n" "r = of_nat i" "m (phy_map mm + of_nat i) = 0"
        "\<forall>j < i. m (phy_map mm + of_nat j) \<noteq> 0"
      using spec by auto
    then show thesis
      using Some by (intro page [of i]) (auto simp: x86_get_free_page_def mm32_taken_def page32_def)
  qed
qed

lemma mm32_taken_update:
  assumes "mm32_invar (m, mm)" and "i < unat (phy_map_size mm)"
  shows "mm32_taken (m(phy_map mm + of_nat i := b), mm\<lparr>phy_pages_used := u\<rparr>) =
    (if b = 0 then mm32_taken (m, mm) - {i} else insert i (mm32_taken (m, mm)))"
proof -
  have n: "unat (phy_map_size mm) \<le> 2 ^ 20" using assms by (simp add: mm32_invar_def)
  have "(of_nat j :: u32) = of_nat i \<longleftrightarrow> j = i" if "j < unat (phy_map_size mm)" for j
    using of_nat_u32_eq [of j i] that assms(2) n by simp
  then show ?thesis using assms(2) by (auto simp: mm32_taken_def)
qed

lemma page32_update [simp]: "page32 (mm\<lparr>phy_pages_used := u\<rparr>) = page32 mm"
  by (auto simp: page32_def)

lemma finite_taken [simp]: "finite (mm32_taken s)"
  by (simp add: mm32_taken_def)

lemma x86_get_free_page_used:
  assumes inv: "mm32_invar s" and get: "x86_get_free_page s = (s', p)" and p: "p \<noteq> 0"
  shows "p \<in> mm32_pages s - mm32_used s \<and> mm32_used s' = insert p (mm32_used s) \<and>
    mm32_pages s' = mm32_pages s \<and> mm32_invar s'"
proof -
  obtain m mm where s: "s = (m, mm)" by (cases s)
  note inv' = inv [unfolded s]
  from inv' show ?thesis
  proof (cases rule: x86_get_free_page_cases)
    case (page i)
    then have s': "s' = (m(phy_map mm + of_nat i := 1), mm\<lparr>phy_pages_used := phy_pages_used mm + 1\<rparr>)"
      and p: "p = page32 mm i" using get s by auto
    have taken: "mm32_taken s' = insert i (mm32_taken s)"
      using mm32_taken_update [OF inv' page(2), of 1] s s' by simp
    then have used: "mm32_used s' = insert p (mm32_used s)"
      using s s' p by (simp add: mm32_used_def)
    have "p \<notin> mm32_used s"
      using page(2,3) p s page32_inj [OF inv'] by (auto simp: mm32_used_def mm32_taken_def)
    moreover have "mm32_invar s'"
      using inv' taken page(3) s s' by (simp add: mm32_invar_def card_insert_if add.commute)
    ultimately show ?thesis
      using page(2) s s' p used by (auto simp: mm32_pages_def)
  qed (use get s p in simp)
qed

lemma x86_free_page_used:
  assumes inv: "mm32_invar s" and p: "p \<in> mm32_used s"
  shows "\<exists>s'. x86_free_page s p = Some s' \<and> mm32_used s' = mm32_used s - {p} \<and>
    mm32_pages s' = mm32_pages s \<and> mm32_invar s'"
proof -
  obtain m mm where s: "s = (m, mm)" by (cases s)
  note inv' = inv [unfolded s]
  obtain i where i: "i \<in> mm32_taken (m, mm)" "p = page32 mm i" "i < unat (phy_map_size mm)"
    using p by (auto simp: mm32_used_def mm32_taken_def s)
  let ?s = "(m(phy_map mm + of_nat i := 0), mm\<lparr>phy_pages_used := phy_pages_used mm - 1\<rparr>)"
  have "i < 2 ^ 20" using i(3) inv' by (auto simp: mm32_invar_def)
  then have free: "x86_free_page s p = Some ?s"
    using page32_neq_0 [OF inv' i(3)] i(2) s by (simp add: x86_free_page_def page32_index)
  have taken: "mm32_taken ?s = mm32_taken s - {i}"
    using mm32_taken_update [OF inv' i(3), of 0] s by simp
  have "mm32_used ?s = mm32_used s - {p}"
    using taken i page32_inj [OF inv' _ i(3)] by (auto simp: mm32_used_def s mm32_taken_def)
  moreover have "Suc (card (mm32_taken s - {i})) = card (mm32_taken s)"
    using i(1) s by (intro card_Suc_Diff1) auto
  then have "of_nat (card (mm32_taken s)) - 1 = (of_nat (card (mm32_taken s - {i})) :: u32)"
    by (metis add_diff_cancel_left' of_nat_Suc)
  then have "mm32_invar ?s" using inv' taken s by (simp add: mm32_invar_def)
  ultimately show ?thesis using free s by (auto simp: mm32_pages_def)
qed

lemma x86_get_free_page_none:
  assumes inv: "mm32_invar s" and get: "x86_get_free_page s = (s', 0)"
  shows "s' = s \<and> mm32_pages s \<subseteq> mm32_used s"
proof -
  obtain m mm where s: "s = (m, mm)" by (cases s)
  note inv' = inv [unfolded s]
  from inv' show ?thesis
  proof (cases rule: x86_get_free_page_cases)
    case (page i)
    then show ?thesis using get s page32_neq_0 [OF inv'] by auto
  next
    case none
    then show ?thesis using get s by (auto simp: mm32_pages_def mm32_used_def)
  qed
qed

interpretation mm32: page_allocator x86_get_free_page
  "\<lambda>s p. case x86_free_page s p of None \<Rightarrow> s | Some s' \<Rightarrow> s'" mm32_pages mm32_used mm32_invar
proof
  fix s :: mm32_state and p :: u32
  assume inv: "mm32_invar s"
  show "finite (mm32_pages s)" by (simp add: mm32_pages_def)
  show "mm32_used s \<subseteq> mm32_pages s" by (auto simp: mm32_used_def mm32_pages_def mm32_taken_def)
  show "0 \<notin> mm32_pages s"
    using inv page32_neq_0 by (cases s) (force simp: mm32_pages_def)
  assume "p \<in> mm32_used s"
  then show "mm32_used (case x86_free_page s p of None \<Rightarrow> s | Some s' \<Rightarrow> s') = mm32_used s - {p} \<and>
      mm32_pages (case x86_free_page s p of None \<Rightarrow> s | Some s' \<Rightarrow> s') = mm32_pages s \<and>
      mm32_invar (case x86_free_page s p of None \<Rightarrow> s | Some s' \<Rightarrow> s')"
    using x86_free_page_used [OF inv] by fastforce
qed (use x86_get_free_page_used x86_get_free_page_none in blast)+

section \<open>Runs of the allocator\<close>

text \<open>The steps of the kernel that use the allocator: an allocation, and a free of an
  allocated page.\<close>

inductive mm32_step :: "mm32_state \<Rightarrow> mm32_state \<Rightarrow> bool" where
  get: "x86_get_free_page s = (s', p) \<Longrightarrow> mm32_step s s'"
| put: "p \<in> mm32_used s \<Longrightarrow> x86_free_page s p = Some s' \<Longrightarrow> mm32_step s s'"

lemma mm32_step_invar:
  assumes "mm32_step s s'" and "mm32_invar s"
  shows "mm32_invar s' \<and> mm32_pages s' = mm32_pages s"
  using assms(1)
proof cases
  case (get p)
  then show ?thesis
    using x86_get_free_page_used [OF assms(2) get] x86_get_free_page_none [OF assms(2)] assms(2)
    by (cases "p = 0") auto
next
  case (put p)
  then show ?thesis using x86_free_page_used [OF assms(2) put(1)] by auto
qed

lemma mm32_run_invar:
  assumes "mm32_step\<^sup>*\<^sup>* s s'" and "mm32_invar s"
  shows "mm32_invar s' \<and> mm32_pages s' = mm32_pages s"
  using assms by (induction rule: rtranclp_induct) (use mm32_step_invar in metis)+

lemma card_mm32_used: "mm32_invar s \<Longrightarrow> card (mm32_used s) = card (mm32_taken s)"
  unfolding mm32_used_def
  by (rule card_image) (cases s, auto simp: inj_on_def mm32_taken_def page32_inj)

lemma card_mm32_pages: "mm32_invar s \<Longrightarrow> card (mm32_pages s) = unat (phy_map_size (snd s))"
  unfolding mm32_pages_def
  by (subst card_image) (cases s, auto simp: inj_on_def page32_inj)

lemma mm32_counter:
  assumes "mm32_invar s"
  shows "unat (phy_pages_used (snd s)) = card (mm32_used s)"
proof -
  have "card (mm32_taken s) \<le> unat (phy_map_size (snd s))"
    using card_mono [of "{i. i < unat (phy_map_size (snd s))}" "mm32_taken s"]
    by (auto simp: mm32_taken_def)
  then have "card (mm32_taken s) < 2 ^ 32" using assms by (auto simp: mm32_invar_def)
  then show ?thesis
    using assms card_mm32_used [OF assms] by (simp add: mm32_invar_def unat_of_nat_less)
qed

section \<open>Initialisation\<close>

text \<open>Entry \<open>k\<close> is the only usable region of the memory map that starts at 1 MiB.\<close>

definition region_entry :: "mem32 \<Rightarrow> nat \<Rightarrow> bool" where
  "region_entry m k \<longleftrightarrow> k < unat (rd16 m 0x1100) \<and>
     (\<forall>i < unat (rd16 m 0x1100).
        x86_baseAddrLow (rd_ards32 m i) = MEM_MANAGER_ADDR \<and> x86_ards_type (rd_ards32 m i) = MEM_VALID
        \<longleftrightarrow> i = k)"

lemma x86_mm_init_entry_phy_map:
  "phy_map mm = 0 \<Longrightarrow> phy_map (x86_mm_init_entry m mm i) = 0"
  by (simp add: x86_mm_init_entry_def Let_def MEM_MANAGER_MAP_ADD_def)

lemma x86_mm_init_loop_found:
  assumes "i \<le> k" "k < i + n" and "phy_map mm = 0"
    and "\<forall>j. i \<le> j \<and> j < i + n \<longrightarrow>
        (x86_baseAddrLow (rd_ards32 m j) = MEM_MANAGER_ADDR \<and>
         x86_ards_type (rd_ards32 m j) = MEM_VALID \<longleftrightarrow> j = k)"
  shows "x86_mm_init_loop m mm i n =
    \<lparr>phy_base = MEM_MANAGER_ADDR, phy_pages = x86_lengthAddrLow (rd_ards32 m k) div 4096,
     phy_pages_used = 0, phy_map_size = x86_lengthAddrLow (rd_ards32 m k) div 4096, phy_map = 0\<rparr>"
proof -
  let ?fin = "\<lparr>phy_base = MEM_MANAGER_ADDR, phy_pages = x86_lengthAddrLow (rd_ards32 m k) div 4096,
     phy_pages_used = 0, phy_map_size = x86_lengthAddrLow (rd_ards32 m k) div 4096, phy_map = 0\<rparr>"
  have other: "x86_mm_init_entry m mm j = mm" if "j \<noteq> k" "i \<le> j" "j < i + n" "phy_map mm = 0" for j mm
    using that assms(4) by (auto simp: x86_mm_init_entry_def Let_def MEM_MANAGER_MAP_ADD_def)
  have after: "x86_mm_init_loop m mm j l = mm" if "k < j" "j + l \<le> i + n" "i \<le> j" "phy_map mm = 0" for j l mm
    using that by (induction l arbitrary: j) (auto simp: other)
  have "x86_mm_init_loop m mm j l = ?fin"
    if "i \<le> j" "j \<le> k" "k < j + l" "j + l \<le> i + n" "phy_map mm = 0" for j l mm
    using that
  proof (induction l arbitrary: j mm)
    case (Suc l)
    show ?case
    proof (cases "j = k")
      case True
      then have "x86_baseAddrLow (rd_ards32 m j) = MEM_MANAGER_ADDR" "x86_ards_type (rd_ards32 m j) = MEM_VALID"
        using assms(1,2,4) by auto
      then have "x86_mm_init_entry m mm j = ?fin"
        using True Suc.prems
        by (simp add: x86_mm_init_entry_def Let_def MEM_MANAGER_MAP_ADD_def MEM_MANAGER_ADDR_def)
      then show ?thesis using Suc.prems True by (simp add: after)
    qed (use Suc other in simp)
  qed simp
  from this [of i n] show ?thesis using assms by simp
qed

section \<open>Properties\<close>

text \<open>C20. In every state the 32-bit kernel reaches by allocating pages and freeing
  allocated ones, phy_pages_used is the number of pages in use, the set of
  managed pages is the initial one, and get_free_page fails exactly when the
  counter has reached the number of managed pages.\<close>

theorem x86_pages_used_exact:
  assumes "mm32_invar s0" and "mm32_step\<^sup>*\<^sup>* s0 s"
  shows "unat (phy_pages_used (snd s)) = card (mm32_used s) \<and>
    mm32_used s \<subseteq> mm32_pages s0 \<and>
    (snd (x86_get_free_page s) = 0 \<longleftrightarrow> phy_pages_used (snd s) = phy_map_size (snd s))"
proof -
  have inv: "mm32_invar s" and pages: "mm32_pages s = mm32_pages s0"
    using mm32_run_invar [OF assms(2,1)] by auto
  note sub = mm32.used_pages [OF inv] and fin = mm32.finite_pages [OF inv]
  have "snd (x86_get_free_page s) = 0 \<longleftrightarrow> mm32_used s = mm32_pages s"
    using x86_get_free_page_none [OF inv] x86_get_free_page_used [OF inv] sub
    by (metis DiffD1 DiffD2 prod.collapse subset_antisym)
  also have "\<dots> \<longleftrightarrow> card (mm32_used s) = card (mm32_pages s)"
    using card_subset_eq [OF fin sub] by auto
  finally show ?thesis
    using mm32_counter [OF inv] card_mm32_pages [OF inv] sub pages by (simp add: word_unat_eq_iff)
qed

definition demo_mm32 :: mm32_manager where
  "demo_mm32 = \<lparr>phy_base = 0x100000, phy_pages = 4, phy_pages_used = 0, phy_map_size = 4, phy_map = 0x9000\<rparr>"

lemma demo_mm32_invar: "mm32_invar (\<lambda>_. 0, demo_mm32)"
  by (simp add: mm32_invar_def demo_mm32_def mm32_taken_def)

theorem x86_pages_used_exact_witness:
  "let s = fst (x86_get_free_page (\<lambda>_. 0, demo_mm32))
   in unat (phy_pages_used (snd s)) = card (mm32_used s)"
proof -
  have "mm32_step\<^sup>*\<^sup>* (\<lambda>_. 0, demo_mm32) (fst (x86_get_free_page (\<lambda>_. 0, demo_mm32)))"
    by (intro r_into_rtranclp mm32_step.get) (rule prod.collapse [symmetric])
  from x86_pages_used_exact [OF demo_mm32_invar this] show ?thesis by simp
qed

text \<open>mm_init of the 32-bit kernel succeeds when the memory map has one usable region
  at 1 MiB; then the pages managed are exactly the whole pages of that region,
  all of them free.\<close>

lemma x86_mm_init_correct:
  assumes "region_entry m k" and "phy_map mm = 0"
    and "unat (x86_lengthAddrLow (rd_ards32 m k)) + 0x100000 \<le> 2 ^ 32"
  shows "snd (x86_mm_init (m, mm)) = 0 \<and> mm32_invar (fst (x86_mm_init (m, mm))) \<and>
    mm32_used (fst (x86_mm_init (m, mm))) = {} \<and>
    mm32_pages (fst (x86_mm_init (m, mm))) =
      {0x100000 + 4096 * of_nat i | i. 4096 * Suc i \<le> unat (x86_lengthAddrLow (rd_ards32 m k))}"
proof -
  let ?L = "x86_lengthAddrLow (rd_ards32 m k)"
  let ?mm = "\<lparr>phy_base = MEM_MANAGER_ADDR, phy_pages = ?L div 4096, phy_pages_used = 0,
     phy_map_size = ?L div 4096, phy_map = 0x9000\<rparr>"
  let ?m = "memset m 0x9000 0 (?L div 4096)"
  have "x86_mm_init_loop m mm 0 (unat (rd16 m 0x1100)) = ?mm\<lparr>phy_map := 0\<rparr>"
    using x86_mm_init_loop_found [of 0 k "unat (rd16 m 0x1100)" mm m] assms
    by (simp add: region_entry_def)
  then have res: "x86_mm_init (m, mm) = ((?m, ?mm), 0)"
    by (simp add: x86_mm_init_def mm_manager_init_def Let_def MEM_MANAGER_MAP_ADD_def)
  have n: "unat (?L div 4096) = unat ?L div 4096" by (simp add: unat_div)
  then have size: "unat (?L div 4096) * 4096 + 0x100000 \<le> 2 ^ 32" using assms(3) by simp
  have "?m (0x9000 + of_nat i) = 0" if "i < unat (?L div 4096)" for i
  proof -
    have "unat (of_nat i :: u32) = i" using that size by (intro unat_of_nat_less) simp
    then show ?thesis using that by (simp add: memset_eq_store store_def)
  qed
  then have taken: "mm32_taken (?m, ?mm) = {}" by (auto simp: mm32_taken_def)
  then have "mm32_invar (?m, ?mm)"
    using size by (simp add: mm32_invar_def MEM_MANAGER_ADDR_def)
  moreover have "mm32_pages (?m, ?mm) = {0x100000 + 4096 * of_nat i | i. 4096 * Suc i \<le> unat ?L}"
    by (auto simp: mm32_pages_def page32_def MEM_MANAGER_ADDR_def n less_eq_div_iff_mult_less_eq
        Suc_le_eq [symmetric] mult.commute)
  ultimately show ?thesis using taken res by (simp add: mm32_used_def)
qed

end
