(* ===== verification/Links.thy ===== *)
theory Links
  imports Prelude
begin

text \<open>
  Null-terminated linked lists. A structure is given by the function that
  reads the link of a node, so one predicate serves the bucket chains, the
  free lists of blocks and the lists of both kernels. The contract of a search
  loop over such a list is a locale: the two searches of kmalloc and the
  search of kfree_s, in both kernels, are instances of it.
\<close>

primrec path :: "('a::len word \<Rightarrow> 'a word) \<Rightarrow> 'a word \<Rightarrow> 'a word list \<Rightarrow> bool" where
  "path nxt p [] \<longleftrightarrow> p = 0"
| "path nxt p (x # xs) \<longleftrightarrow> p = x \<and> x \<noteq> 0 \<and> path nxt (nxt x) xs"

lemma path_null [simp]: "path nxt 0 xs \<longleftrightarrow> xs = []"
  by (cases xs) auto

lemma path_nonnull: "p \<noteq> 0 \<Longrightarrow> path nxt p xs \<longleftrightarrow> (\<exists>ys. xs = p # ys \<and> path nxt (nxt p) ys)"
  by (cases xs) auto

lemma path_cong:
  "path nxt p xs \<Longrightarrow> (\<And>x. x \<in> set xs \<Longrightarrow> nxt' x = nxt x) \<Longrightarrow> path nxt' p xs"
  by (induction xs arbitrary: p) auto

lemma path_null_notin: "path nxt p xs \<Longrightarrow> 0 \<notin> set xs"
  by (induction xs arbitrary: p) auto

lemma path_unique: "path nxt p xs \<Longrightarrow> path nxt p ys \<Longrightarrow> xs = ys"
  by (induction xs arbitrary: p ys) (auto simp: path_nonnull)

text \<open>A node \<open>x\<close> in the middle of a list: the list splits at it.\<close>

lemma path_split:
  "path nxt p (xs @ x # ys) \<Longrightarrow> path nxt (nxt x) ys"
  by (induction xs arbitrary: p) auto

lemma path_distinct: "path nxt p xs \<Longrightarrow> distinct xs"
proof (induction xs arbitrary: p)
  case (Cons x xs)
  show ?case
  proof (cases "x \<in> set xs")
    case True
    then obtain us vs where "xs = us @ x # vs" by (auto simp: in_set_conv_decomp)
    then have "path nxt (nxt x) vs" and "path nxt (nxt x) xs" using Cons.prems path_split by auto
    then have "vs = xs" by (metis path_unique)
    then show ?thesis using \<open>xs = us @ x # vs\<close> by (metis append_Cons append_is_Nil_conv
          length_append length_Cons add_cancel_right_left n_not_Suc_n not_add_less2 lessI)
  qed (use Cons in auto)
qed simp

section \<open>Searching a list\<close>

text \<open>The first node of a list that satisfies \<open>P\<close>, or 0.\<close>

primrec first_node :: "('a::len word \<Rightarrow> bool) \<Rightarrow> 'a word list \<Rightarrow> 'a word" where
  "first_node P [] = 0"
| "first_node P (x # xs) = (if P x then x else first_node P xs)"

lemma first_node_0: "0 \<notin> set xs \<Longrightarrow> first_node P xs = 0 \<longleftrightarrow> (\<forall>x \<in> set xs. \<not> P x)"
  by (induction xs) auto

lemma first_node_in: "first_node P xs \<noteq> 0 \<Longrightarrow> first_node P xs \<in> set xs \<and> P (first_node P xs)"
  by (induction xs) auto

text \<open>
  A loop \<open>search\<close> that walks a list from a node until the test succeeds or the
  list ends. Its only law is the unfolding of the C loop.
\<close>

locale list_search =
  fixes nxt :: "'a::len word \<Rightarrow> 'a word"
    and test :: "'a word \<Rightarrow> bool"
    and search :: "'a word \<Rightarrow> 'a word option"
  assumes search_unfold: "search p = (if p = 0 then Some 0 else if test p then Some p else search (nxt p))"
begin

lemma search_path: "path nxt p xs \<Longrightarrow> search p = Some (first_node test xs)"
  by (induction xs arbitrary: p) (subst search_unfold, auto)+

end

end
