(* ===== verification/Malloc.thy ===== *)
theory Malloc
  imports CString Phymm Links
begin

text \<open>
  The bucket allocator of the 64-bit kernel (x64_kenerl/mm/malloc.c and kzalloc
  of include/linux/mm.h). A bucket is a page cut into blocks of one size; the
  free blocks of a bucket are linked through their first word. The bucket
  descriptors are 32 bytes of ordinary memory: page at offset 0, next at 8,
  freeBlock at 16, refCnt at 24 and blockSize at 28. The state is the memory,
  the page allocator's state, the static directory, the chain of unused
  descriptors and the lock. The prints on the error paths are left out.

  An operation is \<open>None\<close> when the C function does not return: its lock is held,
  or a chain it walks is cyclic.
\<close>

section \<open>Definitions\<close>

record kheap =
  kmem :: mem
  kpm :: mm_pages_manager_t
  bucket_dir :: "(u32 \<times> u64) list"
  free_bucket_chain :: u64
  heap_lock :: u32

text \<open>
  asm/spinlock.asm: xchg of 1 with the lock until the old value is 0. With the
  lock held and no other processor stepping, the loop does not end.
\<close>

definition spin_lock :: "u32 \<Rightarrow> u32 option" where
  "spin_lock handle = (if handle = 0 then Some 1 else None)"

definition spin_unlock :: "u32 \<Rightarrow> u32" where
  "spin_unlock handle = 0"

definition g_bucket_dir :: "(u32 \<times> u64) list" where
  "g_bucket_dir = [(16, 0), (32, 0), (64, 0), (128, 0), (256, 0), (512, 0), (1024, 0), (2048, 0),
     (4096, 0), (0, 0)]"

abbreviation desc_page :: "mem \<Rightarrow> u64 \<Rightarrow> u64" where "desc_page m b \<equiv> rd64 m b"
abbreviation desc_next :: "mem \<Rightarrow> u64 \<Rightarrow> u64" where "desc_next m b \<equiv> rd64 m (b + 8)"
abbreviation desc_freeBlock :: "mem \<Rightarrow> u64 \<Rightarrow> u64" where "desc_freeBlock m b \<equiv> rd64 m (b + 16)"
abbreviation desc_refCnt :: "mem \<Rightarrow> u64 \<Rightarrow> u32" where "desc_refCnt m b \<equiv> rd32 m (b + 24)"
abbreviation desc_blockSize :: "mem \<Rightarrow> u64 \<Rightarrow> u32" where "desc_blockSize m b \<equiv> rd32 m (b + 28)"

definition heap_get_page :: "'x kheap_scheme \<Rightarrow> 'x kheap_scheme \<times> u64" where
  "heap_get_page h =
     (let ((m, pm), p) = get_free_page (kmem h, kpm h) in (h\<lparr>kmem := m, kpm := pm\<rparr>, p))"

definition heap_free_page :: "'x kheap_scheme \<Rightarrow> u64 \<Rightarrow> 'x kheap_scheme" where
  "heap_free_page h p =
     (let (m, pm) = free_page (kmem h, kpm h) p in h\<lparr>kmem := m, kpm := pm\<rparr>)"

fun link_descs :: "mem \<Rightarrow> u64 \<Rightarrow> nat \<Rightarrow> nat \<Rightarrow> mem" where
  "link_descs m free_chain i 0 = m"
| "link_descs m free_chain i (Suc left) =
     link_descs (wr64 m (free_chain + 32 * of_nat i + 8) (free_chain + 32 * of_nat (Suc i)))
       free_chain (Suc i) left"

definition construct_free_bucket_chain :: "'x kheap_scheme \<Rightarrow> 'x kheap_scheme \<times> u64" where
  "construct_free_bucket_chain h =
     (let (h1, free_chain) = heap_get_page h;
          m = link_descs (kmem h1) free_chain 0 127
      in (h1\<lparr>kmem := wr64 m (free_chain + 32 * 127 + 8) 0\<rparr>, free_chain))"

text \<open>The loop over the directory stops at the first size that fits, or at the entry of size 0.\<close>

fun find_dir :: "(u32 \<times> u64) list \<Rightarrow> u32 \<Rightarrow> nat" where
  "find_dir [] len = 0"
| "find_dir ((sz, chain) # dirs) len =
     (if sz = 0 \<or> sz \<ge> len then 0 else Suc (find_dir dirs len))"

partial_function (option) find_free_bucket :: "mem \<Rightarrow> u64 \<Rightarrow> u64 option" where
  "find_free_bucket m chain =
     (if chain = 0 then Some 0
      else if desc_freeBlock m chain \<noteq> 0 then Some chain
      else find_free_bucket m (desc_next m chain))"

text \<open>The links between the blocks of a page: addresses and links are computed in 32 bits.\<close>

fun link_blocks :: "mem \<Rightarrow> u64 \<Rightarrow> u32 \<Rightarrow> nat \<Rightarrow> nat \<Rightarrow> mem" where
  "link_blocks m chain addr i 0 = m"
| "link_blocks m chain addr i (Suc left) =
     link_blocks (wr32 m (ucast (addr + of_nat i * desc_blockSize m chain))
                    (addr + of_nat (Suc i) * desc_blockSize m chain))
       chain addr (Suc i) left"

text \<open>A new bucket for directory entry \<open>d\<close>; the flag says whether a page was found for it.\<close>

definition new_bucket :: "'x kheap_scheme \<Rightarrow> nat \<Rightarrow> 'x kheap_scheme \<times> u64 \<times> bool" where
  "new_bucket h d =
     (let h1 = (if free_bucket_chain h = 0
                then (let (h', fc) = construct_free_bucket_chain h in h'\<lparr>free_bucket_chain := fc\<rparr>)
                else h);
          chain = free_bucket_chain h1;
          h2 = h1\<lparr>free_bucket_chain := desc_next (kmem h1) chain\<rparr>;
          m2 = memset (kmem h2) chain 0 32;
          sz = fst (bucket_dir h2 ! d);
          (h3, page) = heap_get_page (h2\<lparr>kmem := wr32 m2 (chain + 28) sz\<rparr>);
          m3 = wr64 (kmem h3) chain page
      in if page = 0 then (h3\<lparr>kmem := m3\<rparr>, chain, False)
         else (let blockNums = unat (PAGE_SIZE div desc_blockSize m3 chain);
                   addr = ucast (desc_page m3 chain) :: u32;
                   m4 = link_blocks m3 chain addr 0 (blockNums - 1);
                   m5 = wr32 m4 (ucast (addr + of_nat (blockNums - 1) * desc_blockSize m4 chain)) 0;
                   m6 = wr64 m5 (chain + 16) (desc_page m5 chain);
                   m7 = wr64 m6 (chain + 8) (snd (bucket_dir h3 ! d))
               in (h3\<lparr>kmem := m7, bucket_dir := (bucket_dir h3)[d := (sz, chain)]\<rparr>, chain, True)))"

definition take_block :: "mem \<Rightarrow> u64 \<Rightarrow> mem \<times> u64" where
  "take_block m chain =
     (let retVal = desc_freeBlock m chain;
          m1 = wr64 m (chain + 16) (rd64 m (desc_freeBlock m chain));
          m2 = wr32 m1 (chain + 24) (desc_refCnt m1 chain + 1)
      in (m2, retVal))"

definition kmalloc :: "'x kheap_scheme \<Rightarrow> u32 \<Rightarrow> ('x kheap_scheme \<times> u64) option" where
  "kmalloc h len =
     (case spin_lock (heap_lock h) of
        None \<Rightarrow> None
      | Some l \<Rightarrow>
          (let h1 = h\<lparr>heap_lock := l\<rparr>; d = find_dir (bucket_dir h1) len
           in if fst (bucket_dir h1 ! d) = 0 then Some (h1\<lparr>heap_lock := spin_unlock l\<rparr>, 0)
              else case find_free_bucket (kmem h1) (snd (bucket_dir h1 ! d)) of
                     None \<Rightarrow> None
                   | Some found \<Rightarrow>
                       (let (h2, chain, ok) = (if found = 0 then new_bucket h1 d else (h1, found, True))
                        in if \<not> ok then Some (h2\<lparr>heap_lock := spin_unlock l\<rparr>, 0)
                           else (let (m, retVal) = take_block (kmem h2) chain
                                 in Some (h2\<lparr>kmem := m, heap_lock := spin_unlock l\<rparr>, retVal)))))"

definition kzalloc :: "'x kheap_scheme \<Rightarrow> u32 \<Rightarrow> ('x kheap_scheme \<times> u64) option" where
  "kzalloc h len =
     (case kmalloc h len of
        None \<Rightarrow> None
      | Some (h1, p) \<Rightarrow>
          Some (if p \<noteq> 0 then h1\<lparr>kmem := memset (kmem h1) p 0 len\<rparr> else h1, p))"

partial_function (option) find_page_bucket :: "mem \<Rightarrow> u64 \<Rightarrow> u64 \<Rightarrow> u64 option" where
  "find_page_bucket m pageAlignAddr chain =
     (if chain = 0 then Some 0
      else if desc_page m chain = pageAlignAddr then Some chain
      else find_page_bucket m pageAlignAddr (desc_next m chain))"

text \<open>The loop of kfree_s that unlinks a bucket which is not the first of its chain.\<close>

partial_function (option) unlink_bucket :: "mem \<Rightarrow> u64 \<Rightarrow> u64 \<Rightarrow> mem option" where
  "unlink_bucket m chain pos =
     (if desc_next m pos = 0 then Some m
      else if desc_next m pos = chain then Some (wr64 m (pos + 8) (desc_next m chain))
      else unlink_bucket m chain (desc_next m pos))"

definition release_bucket :: "'x kheap_scheme \<Rightarrow> nat \<Rightarrow> u64 \<Rightarrow> 'x kheap_scheme option" where
  "release_bucket h d chain =
     (let h1 = heap_free_page h (desc_page (kmem h) chain);
          (sz, first) = bucket_dir h1 ! d
      in case (if first = chain
               then Some (h1\<lparr>bucket_dir := (bucket_dir h1)[d := (sz, desc_next (kmem h1) chain)]\<rparr>)
               else map_option (\<lambda>m. h1\<lparr>kmem := m\<rparr>) (unlink_bucket (kmem h1) chain first)) of
           None \<Rightarrow> None
         | Some h2 \<Rightarrow>
             Some (h2\<lparr>kmem := wr64 (kmem h2) (chain + 8) (free_bucket_chain h2),
                      free_bucket_chain := chain\<rparr>))"

definition put_block :: "mem \<Rightarrow> u64 \<Rightarrow> u64 \<Rightarrow> mem" where
  "put_block m chain ptr =
     (let m1 = wr32 m ptr (ucast (desc_freeBlock m chain));
          m2 = wr64 m1 (chain + 16) ptr
      in wr32 m2 (chain + 24) (desc_refCnt m2 chain - 1))"

definition kfree_s :: "'x kheap_scheme \<Rightarrow> u64 \<Rightarrow> u32 \<Rightarrow> 'x kheap_scheme option" where
  "kfree_s h ptr len =
     (case spin_lock (heap_lock h) of
        None \<Rightarrow> None
      | Some l \<Rightarrow>
          (let h1 = h\<lparr>heap_lock := l\<rparr>; d = find_dir (bucket_dir h1) len
           in if fst (bucket_dir h1 ! d) = 0 then Some (h1\<lparr>heap_lock := spin_unlock l\<rparr>)
              else (let pageAlignAddr = ucast (ucast ptr AND NOT (0xfff :: u32))
                    in case find_page_bucket (kmem h1) pageAlignAddr (snd (bucket_dir h1 ! d)) of
                         None \<Rightarrow> None
                       | Some chain \<Rightarrow>
                           if chain = 0 then Some (h1\<lparr>heap_lock := spin_unlock l\<rparr>)
                           else (let h2 = h1\<lparr>kmem := put_block (kmem h1) chain ptr\<rparr>
                                 in case (if desc_refCnt (kmem h2) chain = 0
                                          then release_bucket h2 d chain else Some h2) of
                                      None \<Rightarrow> None
                                    | Some h3 \<Rightarrow> Some (h3\<lparr>heap_lock := spin_unlock l\<rparr>)))))"

section \<open>Searches\<close>

interpretation ff: list_search "desc_next m" "\<lambda>b. desc_freeBlock m b \<noteq> 0" "find_free_bucket m"
  by unfold_locales (rule find_free_bucket.simps)

interpretation fp: list_search "desc_next m" "\<lambda>b. desc_page m b = pg" "find_page_bucket m pg"
  by unfold_locales (rule find_page_bucket.simps)

end
