(* ===== verification/HeapInv.thy ===== *)
theory HeapInv
  imports Malloc
begin

text \<open>
  The representation invariant of the bucket allocator and its preservation
  by the pieces of kmalloc and kfree_s.

  A bucket is described by its descriptor, its page and the list of its free
  blocks; the heap by the list of unused descriptors and one list of buckets
  per directory entry.
\<close>

type_synonym bucket = "u64 \<times> u64 \<times> u64 list"

abbreviation bdesc :: "bucket \<Rightarrow> u64" where "bdesc \<equiv> fst"
abbreviation bpage :: "bucket \<Rightarrow> u64" where "bpage bk \<equiv> fst (snd bk)"
abbreviation bfree :: "bucket \<Rightarrow> u64 list" where "bfree bk \<equiv> snd (snd bk)"

definition bsize :: "nat \<Rightarrow> nat" where
  "bsize d = 16 * 2 ^ d"

text \<open>The blocks of size \<open>sz\<close> of a page.\<close>

definition block :: "u64 \<Rightarrow> nat \<Rightarrow> nat \<Rightarrow> u64" where
  "block pg sz i = pg + of_nat (sz * i)"

definition blocks :: "u64 \<Rightarrow> nat \<Rightarrow> u64 list" where
  "blocks pg sz = map (block pg sz) [0..<4096 div sz]"

definition bucket_ok :: "mem \<Rightarrow> nat \<Rightarrow> bucket \<Rightarrow> bool" where
  "bucket_ok m sz bk \<longleftrightarrow>
     desc_page m (bdesc bk) = bpage bk \<and>
     path (rd64 m) (desc_freeBlock m (bdesc bk)) (bfree bk) \<and>
     set (bfree bk) \<subseteq> set (blocks (bpage bk) sz) \<and>
     desc_refCnt m (bdesc bk) = of_nat (4096 div sz - length (bfree bk)) \<and>
     desc_blockSize m (bdesc bk) = of_nat sz"

text \<open>A page manager whose pages are aligned, below 4 GiB and above its bitmap.\<close>

definition pm_layout :: "mm_pages_manager_t \<Rightarrow> bool" where
  "pm_layout pm \<longleftrightarrow> 4096 dvd unat (pm_start pm) \<and>
     unat (pm_start pm) + 4096 * bm_nbits (pm_map pm) \<le> 2 ^ 32 \<and>
     unat (bm_bits (pm_map pm)) < unat (pm_start pm) \<and>
     unat (bm_bits (pm_map pm)) + unat (bm_length (pm_map pm)) \<le> unat (pm_start pm)"

text \<open>The page a descriptor lies in.\<close>

definition page_of :: "u64 \<Rightarrow> u64" where
  "page_of b = of_nat (4096 * (unat b div 4096))"

definition heap_ok :: "'x kheap_scheme \<Rightarrow> u64 list \<Rightarrow> bucket list list \<Rightarrow> bool" where
  "heap_ok h fb hs \<longleftrightarrow>
     pm_invar (kmem h, kpm h) \<and> pm_layout (kpm h) \<and>
     path (desc_next (kmem h)) (free_bucket_chain h) fb \<and>
     length hs = 9 \<and> map fst (bucket_dir h) = map fst g_bucket_dir \<and>
     (\<forall>d < 9. path (desc_next (kmem h)) (snd (bucket_dir h ! d)) (map bdesc (hs ! d)) \<and>
              (\<forall>bk \<in> set (hs ! d). bucket_ok (kmem h) (bsize d) bk)) \<and>
     distinct (fb @ map bdesc (concat hs)) \<and> distinct (map bpage (concat hs)) \<and>
     (\<forall>b \<in> set fb \<union> set (map bdesc (concat hs)).
        32 dvd unat b \<and> page_of b \<in> pm_used (kmem h, kpm h) - bpage ` set (concat hs)) \<and>
     bpage ` set (concat hs) \<subseteq> pm_used (kmem h, kpm h)"

section \<open>Pages, descriptors and blocks\<close>

lemma bsize_cases: "d < 9 \<Longrightarrow> bsize d \<in> {16, 32, 64, 128, 256, 512, 1024, 2048, 4096}"
proof -
  assume "d < 9"
  then have "d = 0 \<or> d = 1 \<or> d = 2 \<or> d = 3 \<or> d = 4 \<or> d = 5 \<or> d = 6 \<or> d = 7 \<or> d = 8" by linarith
  then show ?thesis by (elim disjE) (simp_all add: bsize_def)
qed

lemma bsize_dvd: "d < 9 \<Longrightarrow> bsize d dvd 4096" "d < 9 \<Longrightarrow> 8 \<le> bsize d" "d < 9 \<Longrightarrow> bsize d \<le> 4096"
  using bsize_cases [of d] by auto

lemma bsize_dvd_word: "d < 9 \<Longrightarrow> bsize d dvd 2 ^ 64"
  using bsize_dvd(1) [of d] dvd_trans [of "bsize d" 4096 "2 ^ 64"] by simp

lemma page_aligned:
  assumes "pm_invar (m, pm)" "pm_layout pm" "p \<in> pm_pages (m, pm)"
  shows "4096 dvd unat p \<and> unat p + 4096 \<le> 2 ^ 32 \<and> unat (pm_start pm) \<le> unat p"
proof -
  obtain i where i: "i < bm_nbits (pm_map pm)" "p = page_addr pm i" using assms(3) by (auto simp: pm_pages_def)
  then have "unat p = unat (pm_start pm) + 4096 * i" using unat_page_addr [OF assms(1)] by simp
  then show ?thesis using i assms(2) by (auto simp: pm_layout_def)
qed

lemma apart_pages:
  fixes p q :: u64
  shows "4096 dvd unat p \<Longrightarrow> 4096 dvd unat q \<Longrightarrow> p \<noteq> q \<Longrightarrow> apart p 4096 q 4096"
  by (rule apart_aligned) auto

lemma apart_below:
  fixes a b :: u64
  assumes "unat a < unat b" "unat a + n \<le> unat b" "unat b + k \<le> 2 ^ 64"
  shows "apart a n b k"
proof -
  have "unat (b - a) = unat b - unat a" using assms by (subst unat_sub) (auto simp: word_le_nat_alt)
  moreover have "unat (a - b) = (if a = b then 0 else 2 ^ 64 - (unat b - unat a))"
    using calculation unat_sub_add_cancel [of a b] by auto
  ultimately show ?thesis using assms by (auto simp: apart_def)
qed

lemma apart_bitmap:
  assumes "pm_invar (m, pm)" "pm_layout pm" "p \<in> pm_pages (m, pm)"
  shows "apart p 4096 (fst (pm_range pm)) (snd (pm_range pm))"
proof -
  have "apart (fst (pm_range pm)) (snd (pm_range pm)) p 4096"
    using page_aligned [OF assms] assms(2) by (intro apart_below) (auto simp: pm_layout_def pm_range_def)
  then show ?thesis by (simp add: apart_commute)
qed

lemma unat_page_of: "unat (page_of b) = 4096 * (unat b div 4096)"
proof -
  have "4096 * (unat b div 4096) \<le> unat b" by simp
  also have "\<dots> < 2 ^ 64" using unat_lt [of b] by simp
  finally have "4096 * (unat b div 4096) < 2 ^ LENGTH(64)" by simp
  then show ?thesis unfolding page_of_def by (rule unat_of_nat_less)
qed

lemma page_of_decomp:
  assumes "32 dvd unat b"
  shows "\<exists>i. b = page_of b + of_nat i \<and> i + 32 \<le> 4096 \<and> 4096 dvd unat (page_of b)"
proof -
  let ?i = "unat b mod 4096"
  have "32 dvd ?i" using assms by (simp add: dvd_mod)
  moreover have "?i < 4096" by simp
  ultimately have "?i + 32 \<le> 4096" by (auto elim!: dvdE)
  moreover have "unat b = unat (page_of b) + ?i" by (simp add: unat_page_of)
  then have "of_nat (unat b) = of_nat (unat (page_of b)) + (of_nat ?i :: u64)" by (metis of_nat_add)
  then have "b = page_of b + of_nat ?i" by simp
  ultimately show ?thesis by (intro exI [of _ ?i]) (simp add: unat_page_of)
qed

lemma page_of_offset:
  assumes "4096 dvd unat (p :: u64)" "i < 4096"
  shows "page_of (p + of_nat i) = p"
proof -
  obtain k where k: "unat p = 4096 * k" using assms(1) by (elim dvdE)
  have "4096 * k < 4096 * 2 ^ 52" using unat_lt [of p] k by simp
  then have "k + 1 \<le> 2 ^ 52" by simp
  then have "4096 * (k + 1) \<le> 4096 * 2 ^ 52" by (intro mult_le_mono2)
  then have lt: "4096 * k + i < 2 ^ LENGTH(64)" using assms(2) by simp
  have "of_nat (unat p) + of_nat i = (of_nat (4096 * k + i) :: u64)" by (metis k of_nat_add)
  then have "p + of_nat i = of_nat (4096 * k + i)" by simp
  then have "unat (p + of_nat i) = 4096 * k + i" using unat_of_nat_less [OF lt] by metis
  then have "unat (page_of (p + of_nat i)) = unat p" using assms(2) k by (simp add: unat_page_of)
  then show ?thesis by (simp add: word_unat_eq_iff)
qed

lemma apart_desc_page:
  assumes "32 dvd unat b" "4096 dvd unat p" "page_of b \<noteq> p"
  shows "apart b 32 p 4096"
proof -
  obtain i where i: "b = page_of b + of_nat i" "i + 32 \<le> 4096" "4096 dvd unat (page_of b)"
    using page_of_decomp [OF assms(1)] by blast
  have "apart (page_of b) 4096 p 4096" using i assms by (intro apart_pages)
  then have "apart (page_of b + of_nat i) 32 (p + of_nat 0) 4096" using i(2) by (intro apart_within) auto
  then show ?thesis using i(1) by simp
qed

lemma apart_descs: "32 dvd unat (b :: u64) \<Longrightarrow> 32 dvd unat c \<Longrightarrow> b \<noteq> c \<Longrightarrow> apart b 32 c 32"
  by (rule apart_aligned) auto

lemma block_in_page:
  assumes "x \<in> set (blocks pg sz)" "sz dvd 4096"
  shows "\<exists>i. x = pg + of_nat i \<and> i + sz \<le> 4096 \<and> sz dvd i"
proof -
  obtain j where j: "j < 4096 div sz" "x = pg + of_nat (sz * j)" using assms(1) by (auto simp: blocks_def block_def)
  have "Suc j * sz \<le> (4096 div sz) * sz" using j(1) by (intro mult_le_mono1) simp
  then show ?thesis using j(2) assms(2) by (intro exI [of _ "sz * j"]) (simp add: algebra_simps)
qed

lemma unat_block:
  assumes "x = pg + of_nat i" "i < 4096" "unat pg + 4096 \<le> 2 ^ 32"
  shows "unat (x :: u64) = unat pg + i"
proof -
  have "of_nat (unat pg) + of_nat i = (of_nat (unat pg + i) :: u64)" by simp
  then have "x = of_nat (unat pg + i)" using assms(1) by simp
  moreover have "unat pg + i < 2 ^ LENGTH(64)" using assms by simp
  ultimately show ?thesis by (metis unat_of_nat_less)
qed

lemma distinct_blocks:
  assumes "d < 9" "unat pg + 4096 \<le> 2 ^ 32"
  shows "distinct (blocks pg (bsize d))"
proof -
  have "unat (block pg (bsize d) i) = unat pg + bsize d * i" if "i < 4096 div bsize d" for i
  proof -
    have "bsize d * i < bsize d * (4096 div bsize d)"
      using that bsize_dvd(2) [OF assms(1)] by (intro mult_strict_left_mono) auto
    also have "\<dots> = 4096" using bsize_dvd(1) [OF assms(1)] by simp
    finally show ?thesis using assms(2) by (intro unat_block) (simp_all add: block_def)
  qed
  then show ?thesis
    using bsize_dvd(2) [OF assms(1)] by (auto simp: blocks_def distinct_map inj_on_def) (metis add_left_cancel
        gr_implies_not0 less_le_trans mult_left_cancel zero_less_numeral)
qed

lemma apart_block_block:
  assumes pg: "4096 dvd unat pg" "4096 dvd unat pg'" "unat pg + 4096 \<le> 2 ^ 32"
    and x: "x \<in> set (blocks pg (bsize d))" "y \<in> set (blocks pg' (bsize d'))"
    and d: "d < 9" "d' < 9" and ne: "x \<noteq> y" and same: "pg = pg' \<Longrightarrow> d = d'"
  shows "apart x (bsize d) y (bsize d')"
proof -
  note bd = bsize_dvd [OF d(1)] bsize_dvd [OF d(2)]
  obtain i where i: "x = pg + of_nat i" "i + bsize d \<le> 4096" "bsize d dvd i" using block_in_page [OF x(1) bd(1)] by blast
  obtain j where j: "y = pg' + of_nat j" "j + bsize d' \<le> 4096" "bsize d' dvd j" using block_in_page [OF x(2) bd(4)] by blast
  show ?thesis
  proof (cases "pg = pg'")
    case True
    then have dd: "d' = d" using same by simp
    have lt: "i < 4096" "j < 4096" using i(2) j(2) bd by auto
    have "bsize d dvd unat pg" using bd(1) pg(1) by (rule dvd_trans)
    then have "bsize d dvd unat x" "bsize d dvd unat y"
      using unat_block [OF i(1) lt(1) pg(3)] unat_block [OF j(1) lt(2)] pg(3) i(3) j(3) True dd by auto
    then show ?thesis using True same ne bsize_dvd_word [OF d(1)] by (auto intro!: apart_aligned)
  next
    case False
    then have "apart pg 4096 pg' 4096" using pg by (intro apart_pages)
    then show ?thesis unfolding i(1) j(1) using i(2) j(2) bd by (intro apart_within) auto
  qed
qed

lemma apart_desc_block:
  assumes "32 dvd unat c" "4096 dvd unat pg" "page_of c \<noteq> pg" "x \<in> set (blocks pg (bsize d))" "d < 9"
  shows "apart c 32 x (bsize d)"
proof -
  note bd = bsize_dvd [OF assms(5)]
  obtain i where i: "x = pg + of_nat i" "i + bsize d \<le> 4096" using block_in_page [OF assms(4) bd(1)] by blast
  have "apart (c + of_nat 0) 32 (pg + of_nat i) (bsize d)"
    using apart_desc_page [OF assms(1-3)] i(2) bd by (intro apart_within) auto
  then show ?thesis using i(1) by simp
qed

section \<open>Consequences of the invariant\<close>

definition descs :: "u64 list \<Rightarrow> bucket list list \<Rightarrow> u64 set" where
  "descs fb hs = set fb \<union> bdesc ` set (concat hs)"

lemma descs_fb: "c \<in> set fb \<Longrightarrow> c \<in> descs fb hs"
  by (simp add: descs_def)

lemma heap_okD:
  assumes "heap_ok h fb hs"
  shows heap_pm: "pm_invar (kmem h, kpm h)" "pm_layout (kpm h)"
    and heap_fb: "path (desc_next (kmem h)) (free_bucket_chain h) fb"
    and heap_len: "length hs = 9" "length (bucket_dir h) = 10"
    and heap_chain: "d < 9 \<Longrightarrow> path (desc_next (kmem h)) (snd (bucket_dir h ! d)) (map bdesc (hs ! d))"
    and heap_bucket: "d < 9 \<Longrightarrow> bk \<in> set (hs ! d) \<Longrightarrow> bucket_ok (kmem h) (bsize d) bk"
    and heap_distinct: "distinct (fb @ map bdesc (concat hs))" "distinct (map bpage (concat hs))"
    and heap_sizes: "map fst (bucket_dir h) = map fst g_bucket_dir"
proof -
  have "length (map fst (bucket_dir h)) = length (map fst g_bucket_dir)"
    using assms by (simp add: heap_ok_def)
  then show "length (bucket_dir h) = 10" by (simp add: g_bucket_dir_def)
qed (use assms in \<open>simp_all add: heap_ok_def\<close>)

lemma heap_desc:
  assumes "heap_ok h fb hs" "c \<in> descs fb hs"
  shows "32 dvd unat c" "page_of c \<in> pm_used (kmem h, kpm h)" "page_of c \<notin> bpage ` set (concat hs)"
    "page_of c \<in> pm_pages (kmem h, kpm h)"
proof -
  show *: "32 dvd unat c" "page_of c \<in> pm_used (kmem h, kpm h)" "page_of c \<notin> bpage ` set (concat hs)"
    using assms by (auto simp: heap_ok_def descs_def)
  then show "page_of c \<in> pm_pages (kmem h, kpm h)" using pm.used_pages [OF heap_pm(1) [OF assms(1)]] by blast
qed

lemma heap_page:
  assumes "heap_ok h fb hs" "bk \<in> set (concat hs)"
  shows "4096 dvd unat (bpage bk)" "unat (bpage bk) + 4096 \<le> 2 ^ 32"
    "bpage bk \<in> pm_used (kmem h, kpm h)" "bpage bk \<in> pm_pages (kmem h, kpm h)"
proof -
  have "bpage ` set (concat hs) \<subseteq> pm_used (kmem h, kpm h)" using assms(1) by (simp add: heap_ok_def)
  then show *: "bpage bk \<in> pm_used (kmem h, kpm h)" using assms(2) by (meson image_subset_iff)
  then show "bpage bk \<in> pm_pages (kmem h, kpm h)" using pm.used_pages [OF heap_pm(1) [OF assms(1)]] by blast
  then show "4096 dvd unat (bpage bk)" "unat (bpage bk) + 4096 \<le> 2 ^ 32"
    using page_aligned [OF heap_pm [OF assms(1)]] by auto
qed

lemma in_concat_nth: "d < length hs \<Longrightarrow> bk \<in> set (hs ! d) \<Longrightarrow> bk \<in> set (concat hs)"
  by auto

lemma heap_bucket_in: "heap_ok h fb hs \<Longrightarrow> d < 9 \<Longrightarrow> bk \<in> set (hs ! d) \<Longrightarrow> bk \<in> set (concat hs)"
  by (rule in_concat_nth) (simp_all add: heap_len)

lemma heap_desc_in: "heap_ok h fb hs \<Longrightarrow> d < 9 \<Longrightarrow> bk \<in> set (hs ! d) \<Longrightarrow> bdesc bk \<in> descs fb hs"
  using heap_bucket_in [of h fb hs d bk] by (simp add: descs_def)

lemma distinct_concat_nth:
  assumes "distinct (map f (concat hs))" "d < length hs" "d' < length hs"
    "x \<in> set (hs ! d)" "y \<in> set (hs ! d')" "f x = f y"
  shows "d = d' \<and> x = y"
proof -
  have inj: "inj_on f (set (concat hs))" and dc: "distinct (concat hs)"
    using assms(1) by (simp_all add: distinct_map)
  then have xy: "x = y" using assms by (meson in_concat_nth inj_onD)
  have "d = d'"
  proof (rule ccontr)
    assume "d \<noteq> d'"
    then have "x \<notin> set (hs ! d')" using dc assms(2-5) xy
    proof (induction hs arbitrary: d d')
      case (Cons a hs)
      then have "set a \<inter> set (concat hs) = {}" by simp
      then show ?case using Cons in_concat_nth [of _ hs] by (cases d; cases d') fastforce+
    qed simp
    then show False using assms(5) xy by simp
  qed
  then show ?thesis using xy by simp
qed

lemma heap_desc_apart:
  assumes "heap_ok h fb hs" "c \<in> descs fb hs" "c' \<in> descs fb hs" "c \<noteq> c'"
  shows "apart c 32 c' 32"
  using heap_desc(1) [OF assms(1)] assms by (intro apart_descs) auto

lemma heap_desc_block:
  assumes "heap_ok h fb hs" "c \<in> descs fb hs" "d < 9" "bk \<in> set (hs ! d)"
    "x \<in> set (blocks (bpage bk) (bsize d))" "n \<le> bsize d"
  shows "apart c 32 x n" "apart x n c 32"
proof -
  have bk: "bk \<in> set (concat hs)" using heap_bucket_in [OF assms(1,3,4)] .
  have "page_of c \<noteq> bpage bk" using heap_desc(3) [OF assms(1,2)] bk by (metis imageI)
  then have "apart c 32 x (bsize d)"
    using heap_desc(1) [OF assms(1,2)] heap_page(1) [OF assms(1) bk] assms by (intro apart_desc_block) auto
  then show "apart c 32 x n" by (rule apart_mono) (use assms(6) in auto)
  then show "apart x n c 32" by (simp add: apart_commute)
qed

lemma heap_block_block:
  assumes "heap_ok h fb hs" "d < 9" "bk \<in> set (hs ! d)" "d' < 9" "bk' \<in> set (hs ! d')"
    "x \<in> set (blocks (bpage bk) (bsize d))" "y \<in> set (blocks (bpage bk') (bsize d'))" "x \<noteq> y"
    "n \<le> bsize d" "n' \<le> bsize d'"
  shows "apart x n y n'"
proof -
  note bk = heap_bucket_in [OF assms(1,2,3)] heap_bucket_in [OF assms(1,4,5)]
  have "d = d'" if "bpage bk = bpage bk'"
    using distinct_concat_nth [OF heap_distinct(2) [OF assms(1)] _ _ assms(3,5) that] assms
    by (simp add: heap_len [OF assms(1)])
  then have "apart x (bsize d) y (bsize d')"
    using heap_page [OF assms(1) bk(1)] heap_page [OF assms(1) bk(2)] assms by (intro apart_block_block) auto
  then show ?thesis using assms(9,10) by (rule apart_mono)
qed

lemma heap_bitmap_desc:
  assumes "heap_ok h fb hs" "c \<in> descs fb hs"
  shows "apart c 32 (fst (pm_range (kpm h))) (snd (pm_range (kpm h)))"
    "apart (fst (pm_range (kpm h))) (snd (pm_range (kpm h))) c 32"
proof -
  have p: "4096 dvd unat (page_of c)" "unat (page_of c) + 4096 \<le> 2 ^ 32"
      "unat (pm_start (kpm h)) \<le> unat (page_of c)"
    using page_aligned [OF heap_pm [OF assms(1)] heap_desc(4) [OF assms]] by auto
  obtain i where i: "c = page_of c + of_nat i" "i + 32 \<le> 4096"
    using page_of_decomp [OF heap_desc(1) [OF assms]] by blast
  have "unat c = unat (page_of c) + i" using i p by (intro unat_block) auto
  then have "apart (fst (pm_range (kpm h))) (snd (pm_range (kpm h))) c 32"
    using p i heap_pm(2) [OF assms(1)] by (intro apart_below) (auto simp: pm_layout_def pm_range_def)
  then show "apart (fst (pm_range (kpm h))) (snd (pm_range (kpm h))) c 32"
    "apart c 32 (fst (pm_range (kpm h))) (snd (pm_range (kpm h)))" by (simp_all add: apart_commute)
qed

lemma heap_bitmap_block:
  assumes "heap_ok h fb hs" "d < 9" "bk \<in> set (hs ! d)" "x \<in> set (blocks (bpage bk) (bsize d))" "n \<le> bsize d"
  shows "apart x n (fst (pm_range (kpm h))) (snd (pm_range (kpm h)))"
    "apart (fst (pm_range (kpm h))) (snd (pm_range (kpm h))) x n"
proof -
  note bk = heap_bucket_in [OF assms(1,2,3)]
  obtain i where i: "x = bpage bk + of_nat i" "i + bsize d \<le> 4096"
    using block_in_page [OF assms(4) bsize_dvd(1) [OF assms(2)]] by blast
  have "unat x = unat (bpage bk) + i"
    using i heap_page [OF assms(1) bk] bsize_dvd(2) [OF assms(2)] by (intro unat_block) auto
  then have "apart (fst (pm_range (kpm h))) (snd (pm_range (kpm h))) x n"
    using i heap_pm(2) [OF assms(1)] page_aligned [OF heap_pm [OF assms(1)] heap_page(4) [OF assms(1) bk]] assms(5)
    by (intro apart_below) (auto simp: pm_layout_def pm_range_def)
  then show "apart (fst (pm_range (kpm h))) (snd (pm_range (kpm h))) x n"
    "apart x n (fst (pm_range (kpm h))) (snd (pm_range (kpm h)))" by (simp_all add: apart_commute)
qed

section \<open>Frames\<close>

lemma path_next_frame:
  assumes "path (desc_next m) p xs" "\<forall>x \<in> set xs. load m' x 32 = load m x 32"
  shows "path (desc_next m') p xs"
  using assms(1)
proof (rule path_cong)
  fix x
  assume "x \<in> set xs"
  then show "desc_next m' x = desc_next m x" using rd64_part [of m' x 32 m 8] assms(2) by simp
qed

lemma bucket_ok_frame:
  assumes "bucket_ok m sz bk" "load m' (bdesc bk) 32 = load m (bdesc bk) 32"
    "\<forall>x \<in> set (bfree bk). load m' x 8 = load m x 8"
  shows "bucket_ok m' sz bk"
proof -
  let ?b = "bdesc bk"
  have "desc_page m' ?b = desc_page m ?b" "desc_freeBlock m' ?b = desc_freeBlock m ?b"
    "desc_refCnt m' ?b = desc_refCnt m ?b" "desc_blockSize m' ?b = desc_blockSize m ?b"
    using rd64_part [OF assms(2), of 0] rd64_part [OF assms(2), of 16]
      rd32_part [OF assms(2), of 24] rd32_part [OF assms(2), of 28] by simp_all
  moreover have "path (rd64 m') p (bfree bk)" if "path (rd64 m) p (bfree bk)" for p
    using that by (rule path_cong) (simp add: rd64_def assms(3))
  ultimately show ?thesis using assms(1) by (simp add: bucket_ok_def)
qed

lemma map_concat_update:
  assumes "map f l = map f (hs ! d)" "d < length hs"
  shows "map f (concat (hs[d := l])) = map f (concat hs)"
proof -
  have "map (map f) (hs[d := l]) = map (map f) hs"
    using assms by (simp add: map_update list_update_id [of "map (map f) hs" d, simplified nth_map [OF assms(2)]])
  then show ?thesis by (simp add: map_concat)
qed

lemma heap_pm_frame:
  assumes "heap_ok h fb hs" "frames (kmem h) m' rs"
    "\<forall>(a, n) \<in> set rs. apart (fst (pm_range (kpm h))) (snd (pm_range (kpm h))) a n"
  shows "pm_used (m', kpm h) = pm_used (kmem h, kpm h)" "pm_pages (m', kpm h) = pm_pages (kmem h, kpm h)"
    "pm_invar (m', kpm h)"
proof -
  have "load m' (fst (pm_range (kpm h))) (snd (pm_range (kpm h))) =
      load (kmem h) (fst (pm_range (kpm h))) (snd (pm_range (kpm h)))"
    using assms(2,3) by (rule frames_load)
  then show "pm_used (m', kpm h) = pm_used (kmem h, kpm h)" "pm_pages (m', kpm h) = pm_pages (kmem h, kpm h)"
    using pm_used_cong [of m' "kpm h" "kmem h"] by (simp_all add: pm_range_def)
  show "pm_invar (m', kpm h)" using heap_pm(1) [OF assms(1)] by (rule pm_invar_mem)
qed

text \<open>
  One bucket changes in place: the writes are to its descriptor and to ranges
  \<open>rs\<close> away from the bitmap, the other descriptors and the other buckets' free
  blocks.
\<close>

lemma heap_ok_in_place:
  assumes ok: "heap_ok h fb hs" and d: "d < 9" and hsd: "hs ! d = us @ (b, pg, fl) # vs"
    and fr: "frames (kmem h) m' ((b, 32) # rs)"
    and rs: "\<And>a n. (a, n) \<in> set rs \<Longrightarrow> apart (fst (pm_range (kpm h))) (snd (pm_range (kpm h))) a n"
      "\<And>a n c. (a, n) \<in> set rs \<Longrightarrow> c \<in> descs fb hs \<Longrightarrow> apart c 32 a n"
      "\<And>a n e bk x. (a, n) \<in> set rs \<Longrightarrow> e < 9 \<Longrightarrow> bk \<in> set (hs ! e) \<Longrightarrow> bdesc bk \<noteq> b \<Longrightarrow>
         x \<in> set (bfree bk) \<Longrightarrow> apart x 8 a n"
    and new: "bucket_ok m' (bsize d) (b, pg, fl')" "desc_next m' b = desc_next (kmem h) b"
  shows "heap_ok (h\<lparr>kmem := m'\<rparr>) fb (hs[d := us @ (b, pg, fl') # vs])"
proof -
  let ?hs = "hs[d := us @ (b, pg, fl') # vs]"
  have len: "d < length hs" using d heap_len [OF ok] by simp
  have b_in: "b \<in> descs fb hs" using heap_desc_in [OF ok d, of "(b, pg, fl)"] hsd by simp
  have maps: "map bdesc (concat ?hs) = map bdesc (concat hs)" "map bpage (concat ?hs) = map bpage (concat hs)"
    using len hsd by (auto intro!: map_concat_update)
  have sets: "bdesc ` set (concat ?hs) = bdesc ` set (concat hs)" "bpage ` set (concat ?hs) = bpage ` set (concat hs)"
    using arg_cong [OF maps(1), of set] arg_cong [OF maps(2), of set] by simp_all
  have other: "load m' c 32 = load (kmem h) c 32" if "c \<in> descs fb hs" "c \<noteq> b" for c
    using that rs heap_desc_apart [OF ok that(1) b_in] by (intro frames_load [OF fr]) auto
  have nxt: "desc_next m' c = desc_next (kmem h) c" if "c \<in> descs fb hs" for c
    using new(2) rd64_part [OF other, of c 8] that by (cases "c = b") auto
  note pmf = heap_pm_frame [OF ok fr]
  have pm: "pm_used (m', kpm h) = pm_used (kmem h, kpm h)" "pm_invar (m', kpm h)"
    using pmf rs heap_bitmap_desc(2) [OF ok b_in] by auto
  have b1: "path (desc_next m') (snd (bucket_dir h ! e)) (map bdesc (?hs ! e))" if "e < 9" for e
  proof -
    have "map bdesc (?hs ! e) = map bdesc (hs ! e)" using that hsd len by (cases "e = d") auto
    moreover have "path (desc_next m') (snd (bucket_dir h ! e)) (map bdesc (hs ! e))"
      using heap_chain [OF ok that] by (rule path_cong) (use nxt heap_desc_in [OF ok that] in auto)
    ultimately show ?thesis by simp
  qed
  have b2: "bucket_ok m' (bsize e) bk" if e: "e < 9" "bk \<in> set (?hs ! e)" for e bk
  proof (cases "bdesc bk = b \<and> e = d")
    case True
    moreover have "distinct (map bdesc (concat ?hs))" using heap_distinct(1) [OF ok] maps(1) by simp
    ultimately have "bk = (b, pg, fl')"
      using distinct_concat_nth [of bdesc ?hs d d bk "(b, pg, fl')"] e len by simp
    then show ?thesis using new(1) True by simp
  next
    case False
    have bk: "bk \<in> set (hs ! e)" "bdesc bk \<noteq> b"
    proof -
      show mem: "bk \<in> set (hs ! e)" using e False hsd len by (cases "e = d") auto
      show "bdesc bk \<noteq> b"
        using False distinct_concat_nth [of bdesc hs e d bk "(b, pg, fl)"] mem e(1) len hsd
          heap_distinct(1) [OF ok] heap_len [OF ok] by auto
    qed
    have c: "bdesc bk \<in> descs fb hs" using heap_desc_in [OF ok e(1) bk(1)] .
    have "load m' x 8 = load (kmem h) x 8" if x: "x \<in> set (bfree bk)" for x
    proof (rule frames_load [OF fr])
      have "x \<in> set (blocks (bpage bk) (bsize e))"
        using heap_bucket [OF ok e(1) bk(1)] x by (auto simp: bucket_ok_def)
      then have "apart x 8 b 32"
        using heap_desc_block [OF ok b_in e(1) bk(1), of x 8] bsize_dvd(2) [OF e(1)] by simp
      then show "\<forall>(a, n) \<in> set ((b, 32) # rs). apart x 8 a n" using rs(3) [OF _ e(1) bk x] by auto
    qed
    then show ?thesis by (intro bucket_ok_frame [OF heap_bucket [OF ok e(1) bk(1)] other [OF c bk(2)]] ballI)
  qed
  have fbp: "path (desc_next m') (free_bucket_chain h) fb"
    using heap_fb [OF ok] by (rule path_cong) (simp add: nxt descs_fb)
  have desc: "\<forall>c \<in> set fb \<union> set (map bdesc (concat ?hs)).
      32 dvd unat c \<and> page_of c \<in> pm_used (m', kpm h) - bpage ` set (concat ?hs)"
    using heap_desc [OF ok] sets pm(1) by (simp add: descs_def)
  have pages: "bpage ` set (concat ?hs) \<subseteq> pm_used (m', kpm h)"
    unfolding sets(2) pm(1) using heap_page(3) [OF ok] by blast
  have dist: "distinct (fb @ map bdesc (concat ?hs))" "distinct (map bpage (concat ?hs))"
    unfolding maps using heap_distinct [OF ok] by auto
  show ?thesis
    unfolding heap_ok_def using pm(2) desc b1 b2 fbp dist pages heap_len(1) [OF ok] heap_pm(2) [OF ok] heap_sizes [OF ok]
    by (simp del: concat.simps set_concat)
qed

section \<open>Taking and returning a block\<close>

text \<open>Reading a field of a descriptor after writing one of the same descriptor.\<close>

lemma desc_write [simp]:
  shows "desc_page (wr64 m b v) b = v"
    "desc_page (wr64 m (b + 8) v) b = desc_page m b"
    "desc_page (wr64 m (b + 16) v) b = desc_page m b"
    "desc_page (wr32 m (b + 24) w) b = desc_page m b"
    "desc_page (wr32 m (b + 28) w) b = desc_page m b"
    "desc_next (wr64 m b v) b = desc_next m b"
    "desc_next (wr64 m (b + 8) v) b = v"
    "desc_next (wr64 m (b + 16) v) b = desc_next m b"
    "desc_next (wr32 m (b + 24) w) b = desc_next m b"
    "desc_next (wr32 m (b + 28) w) b = desc_next m b"
    "desc_freeBlock (wr64 m b v) b = desc_freeBlock m b"
    "desc_freeBlock (wr64 m (b + 8) v) b = desc_freeBlock m b"
    "desc_freeBlock (wr64 m (b + 16) v) b = v"
    "desc_freeBlock (wr32 m (b + 24) w) b = desc_freeBlock m b"
    "desc_freeBlock (wr32 m (b + 28) w) b = desc_freeBlock m b"
    "desc_refCnt (wr64 m b v) b = desc_refCnt m b"
    "desc_refCnt (wr64 m (b + 8) v) b = desc_refCnt m b"
    "desc_refCnt (wr64 m (b + 16) v) b = desc_refCnt m b"
    "desc_refCnt (wr32 m (b + 24) w) b = w"
    "desc_refCnt (wr32 m (b + 28) w) b = desc_refCnt m b"
    "desc_blockSize (wr64 m b v) b = desc_blockSize m b"
    "desc_blockSize (wr64 m (b + 8) v) b = desc_blockSize m b"
    "desc_blockSize (wr64 m (b + 16) v) b = desc_blockSize m b"
    "desc_blockSize (wr32 m (b + 24) w) b = desc_blockSize m b"
    "desc_blockSize (wr32 m (b + 28) w) b = w"
  by (simp_all add: mem_simps apart_def)

lemma frames_desc:
  "frames m (wr64 m b v) [(b, 32)]" "frames m (wr64 m (b + 8) v) [(b, 32)]" "frames m (wr64 m (b + 16) v) [(b, 32)]"
  "frames m (wr32 m (b + 24) w) [(b, 32)]" "frames m (wr32 m (b + 28) w) [(b, 32)]" for b :: u64
  using frames_wr64_in [of 0 32 m b v] frames_wr64_in [of 8 32 m b v] frames_wr64_in [of 16 32 m b v]
    frames_wr32_in [of 24 32 m b w] frames_wr32_in [of 28 32 m b w] by simp_all

lemma take_block_ok:
  assumes ok: "heap_ok h fb hs" and d: "d < 9" and hsd: "hs ! d = us @ (b, pg, x # fl) # vs"
    and take: "take_block (kmem h) b = (m', p)"
  shows "p = x \<and> frames (kmem h) m' [(b, 32)] \<and> heap_ok (h\<lparr>kmem := m'\<rparr>) fb (hs[d := us @ (b, pg, fl) # vs])"
proof -
  let ?m = "kmem h"
  have bk: "(b, pg, x # fl) \<in> set (hs ! d)" using hsd by simp
  have b_in: "b \<in> descs fb hs" using heap_desc_in [OF ok d bk] by simp
  have bok: "bucket_ok ?m (bsize d) (b, pg, x # fl)" using heap_bucket [OF ok d bk] .
  then have free: "desc_freeBlock ?m b = x" by (simp add: bucket_ok_def)
  have m': "m' = wr32 (wr64 ?m (b + 16) (rd64 ?m x)) (b + 24) (desc_refCnt ?m b + 1)" "p = x"
    using take free by (auto simp: take_block_def Let_def)
  have fr: "frames ?m m' [(b, 32)]"
    unfolding m' by (rule frames_trans_same [OF frames_desc(3,4)])
  have "length (x # fl) \<le> length (blocks pg (bsize d))"
    using bok path_distinct [of "rd64 ?m" x "x # fl"] card_mono [of "set (blocks pg (bsize d))" "set (x # fl)"]
      distinct_card [of "x # fl"] card_length [of "blocks pg (bsize d)"] by (auto simp: bucket_ok_def)
  then have cnt: "4096 div bsize d - length fl = Suc (4096 div bsize d - length (x # fl))"
    by (simp add: blocks_def)
  have "load m' y 8 = load ?m y 8" if "y \<in> set fl" for y
  proof (rule frames_load [OF fr])
    have "y \<in> set (blocks pg (bsize d))" using that bok by (auto simp: bucket_ok_def)
    then show "\<forall>(a, n) \<in> set [(b, 32)]. apart y 8 a n"
      using heap_desc_block(2) [OF ok b_in d bk, of y 8] bsize_dvd(2) [OF d] by simp
  qed
  then have "path (rd64 m') (rd64 ?m x) fl"
    using bok path_cong [of "rd64 ?m" "rd64 ?m x" fl "rd64 m'"] by (simp add: bucket_ok_def rd64_def)
  then have new: "bucket_ok m' (bsize d) (b, pg, fl)"
    using bok cnt by (simp add: bucket_ok_def m')
  have "heap_ok (h\<lparr>kmem := m'\<rparr>) fb (hs[d := us @ (b, pg, fl) # vs])"
    using heap_ok_in_place [OF ok d hsd fr _ _ _ new] by (simp add: m')
  then show ?thesis using m' fr by simp
qed

lemma rd64_halves: "rd64 m (a :: u64) = ucast (rd32 m a) OR push_bit 32 (ucast (rd32 m (a + 4)))"
proof (rule bit_eqI)
  fix n
  assume "possible_bit TYPE(u64) n"
  then have n: "n < 64" by simp
  show "bit (rd64 m a) n = bit (ucast (rd32 m a) OR push_bit 32 (ucast (rd32 m (a + 4))) :: u64) n"
  proof (cases "n < 32")
    case True
    then show ?thesis
      using n by (auto simp: rd64_def rd32_def bit_of_le bit_or_iff bit_push_bit_iff bit_unsigned_iff
          div_less_iff_less_mult)
  next
    case False
    then obtain k where k: "n = 32 + k" using le_Suc_ex not_less by blast
    have "\<not> bit (rd32 m a) n" using False bit_imp_le_length [of "rd32 m a" n] by auto
    moreover have "(32 + k) div 8 = 4 + k div 8" "(32 + k) mod 8 = k mod 8" by presburger+
    ultimately show ?thesis
      using n k by (auto simp: rd64_def rd32_def bit_of_le bit_or_iff bit_push_bit_iff bit_unsigned_iff
          div_less_iff_less_mult add.assoc)
  qed
qed

lemma ucast_ucast_low: "unat (x :: u64) < 2 ^ 32 \<Longrightarrow> ucast (ucast x :: u32) = x"
  by (simp add: unsigned_ucast_eq word_unat_eq_iff unsigned_take_bit_eq take_bit_nat_eq_self)

lemma block_bounds:
  assumes "heap_ok h fb hs" "d < 9" "bk \<in> set (hs ! d)" "x \<in> set (blocks (bpage bk) (bsize d))"
  shows "x \<noteq> 0" "unat x + bsize d \<le> 2 ^ 32" "page_of x = bpage bk"
proof -
  note bk = heap_bucket_in [OF assms(1-3)] and bd = bsize_dvd [OF assms(2)]
  obtain i where i: "x = bpage bk + of_nat i" "i + bsize d \<le> 4096" using block_in_page [OF assms(4) bd(1)] by blast
  have x: "unat x = unat (bpage bk) + i" using i heap_page(2) [OF assms(1) bk] bd by (intro unat_block) auto
  have "bpage bk \<noteq> 0" using pm.null_not_page [OF heap_pm(1) [OF assms(1)]] heap_page(4) [OF assms(1) bk] by metis
  then show "x \<noteq> 0" using x by (auto simp: unat_eq_zero)
  show "unat x + bsize d \<le> 2 ^ 32" using x i heap_page(2) [OF assms(1) bk] by simp
  show "page_of x = bpage bk" unfolding i(1) using i(2) bd heap_page(1) [OF assms(1) bk] by (intro page_of_offset) auto
qed

lemma free_head_low:
  assumes "heap_ok h fb hs" "d < 9" "bk \<in> set (hs ! d)"
  shows "unat (desc_freeBlock (kmem h) (bdesc bk)) < 2 ^ 32"
proof -
  have bok: "bucket_ok (kmem h) (bsize d) bk" using heap_bucket [OF assms] .
  show ?thesis
  proof (cases "bfree bk")
    case Nil
    then show ?thesis using bok by (simp add: bucket_ok_def)
  next
    case (Cons x fl)
    then have "x \<in> set (blocks (bpage bk) (bsize d))" "desc_freeBlock (kmem h) (bdesc bk) = x"
      using bok by (auto simp: bucket_ok_def)
    then show ?thesis using block_bounds(2) [OF assms] bsize_dvd(2) [OF assms(2)] by fastforce
  qed
qed

lemma put_block_ok:
  assumes ok: "heap_ok h fb hs" and d: "d < 9" and hsd: "hs ! d = us @ (b, pg, fl) # vs"
    and ptr: "ptr \<in> set (blocks pg (bsize d))" "ptr \<notin> set fl" and clean: "rd32 (kmem h) (ptr + 4) = 0"
  shows "frames (kmem h) (put_block (kmem h) b ptr) [(b, 32), (ptr, 4)]"
    and "heap_ok (h\<lparr>kmem := put_block (kmem h) b ptr\<rparr>) fb (hs[d := us @ (b, pg, ptr # fl) # vs])"
proof -
  let ?m = "kmem h" and ?m' = "put_block (kmem h) b ptr" and ?f = "desc_freeBlock (kmem h) b"
  let ?m1 = "wr32 ?m ptr (ucast ?f)"
  have bk: "(b, pg, fl) \<in> set (hs ! d)" using hsd by simp
  note bd = bsize_dvd [OF d] and b_in = heap_desc_in [OF ok d bk, simplified]
  note bok = heap_bucket [OF ok d bk]
  have ap: "apart b 32 ptr 8" "apart ptr 8 b 32" using heap_desc_block [OF ok b_in d bk, of ptr 8] ptr bd by auto
  then have ap4: "apart b 32 ptr 4" "apart ptr 4 b 32" by (auto elim: apart_mono)
  have same1: "load ?m1 b 32 = load ?m b 32" using ap4 by (intro frames_load [OF frames_wr32]) simp
  have fields1: "desc_refCnt ?m1 b = desc_refCnt ?m b" "desc_page ?m1 b = desc_page ?m b"
    "desc_next ?m1 b = desc_next ?m b" "desc_blockSize ?m1 b = desc_blockSize ?m b"
    using rd32_part [OF same1, of 24] rd64_part [OF same1, of 0] rd64_part [OF same1, of 8]
      rd32_part [OF same1, of 28] by simp_all
  then have m': "?m' = wr32 (wr64 ?m1 (b + 16) ptr) (b + 24) (desc_refCnt ?m b - 1)"
    by (simp add: put_block_def Let_def)
  have fr1: "frames ?m1 ?m' [(b, 32)]" unfolding m' by (rule frames_trans_same [OF frames_desc(3,4)])
  have "frames ?m ?m' ([(ptr, 4)] @ [(b, 32)])" by (rule frames_trans [OF frames_wr32 fr1])
  then show fr: "frames ?m ?m' [(b, 32), (ptr, 4)]" by (rule frames_mono) auto
  have "load ?m' ptr 8 = load ?m1 ptr 8" using ap by (intro frames_load [OF fr1]) simp
  then have "rd64 ?m' ptr = rd64 ?m1 ptr" by (simp add: rd64_def)
  also have "\<dots> = ucast (ucast ?f :: u32)"
    using clean by (simp add: rd64_halves mem_simps apart_def)
  also have "\<dots> = ?f" using free_head_low [OF ok d bk] by (intro ucast_ucast_low) simp
  finally have head: "rd64 ?m' ptr = ?f" .
  have tail: "load ?m' y 8 = load ?m y 8" if "y \<in> set fl" for y
  proof (rule frames_load [OF fr])
    have y: "y \<in> set (blocks pg (bsize d))" using that bok by (auto simp: bucket_ok_def)
    have "apart y 8 ptr 4" using heap_block_block [OF ok d bk d bk, of y ptr 8 4] y ptr that bd(2) by auto
    then show "\<forall>(a, n) \<in> set [(b, 32), (ptr, 4)]. apart y 8 a n"
      using heap_desc_block(2) [OF ok b_in d bk, of y 8] y bd(2) by simp
  qed
  have "path (rd64 ?m') ?f fl"
    using bok tail path_cong [of "rd64 ?m" ?f fl "rd64 ?m'"] by (simp add: bucket_ok_def rd64_def)
  moreover have "ptr \<noteq> 0" using block_bounds(1) [OF ok d bk] ptr by simp
  moreover have "of_nat (4096 div bsize d - length fl) - 1 = (of_nat (4096 div bsize d - length (ptr # fl)) :: u32)"
  proof -
    have "card (set (ptr # fl)) \<le> card (set (blocks pg (bsize d)))"
      using ptr bok by (intro card_mono) (auto simp: bucket_ok_def)
    moreover have "distinct fl" using bok path_distinct by (fastforce simp: bucket_ok_def)
    ultimately have "Suc (length fl) \<le> 4096 div bsize d"
      using ptr(2) card_length [of "blocks pg (bsize d)"] by (simp add: distinct_card blocks_def)
    then have "4096 div bsize d - length fl = Suc (4096 div bsize d - length (ptr # fl))" by simp
    then show ?thesis by (simp only: of_nat_Suc) simp
  qed
  ultimately have new: "bucket_ok ?m' (bsize d) (b, pg, ptr # fl)"
    using bok ptr head fields1 by (simp add: bucket_ok_def m')
  show "heap_ok (h\<lparr>kmem := ?m'\<rparr>) fb (hs[d := us @ (b, pg, ptr # fl) # vs])"
  proof (rule heap_ok_in_place [OF ok d hsd fr _ _ _ new])
    show "desc_next ?m' b = desc_next ?m b" using fields1 by (simp add: m')
    fix a x :: u64 and n e :: nat and bk' :: bucket
    assume *: "(a, n) \<in> set [(ptr, 4)]" "e < 9" "bk' \<in> set (hs ! e)" "bdesc bk' \<noteq> b" "x \<in> set (bfree bk')"
    have x: "x \<in> set (blocks (bpage bk') (bsize e))" using heap_bucket [OF ok *(2,3)] *(5) by (auto simp: bucket_ok_def)
    have "bpage bk' \<noteq> pg"
    proof
      assume "bpage bk' = pg"
      then have "bk' = (b, pg, fl)"
        using distinct_concat_nth [OF heap_distinct(2) [OF ok] _ _ *(3) bk] *(2) d heap_len [OF ok] by simp
      then show False using *(4) by simp
    qed
    then have "x \<noteq> ptr" using block_bounds(3) [OF ok *(2,3) x] block_bounds(3) [OF ok d bk] ptr by auto
    then show "apart x 8 a n"
      using heap_block_block [OF ok *(2,3) d bk x, of ptr 8 4] ptr *(1) bsize_dvd(2) [OF *(2)] bd by simp
  qed (use heap_bitmap_block(2) [OF ok d bk, of ptr 4] heap_desc_block(1) [OF ok _ d bk, of _ ptr 4] ptr bd in auto)
qed

end
