(* ===== verification/HeapOps.thy ===== *)
theory HeapOps
  imports HeapInv
begin

text \<open>
  The operations of the bucket allocator keep its invariant: getting a page
  from the page allocator, building the chain of unused descriptors, making a
  bucket, and from these kmalloc and kfree_s.
\<close>

section \<open>Writes away from the heap's structures\<close>

lemma heap_ok_mono:
  assumes ok: "heap_ok h fb hs"
    and eq: "kpm h' = kpm h" "bucket_dir h' = bucket_dir h" "free_bucket_chain h' = free_bucket_chain h"
    and used: "pm_used (kmem h, kpm h) \<subseteq> pm_used (kmem h', kpm h)"
    and descs: "\<And>c. c \<in> descs fb hs \<Longrightarrow> load (kmem h') c 32 = load (kmem h) c 32"
    and free: "\<And>d bk x. d < 9 \<Longrightarrow> bk \<in> set (hs ! d) \<Longrightarrow> x \<in> set (bfree bk) \<Longrightarrow>
      load (kmem h') x 8 = load (kmem h) x 8"
  shows "heap_ok h' fb hs"
proof -
  have fbp: "path (desc_next (kmem h')) (free_bucket_chain h') fb"
    unfolding eq by (rule path_next_frame [OF heap_fb [OF ok]]) (simp add: descs descs_fb)
  have ch: "path (desc_next (kmem h')) (snd (bucket_dir h' ! d)) (map bdesc (hs ! d))" if "d < 9" for d
    unfolding eq by (rule path_next_frame [OF heap_chain [OF ok that]]) (use descs heap_desc_in [OF ok that] in auto)
  have bok: "bucket_ok (kmem h') (bsize d) bk" if "d < 9" "bk \<in> set (hs ! d)" for d bk
    by (rule bucket_ok_frame [OF heap_bucket [OF ok that] descs [OF heap_desc_in [OF ok that]]])
      (use free [OF that] in blast)
  have d: "\<forall>b \<in> set fb \<union> set (map bdesc (concat hs)).
      32 dvd unat b \<and> page_of b \<in> pm_used (kmem h', kpm h) - bpage ` set (concat hs)"
    unfolding list.set_map descs_def [symmetric] using heap_desc [OF ok] used by blast
  have p: "bpage ` set (concat hs) \<subseteq> pm_used (kmem h', kpm h)"
    using heap_page(3) [OF ok] used by blast
  show ?thesis
    unfolding heap_ok_def using fbp ch bok d p heap_len(1) [OF ok] heap_pm(2) [OF ok] heap_sizes [OF ok]
      heap_distinct [OF ok] pm_invar_mem [OF heap_pm(1) [OF ok]]
    by (simp add: eq del: set_concat)
qed

lemma heap_free_block_in:
  assumes "heap_ok h fb hs" "d < 9" "bk \<in> set (hs ! d)" "x \<in> set (bfree bk)"
  shows "x \<in> set (blocks (bpage bk) (bsize d))"
  using heap_bucket [OF assms(1-3)] assms(4) by (auto simp: bucket_ok_def)

lemma heap_ok_outside:
  assumes ok: "heap_ok h fb hs" and fr: "frames (kmem h) m' rs"
    and rs: "\<And>a n. (a, n) \<in> set rs \<Longrightarrow> apart (fst (pm_range (kpm h))) (snd (pm_range (kpm h))) a n"
      "\<And>a n c. (a, n) \<in> set rs \<Longrightarrow> c \<in> descs fb hs \<Longrightarrow> apart c 32 a n"
      "\<And>a n d bk x. (a, n) \<in> set rs \<Longrightarrow> d < 9 \<Longrightarrow> bk \<in> set (hs ! d) \<Longrightarrow> x \<in> set (bfree bk) \<Longrightarrow> apart x 8 a n"
  shows "heap_ok (h\<lparr>kmem := m'\<rparr>) fb hs"
proof (rule heap_ok_mono [OF ok])
  show "pm_used (kmem h, kpm h) \<subseteq> pm_used (kmem (h\<lparr>kmem := m'\<rparr>), kpm h)"
    using heap_pm_frame(1) [OF ok fr] rs(1) by auto
  show "load (kmem (h\<lparr>kmem := m'\<rparr>)) c 32 = load (kmem h) c 32" if "c \<in> descs fb hs" for c
    using frames_load [OF fr, of c 32] rs(2) [OF _ that] by auto
  show "load (kmem (h\<lparr>kmem := m'\<rparr>)) x 8 = load (kmem h) x 8"
    if "d < 9" "bk \<in> set (hs ! d)" "x \<in> set (bfree bk)" for d bk x
    using frames_load [OF fr, of x 8] rs(3) [OF _ that] by auto
qed simp_all

section \<open>Pages\<close>

lemma heap_get_page_ok:
  assumes ok: "heap_ok h fb hs" and get: "heap_get_page h = (h', p)"
  shows "p = 0 \<Longrightarrow> h' = h \<and> pm_pages (kmem h, kpm h) \<subseteq> pm_used (kmem h, kpm h)"
    and "h' = h\<lparr>kmem := kmem h'\<rparr>" "frames (kmem h) (kmem h') [pm_range (kpm h)]"
    and "p \<noteq> 0 \<Longrightarrow> p \<in> pm_pages (kmem h, kpm h) - pm_used (kmem h, kpm h) \<and>
      pm_used (kmem h', kpm h) = insert p (pm_used (kmem h, kpm h)) \<and>
      pm_pages (kmem h', kpm h) = pm_pages (kmem h, kpm h)"
    and "heap_ok h' fb hs"
proof -
  note inv = heap_pm(1) [OF ok]
  obtain m' pm' where g: "get_free_page (kmem h, kpm h) = ((m', pm'), p)" "h' = h\<lparr>kmem := m', kpm := pm'\<rparr>"
    using get by (auto simp: heap_get_page_def split: prod.splits)
  have pm': "pm' = kpm h" and fr: "frames (kmem h) m' [pm_range (kpm h)]"
    using get_free_page_frame [OF inv g(1)] by auto
  then show h': "h' = h\<lparr>kmem := kmem h'\<rparr>" "frames (kmem h) (kmem h') [pm_range (kpm h)]"
    using g by simp_all
  show z: "p = 0 \<Longrightarrow> h' = h \<and> pm_pages (kmem h, kpm h) \<subseteq> pm_used (kmem h, kpm h)"
    using get_free_page_none [OF inv, of "(m', pm')"] g by auto
  show nz: "p \<noteq> 0 \<Longrightarrow> p \<in> pm_pages (kmem h, kpm h) - pm_used (kmem h, kpm h) \<and>
      pm_used (kmem h', kpm h) = insert p (pm_used (kmem h, kpm h)) \<and>
      pm_pages (kmem h', kpm h) = pm_pages (kmem h, kpm h)"
    using get_free_page_used [OF inv g(1)] g pm' by simp
  show "heap_ok h' fb hs"
  proof (rule heap_ok_mono [OF ok])
    show "kpm h' = kpm h" "bucket_dir h' = bucket_dir h" "free_bucket_chain h' = free_bucket_chain h"
      using g(2) pm' by simp_all
    show "pm_used (kmem h, kpm h) \<subseteq> pm_used (kmem h', kpm h)" using z nz by (cases "p = 0") auto
    show "load (kmem h') c 32 = load (kmem h) c 32" if "c \<in> descs fb hs" for c
      using heap_bitmap_desc(1) [OF ok that] by (intro frames_load [OF h'(2)]) (simp add: pm_range_def)
    show "load (kmem h') x 8 = load (kmem h) x 8"
      if "d < 9" "bk \<in> set (hs ! d)" "x \<in> set (bfree bk)" for d bk x
      using heap_bitmap_block(1) [OF ok that(1,2) heap_free_block_in [OF ok that], of 8] bsize_dvd(2) [OF that(1)]
      by (intro frames_load [OF h'(2)]) (simp add: pm_range_def)
  qed
qed

text \<open>A page that holds no descriptor and no blocks.\<close>

definition unused_page :: "'x kheap_scheme \<Rightarrow> u64 list \<Rightarrow> bucket list list \<Rightarrow> u64 \<Rightarrow> bool" where
  "unused_page h fb hs p \<longleftrightarrow> p \<in> pm_pages (kmem h, kpm h) \<and>
     p \<notin> page_of ` descs fb hs \<and> p \<notin> bpage ` set (concat hs)"

lemma free_page_unused:
  assumes "heap_ok h fb hs" "p \<in> pm_pages (kmem h, kpm h) - pm_used (kmem h, kpm h)"
  shows "unused_page h fb hs p"
  using assms heap_desc(2) [OF assms(1)] heap_page(3) [OF assms(1)] by (auto simp: unused_page_def simp del: set_concat)

lemma unused_page_apart:
  assumes ok: "heap_ok h fb hs" and p: "unused_page h fb hs p"
  shows "apart (fst (pm_range (kpm h))) (snd (pm_range (kpm h))) p 4096"
    and "c \<in> descs fb hs \<Longrightarrow> apart c 32 p 4096"
    and "d < 9 \<Longrightarrow> bk \<in> set (hs ! d) \<Longrightarrow> x \<in> set (blocks (bpage bk) (bsize d)) \<Longrightarrow> n \<le> bsize d \<Longrightarrow> 0 < n \<Longrightarrow> apart x n p 4096"
proof -
  have pp: "p \<in> pm_pages (kmem h, kpm h)" using p by (simp add: unused_page_def)
  note al = page_aligned [OF heap_pm [OF ok] pp]
  show "apart (fst (pm_range (kpm h))) (snd (pm_range (kpm h))) p 4096"
    using apart_bitmap [OF heap_pm [OF ok] pp] by (simp add: apart_commute)
  show "apart c 32 p 4096" if "c \<in> descs fb hs"
    using heap_desc(1) [OF ok that] p that al by (intro apart_desc_page) (auto simp: unused_page_def)
  show "apart x n p 4096" if B: "d < 9" "bk \<in> set (hs ! d)" "x \<in> set (blocks (bpage bk) (bsize d))" "n \<le> bsize d" "0 < n"
  proof -
    note bk = heap_bucket_in [OF ok B(1,2)]
    obtain i where i: "x = bpage bk + of_nat i" "i + bsize d \<le> 4096"
      using block_in_page [OF B(3) bsize_dvd(1) [OF B(1)]] by blast
    have "apart (bpage bk) 4096 p 4096"
      using heap_page(1) [OF ok bk] al p bk by (intro apart_pages) (auto simp: unused_page_def)
    then have "apart (bpage bk + of_nat i) n (p + of_nat 0) 4096" using i B by (intro apart_within) auto
    then show ?thesis using i(1) by simp
  qed
qed

lemma heap_ok_unused_page:
  assumes ok: "heap_ok h fb hs" and p: "unused_page h fb hs p" and fr: "frames (kmem h) m' [(p, 4096)]"
  shows "heap_ok (h\<lparr>kmem := m'\<rparr>) fb hs"
proof (rule heap_ok_outside [OF ok fr])
  fix a x :: u64 and n d :: nat and bk :: bucket
  assume *: "(a, n) \<in> set [(p, 4096)]" "d < 9" "bk \<in> set (hs ! d)" "x \<in> set (bfree bk)"
  then show "apart x 8 a n"
    using unused_page_apart(3) [OF ok p *(2,3) heap_free_block_in [OF ok *(2-4)], of 8] bsize_dvd(2) [OF *(2)] by simp
qed (use unused_page_apart [OF ok p] in auto)

section \<open>The chain of unused descriptors\<close>

lemma path_seq:
  assumes "\<And>j. i \<le> j \<Longrightarrow> Suc j < n \<Longrightarrow> nxt (f j) = f (Suc j)" "nxt (f (n - 1)) = 0"
    "\<And>j. j < n \<Longrightarrow> f j \<noteq> 0" "i < n"
  shows "path nxt (f i) (map f [i..<n])"
  using assms
proof (induction "n - i" arbitrary: i)
  case (Suc k)
  show ?case
  proof (cases "Suc i = n")
    case True
    then have "[i..<n] = [i]" by (simp add: upt_rec)
    then show ?thesis using Suc.prems True by auto
  next
    case False
    then have "path nxt (f (Suc i)) (map f [Suc i..<n])" using Suc by (intro Suc.hyps) auto
    moreover have "[i..<n] = i # [Suc i..<n]" using Suc.prems by (simp add: upt_rec)
    ultimately show ?thesis using Suc.prems False by simp
  qed
qed simp

definition desc_at :: "u64 \<Rightarrow> nat \<Rightarrow> u64" where
  "desc_at fc i = fc + of_nat (32 * i)"

lemma desc_at_facts:
  assumes "4096 dvd unat fc" "unat fc + 4096 \<le> 2 ^ 32" "i < 128"
  shows "unat (desc_at fc i) = unat fc + 32 * i" "32 dvd unat (desc_at fc i)" "page_of (desc_at fc i) = fc"
proof -
  show u: "unat (desc_at fc i) = unat fc + 32 * i"
    using assms unat_block [of "desc_at fc i" fc "32 * i"] by (simp add: desc_at_def)
  have "32 dvd unat fc" using assms(1) dvd_trans [of 32 4096] by auto
  then show "32 dvd unat (desc_at fc i)" using u by simp
  show "page_of (desc_at fc i) = fc" unfolding desc_at_def using assms by (intro page_of_offset) auto
qed

lemma desc_at_inj:
  assumes "4096 dvd unat fc" "unat fc + 4096 \<le> 2 ^ 32" "i < 128" "j < 128" "i \<noteq> j"
  shows "desc_at fc i \<noteq> desc_at fc j" "apart (desc_at fc i) 32 (desc_at fc j) 32"
proof -
  show ne: "desc_at fc i \<noteq> desc_at fc j"
    using desc_at_facts(1) [OF assms(1-3)] desc_at_facts(1) [OF assms(1,2,4)] assms(5) by (metis add_left_cancel
      mult_cancel1 zero_neq_numeral)
  show "apart (desc_at fc i) 32 (desc_at fc j) 32"
    using desc_at_facts(2) [OF assms(1-3)] desc_at_facts(2) [OF assms(1,2,4)] ne by (intro apart_descs)
qed

lemma link_descs_frame: "i + n \<le> 128 \<Longrightarrow> frames m (link_descs m fc i n) [(fc, 4096)]"
proof (induction n arbitrary: m i)
  case (Suc n)
  let ?m = "wr64 m (fc + 32 * of_nat i + 8) (fc + 32 * of_nat (Suc i))"
  have "frames m ?m [(fc, 4096)]"
    using frames_wr64_in [of "32 * i + 8" 4096 m fc] Suc.prems by (simp add: add.assoc)
  moreover have "frames ?m (link_descs ?m fc (Suc i) n) [(fc, 4096)]" using Suc by simp
  ultimately show ?case by (auto intro: frames_trans_same)
qed simp

lemma link_descs_next:
  assumes "4096 dvd unat fc" "unat fc + 4096 \<le> 2 ^ 32" "i + n \<le> 128"
  shows "j < 128 \<Longrightarrow> desc_next (link_descs m fc i n) (desc_at fc j) =
    (if i \<le> j \<and> j < i + n then desc_at fc (Suc j) else desc_next m (desc_at fc j))"
  using assms(3)
proof (induction n arbitrary: m i)
  case (Suc n)
  let ?m = "wr64 m (fc + 32 * of_nat i + 8) (fc + 32 * of_nat (Suc i))"
  have e: "fc + 32 * of_nat i + 8 = desc_at fc i + 8" "fc + 32 * of_nat (Suc i) = desc_at fc (Suc i)"
    by (simp_all add: desc_at_def)
  have "desc_next ?m (desc_at fc j) = (if j = i then desc_at fc (Suc i) else desc_next m (desc_at fc j))"
  proof (cases "j = i")
    case False
    then have "apart (desc_at fc j + of_nat 8) 8 (desc_at fc i + of_nat 8) 8"
      using Suc.prems desc_at_inj(2) [OF assms(1,2), of j i] by (intro apart_within) auto
    then show ?thesis unfolding e using False by (simp add: mem_simps)
  next
    case True
    then show ?thesis unfolding e by (simp add: mem_simps)
  qed
  moreover have "desc_next (link_descs ?m fc (Suc i) n) (desc_at fc j) =
      (if Suc i \<le> j \<and> j < Suc i + n then desc_at fc (Suc j) else desc_next ?m (desc_at fc j))"
    using Suc by simp
  ultimately show ?case by auto
qed auto

lemma construct_ok:
  assumes ok: "heap_ok h [] hs" and con: "construct_free_bucket_chain h = (h', fc)" and nz: "fc \<noteq> 0"
  shows "heap_ok (h'\<lparr>free_bucket_chain := fc\<rparr>) (map (desc_at fc) [0..<128]) hs"
    and "h' = h\<lparr>kmem := kmem h'\<rparr>" "frames (kmem h) (kmem h') [pm_range (kpm h), (fc, 4096)]"
    and "fc \<in> pm_pages (kmem h, kpm h) - pm_used (kmem h, kpm h)"
    and "pm_used (kmem h', kpm h) = insert fc (pm_used (kmem h, kpm h))"
proof -
  obtain h1 where get: "heap_get_page h = (h1, fc)"
    and h': "h' = h1\<lparr>kmem := wr64 (link_descs (kmem h1) fc 0 127) (fc + 32 * 127 + 8) 0\<rparr>"
    using con by (auto simp: construct_free_bucket_chain_def split: prod.splits)
  note g = heap_get_page_ok [OF ok get]
  note new = g(4) [OF nz]
  let ?m = "link_descs (kmem h1) fc 0 127" and ?m' = "kmem h'"
  have h1: "kpm h1 = kpm h" "bucket_dir h1 = bucket_dir h" by (subst g(2), simp)+
  show p: "fc \<in> pm_pages (kmem h, kpm h) - pm_used (kmem h, kpm h)" using new by blast
  then have al: "4096 dvd unat fc" "unat fc + 4096 \<le> 2 ^ 32" using page_aligned [OF heap_pm [OF ok]] by auto
  have "unused_page h [] hs fc" using free_page_unused [OF ok p] .
  then have un: "unused_page h1 [] hs fc" using new h1 by (simp add: unused_page_def)
  have "frames (kmem h1) ?m' [(fc, 4096)]"
    using frames_trans_same [OF link_descs_frame [of 0 127 "kmem h1" fc]]
      frames_wr64_in [of "32 * 127 + 8" 4096 ?m fc 0] h' by (simp add: add.commute)
  note fr = this
  obtain m1 where m1: "h1 = h\<lparr>kmem := m1\<rparr>" using g(2) by blast
  show h'': "h' = h\<lparr>kmem := kmem h'\<rparr>" by (simp add: h' m1)
  show "frames (kmem h) ?m' [pm_range (kpm h), (fc, 4096)]" using frames_trans [OF g(3) fr] by simp
  have ok': "heap_ok h' [] hs" using heap_ok_unused_page [OF g(5) un fr] h' by simp
  have pm: "kpm h' = kpm h" by (simp add: h' m1)
  show used: "pm_used (?m', kpm h) = insert fc (pm_used (kmem h, kpm h))"
    using heap_pm_frame(1) [OF g(5) fr] unused_page_apart(1) [OF g(5) un] new h1 by simp
  have nx: "desc_next ?m' (desc_at fc j) = (if Suc j < 128 then desc_at fc (Suc j) else 0)" if "j < 128" for j
  proof (cases "j = 127")
    case True
    then show ?thesis by (simp add: h' desc_at_def mem_simps)
  next
    case False
    then have "apart (desc_at fc j + of_nat 8) 8 (desc_at fc 127 + of_nat 8) 8"
      using that desc_at_inj(2) [OF al, of j 127] by (intro apart_within) auto
    then show ?thesis using that False link_descs_next [OF al, of 0 127 j] by (simp add: h' mem_simps desc_at_def)
  qed
  have nonnull: "desc_at fc j \<noteq> 0" if "j < 128" for j
    using desc_at_facts(1) [OF al that] nz by (auto simp: unat_eq_zero)
  have "path (desc_next ?m') (desc_at fc 0) (map (desc_at fc) [0..<128])"
    using nx nonnull by (intro path_seq) auto
  then have pth: "path (desc_next ?m') fc (map (desc_at fc) [0..<128])" by (simp add: desc_at_def)
  have "distinct (map (desc_at fc) [0..<128])"
    using desc_at_inj(1) [OF al] by (force simp: distinct_map inj_on_def)
  moreover have "desc_at fc i \<notin> bdesc ` set (concat hs)" if "i < 128" for i
  proof -
    have "fc \<notin> page_of ` bdesc ` set (concat hs)"
      using un by (simp add: unused_page_def descs_def del: set_concat)
    then show ?thesis using desc_at_facts(3) [OF al that] by (metis imageI)
  qed
  then have "\<forall>x \<in> desc_at fc ` {0..<128}. x \<notin> bdesc ` set (concat hs)" by (simp del: set_concat)
  then have "set (map (desc_at fc) [0..<128]) \<inter> set (map bdesc (concat hs)) = {}"
    unfolding list.set_map set_upt by blast
  moreover have "distinct (map bdesc (concat hs))" using heap_distinct(1) [OF ok] by simp
  ultimately have "distinct (map (desc_at fc) [0..<128] @ map bdesc (concat hs))"
    by (simp only: distinct_append)
  moreover have "\<forall>b \<in> set (map (desc_at fc) [0..<128]) \<union> set (map bdesc (concat hs)).
        32 dvd unat b \<and> page_of b \<in> pm_used (?m', kpm h) - bpage ` set (concat hs)"
  proof -
    have "32 dvd unat b \<and> page_of b \<in> pm_used (?m', kpm h) - bpage ` set (concat hs)"
      if b: "b \<in> set (map (desc_at fc) [0..<128])" for b
    proof -
      obtain i where "i < 128" "b = desc_at fc i" using b by auto
      moreover have "fc \<notin> bpage ` set (concat hs)" using un unfolding unused_page_def by blast
      ultimately show ?thesis using desc_at_facts(2,3) [OF al] used by (simp del: set_concat)
    qed
    moreover have "32 dvd unat b \<and> page_of b \<in> pm_used (?m', kpm h) - bpage ` set (concat hs)"
      if "b \<in> set (map bdesc (concat hs))" for b
      using that heap_desc [OF ok', of b] pm by (simp add: descs_def del: set_concat)
    ultimately show ?thesis by blast
  qed
  ultimately show "heap_ok (h'\<lparr>free_bucket_chain := fc\<rparr>) (map (desc_at fc) [0..<128]) hs"
    using ok' pth pm unfolding heap_ok_def by (simp del: set_concat)
qed

section \<open>A descriptor between the chains\<close>

definition loose :: "'x kheap_scheme \<Rightarrow> u64 list \<Rightarrow> bucket list list \<Rightarrow> u64 \<Rightarrow> bool" where
  "loose h fb hs c \<longleftrightarrow> c \<noteq> 0 \<and> 32 dvd unat c \<and> c \<notin> descs fb hs \<and>
     page_of c \<in> pm_used (kmem h, kpm h) \<and> page_of c \<notin> bpage ` set (concat hs)"

lemma descs_Cons: "descs (c # fb) hs = insert c (descs fb hs)"
  by (simp add: descs_def)

lemma pop_desc:
  assumes ok: "heap_ok h (c # fb) hs"
  shows "free_bucket_chain h = c" "heap_ok (h\<lparr>free_bucket_chain := desc_next (kmem h) c\<rparr>) fb hs"
    "loose h fb hs c"
proof -
  have pth: "path (desc_next (kmem h)) (free_bucket_chain h) (c # fb)" using heap_fb [OF ok] .
  then show "free_bucket_chain h = c" by simp
  show "heap_ok (h\<lparr>free_bucket_chain := desc_next (kmem h) c\<rparr>) fb hs"
    using ok pth unfolding heap_ok_def by (simp del: set_concat)
  have "c \<notin> descs fb hs" using heap_distinct(1) [OF ok] by (auto simp: descs_def simp del: set_concat)
  then show "loose h fb hs c"
    using heap_desc [OF ok, of c] pth by (simp add: loose_def descs_Cons del: set_concat)
qed

lemma loose_apart:
  assumes ok: "heap_ok h fb hs" and c: "loose h fb hs c"
  shows "apart (fst (pm_range (kpm h))) (snd (pm_range (kpm h))) c 32"
    and "b \<in> descs fb hs \<Longrightarrow> apart b 32 c 32"
    and "d < 9 \<Longrightarrow> bk \<in> set (hs ! d) \<Longrightarrow> x \<in> set (blocks (bpage bk) (bsize d)) \<Longrightarrow> n \<le> bsize d \<Longrightarrow> apart x n c 32"
    and "4096 dvd unat p \<Longrightarrow> page_of c \<noteq> p \<Longrightarrow> apart c 32 p 4096"
proof -
  have al: "32 dvd unat c" using c by (simp add: loose_def)
  have "page_of c \<in> pm_pages (kmem h, kpm h)"
    using c pm.used_pages [OF heap_pm(1) [OF ok]] by (auto simp: loose_def)
  note pp = page_aligned [OF heap_pm [OF ok] this]
  obtain i where i: "c = page_of c + of_nat i" "i + 32 \<le> 4096" using page_of_decomp [OF al] by blast
  have "unat c = unat (page_of c) + i" using i pp by (intro unat_block) auto
  then show "apart (fst (pm_range (kpm h))) (snd (pm_range (kpm h))) c 32"
    using pp i heap_pm(2) [OF ok] by (intro apart_below) (auto simp: pm_layout_def pm_range_def)
  show "apart b 32 c 32" if "b \<in> descs fb hs"
    using heap_desc(1) [OF ok that] al that c by (intro apart_descs) (auto simp: loose_def)
  show "apart c 32 p 4096" if "4096 dvd unat p" "page_of c \<noteq> p"
    using al that by (rule apart_desc_page)
  show "apart x n c 32" if B: "d < 9" "bk \<in> set (hs ! d)" "x \<in> set (blocks (bpage bk) (bsize d))" "n \<le> bsize d"
  proof -
    note bk = heap_bucket_in [OF ok B(1,2)]
    have "page_of c \<noteq> bpage bk" using c bk unfolding loose_def by (metis imageI)
    then have "apart c 32 x (bsize d)" using al heap_page(1) [OF ok bk] B by (intro apart_desc_block)
    then have "apart c 32 x n" by (rule apart_mono) (use B(4) in auto)
    then show ?thesis by (simp add: apart_commute)
  qed
qed

lemma heap_ok_loose:
  assumes ok: "heap_ok h fb hs" and c: "loose h fb hs c" and fr: "frames (kmem h) m' [(c, 32)]"
  shows "heap_ok (h\<lparr>kmem := m'\<rparr>) fb hs" "loose (h\<lparr>kmem := m'\<rparr>) fb hs c"
    "pm_used (m', kpm h) = pm_used (kmem h, kpm h)" "pm_pages (m', kpm h) = pm_pages (kmem h, kpm h)"
proof -
  show "heap_ok (h\<lparr>kmem := m'\<rparr>) fb hs"
  proof (rule heap_ok_outside [OF ok fr])
    fix a x :: u64 and n d :: nat and bk :: bucket
    assume *: "(a, n) \<in> set [(c, 32)]" "d < 9" "bk \<in> set (hs ! d)" "x \<in> set (bfree bk)"
    then show "apart x 8 a n"
      using loose_apart(3) [OF ok c *(2,3) heap_free_block_in [OF ok *(2-4)], of 8] bsize_dvd(2) [OF *(2)] by simp
  qed (use loose_apart(1,2) [OF ok c] in auto)
  show "pm_used (m', kpm h) = pm_used (kmem h, kpm h)" "pm_pages (m', kpm h) = pm_pages (kmem h, kpm h)"
    using heap_pm_frame [OF ok fr] loose_apart(1) [OF ok c] by auto
  then show "loose (h\<lparr>kmem := m'\<rparr>) fb hs c" using c by (simp add: loose_def)
qed

lemma concat_split:
  assumes "d < length hs"
  shows "\<exists>A C. concat hs = A @ hs ! d @ C \<and> (\<forall>l. concat (hs[d := l]) = A @ l @ C)"
proof (intro exI conjI allI)
  show "concat hs = concat (take d hs) @ hs ! d @ concat (drop (Suc d) hs)"
    by (subst id_take_nth_drop [OF assms]) simp
  show "concat (hs[d := l]) = concat (take d hs) @ l @ concat (drop (Suc d) hs)" for l
    using assms by (simp add: upd_conv_take_nth_drop)
qed

lemma push_bucket:
  assumes ok: "heap_ok h fb hs" and c: "loose h fb hs c" and d: "d < 9"
    and pg: "unused_page h fb hs pg" "pg \<in> pm_used (kmem h, kpm h)" "page_of c \<noteq> pg"
    and bok: "bucket_ok (kmem h) (bsize d) (c, pg, fl)"
    and nxt: "desc_next (kmem h) c = snd (bucket_dir h ! d)"
  shows "heap_ok (h\<lparr>bucket_dir := (bucket_dir h)[d := (fst (bucket_dir h ! d), c)]\<rparr>) fb
    (hs[d := (c, pg, fl) # hs ! d])"
proof -
  let ?h = "h\<lparr>bucket_dir := (bucket_dir h)[d := (fst (bucket_dir h ! d), c)]\<rparr>" and ?hs = "hs[d := (c, pg, fl) # hs ! d]"
  have len: "d < length hs" "d < length (bucket_dir h)" using d heap_len [OF ok] by auto
  obtain A C where AC: "concat hs = A @ hs ! d @ C" "concat ?hs = A @ ((c, pg, fl) # hs ! d) @ C"
    using concat_split [OF len(1)] by blast
  have cs: "set (concat ?hs) = insert (c, pg, fl) (set (concat hs))" unfolding AC by auto
  have cn: "c \<notin> set fb" "c \<notin> bdesc ` set (concat hs)" using c unfolding loose_def descs_def by blast+
  have pn: "pg \<notin> bpage ` set (concat hs)" using pg(1) unfolding unused_page_def by blast
  have dist: "distinct (fb @ map bdesc (concat ?hs))" "distinct (map bpage (concat ?hs))"
    using heap_distinct [OF ok] cn pn unfolding AC by auto
  have b1: "path (desc_next (kmem h)) (snd (bucket_dir ?h ! e)) (map bdesc (?hs ! e))" if "e < 9" for e
    using heap_chain [OF ok that] nxt c d len that by (cases "e = d") (auto simp: loose_def nth_list_update)
  have b2: "bucket_ok (kmem h) (bsize e) bk" if "e < 9" "bk \<in> set (?hs ! e)" for e bk
    using heap_bucket [OF ok that(1), of bk] bok that len by (cases "e = d") (auto simp: nth_list_update)
  have "map fst (bucket_dir ?h) = map fst (bucket_dir h)"
    using len by (simp add: map_update list_update_id [of "map fst (bucket_dir h)" d, simplified nth_map [OF len(2)]])
  then have sizes: "map fst (bucket_dir ?h) = map fst g_bucket_dir" using heap_sizes [OF ok] by simp
  have desc: "\<forall>b \<in> set fb \<union> set (map bdesc (concat ?hs)).
      32 dvd unat b \<and> page_of b \<in> pm_used (kmem h, kpm h) - bpage ` set (concat ?hs)"
  proof
    fix b
    assume "b \<in> set fb \<union> set (map bdesc (concat ?hs))"
    then have "b = c \<or> b \<in> descs fb hs" unfolding list.set_map cs descs_def by auto
    then have "32 dvd unat b" "page_of b \<in> pm_used (kmem h, kpm h)" "page_of b \<notin> bpage ` set (concat hs)" "page_of b \<noteq> pg"
      using c heap_desc [OF ok] pg(1,3) unfolding loose_def unused_page_def by blast+
    then show "32 dvd unat b \<and> page_of b \<in> pm_used (kmem h, kpm h) - bpage ` set (concat ?hs)"
      unfolding cs by simp
  qed
  have pages: "bpage ` set (concat ?hs) \<subseteq> pm_used (kmem h, kpm h)"
    unfolding cs using heap_page(3) [OF ok] pg(2) by auto
  show ?thesis
    unfolding heap_ok_def using dist b1 b2 sizes desc pages heap_fb [OF ok] heap_pm [OF ok] heap_len [OF ok]
    by (simp del: set_concat concat.simps)
qed

section \<open>Cutting a page into blocks\<close>

lemma block_low:
  assumes "d < 9" "unat pg + 4096 \<le> 2 ^ 32" "i < 4096 div bsize d"
  shows "ucast (ucast pg + of_nat i * of_nat (bsize d) :: u32) = block pg (bsize d) i"
    "unat (block pg (bsize d) i) = unat pg + bsize d * i" "bsize d * i + bsize d \<le> 4096"
    "ucast pg + of_nat i * of_nat (bsize d) = (ucast (block pg (bsize d) i) :: u32)"
proof -
  have "Suc i * bsize d \<le> 4096 div bsize d * bsize d" using assms(3) by (intro mult_le_mono1) simp
  also have "\<dots> = 4096" using bsize_dvd(1) [OF assms(1)] by simp
  finally show le: "bsize d * i + bsize d \<le> 4096" by (simp add: algebra_simps)
  have u: "unat (block pg (bsize d) i) = unat pg + bsize d * i"
    using le assms(2) bsize_dvd(2) [OF assms(1)] by (intro unat_block) (auto simp: block_def)
  then show "unat (block pg (bsize d) i) = unat pg + bsize d * i" .
  show low: "ucast pg + of_nat i * of_nat (bsize d) = (ucast (block pg (bsize d) i) :: u32)"
  proof -
    have "(ucast pg :: u32) = of_nat (unat pg)" by simp
    then have "ucast pg + of_nat i * of_nat (bsize d) = (of_nat (unat pg + bsize d * i) :: u32)"
      by (simp add: mult.commute)
    also have "\<dots> = of_nat (unat (block pg (bsize d) i))" using u by simp
    also have "\<dots> = ucast (block pg (bsize d) i)" by simp
    finally show ?thesis .
  qed
  have "unat (block pg (bsize d) i) < 2 ^ 32" using u le assms(2) bsize_dvd(2) [OF assms(1)] by simp
  then show "ucast (ucast pg + of_nat i * of_nat (bsize d) :: u32) = block pg (bsize d) i"
    unfolding low by (rule ucast_ucast_low)
qed

lemma link_blocks_ok:
  assumes d: "d < 9" and pg: "4096 dvd unat pg" "unat pg + 4096 \<le> 2 ^ 32"
    and c: "apart c 32 pg 4096" and sz: "desc_blockSize m c = of_nat (bsize d)" and n: "i + n < 4096 div bsize d"
  shows "frames m (link_blocks m c (ucast pg) i n) [(pg, 4096)] \<and> (\<forall>j < 4096 div bsize d.
      rd32 (link_blocks m c (ucast pg) i n) (block pg (bsize d) j) =
        (if i \<le> j \<and> j < i + n then ucast (block pg (bsize d) (Suc j)) else rd32 m (block pg (bsize d) j)) \<and>
      rd32 (link_blocks m c (ucast pg) i n) (block pg (bsize d) j + 4) = rd32 m (block pg (bsize d) j + 4))"
  using sz n
proof (induction n arbitrary: m i)
  case 0
  then show ?case by auto
next
  case (Suc n)
  let ?b = "block pg (bsize d)" and ?N = "4096 div bsize d"
  let ?m = "wr32 m (?b i) (ucast (?b (Suc i)))"
  have iN: "i < ?N" "Suc i < ?N" and bd: "8 \<le> bsize d" using Suc.prems bsize_dvd(2) [OF d] by auto
  have step: "link_blocks m c (ucast pg) i (Suc n) = link_blocks ?m c (ucast pg) (Suc i) n"
    using Suc.prems(1) block_low(1) [OF d pg(2) iN(1)] block_low(4) [OF d pg(2) iN(2)]
    by (simp only: link_blocks.simps)
  have fr1: "frames m ?m [(pg, 4096)]"
    using frames_wr32_in [of "bsize d * i" 4096 m pg] block_low(3) [OF d pg(2) iN(1)] bd
    by (simp add: block_def)
  have "load ?m c 32 = load m c 32" using c by (intro frames_load [OF fr1]) simp
  then have sz': "desc_blockSize ?m c = of_nat (bsize d)"
    using rd32_part [of ?m c 32 m 28] Suc.prems(1) by simp
  have inb: "?b j \<in> set (blocks pg (bsize d))" if "j < ?N" for j using that by (simp add: blocks_def)
  have ap: "apart (?b j) 8 (?b i) 4" if "j < ?N" "j \<noteq> i" for j
  proof -
    have "?b j \<noteq> ?b i" using distinct_blocks [OF d pg(2)] that iN
      by (auto simp: blocks_def distinct_map inj_on_def)
    then have "apart (?b j) (bsize d) (?b i) (bsize d)"
      using pg inb [OF that(1)] inb [OF iN(1)] d by (intro apart_block_block) auto
    then show ?thesis by (rule apart_mono) (use bd in auto)
  qed
  have "load ?m (?b j) 8 = load m (?b j) 8" if "j < ?N" "j \<noteq> i" for j
    using ap [OF that] by (intro frames_load [OF frames_wr32]) simp
  then have oth: "rd32 ?m (?b j) = rd32 m (?b j)" "rd32 ?m (?b j + 4) = rd32 m (?b j + 4)"
    if "j < ?N" "j \<noteq> i" for j
    using that rd32_part [of ?m "?b j" 8 m 0] rd32_part [of ?m "?b j" 8 m 4] by simp_all
  have this_i: "rd32 ?m (?b i) = ucast (?b (Suc i))" "rd32 ?m (?b i + 4) = rd32 m (?b i + 4)"
    by (simp_all add: mem_simps apart_def)
  have IH: "frames ?m (link_blocks ?m c (ucast pg) (Suc i) n) [(pg, 4096)] \<and> (\<forall>j < ?N.
      rd32 (link_blocks ?m c (ucast pg) (Suc i) n) (?b j) =
        (if Suc i \<le> j \<and> j < Suc i + n then ucast (?b (Suc j)) else rd32 ?m (?b j)) \<and>
      rd32 (link_blocks ?m c (ucast pg) (Suc i) n) (?b j + 4) = rd32 ?m (?b j + 4))"
    using Suc.prems(2) by (intro Suc.IH [OF sz']) simp
  have "rd32 (link_blocks ?m c (ucast pg) (Suc i) n) (?b j) =
        (if i \<le> j \<and> j < i + Suc n then ucast (?b (Suc j)) else rd32 m (?b j)) \<and>
      rd32 (link_blocks ?m c (ucast pg) (Suc i) n) (?b j + 4) = rd32 m (?b j + 4)" if "j < ?N" for j
    using IH oth [OF that] this_i that by (cases "j = i") auto
  then show ?case unfolding step using frames_trans_same [OF fr1] IH by blast
qed

section \<open>What the clients see\<close>

text \<open>At most \<open>n\<close> elements of \<open>V\<close> are not in \<open>U\<close>.\<close>

definition grows :: "nat \<Rightarrow> 'a set \<Rightarrow> 'a set \<Rightarrow> bool" where
  "grows n U V \<longleftrightarrow> (\<exists>P. finite P \<and> card P \<le> n \<and> V \<subseteq> U \<union> P)"

lemma grows_refl [simp]: "grows n U U"
  by (auto simp: grows_def intro: exI [of _ "{}"])

lemma grows_insert [simp]: "grows (Suc n) U (insert x U)"
  by (auto simp: grows_def intro: exI [of _ "{x}"])

lemma grows_trans: "grows n U V \<Longrightarrow> grows k V W \<Longrightarrow> grows (n + k) U W"
proof -
  assume "grows n U V" "grows k V W"
  then obtain P Q where "finite P" "card P \<le> n" "V \<subseteq> U \<union> P" "finite Q" "card Q \<le> k" "W \<subseteq> V \<union> Q"
    by (auto simp: grows_def)
  then have "finite (P \<union> Q)" "card (P \<union> Q) \<le> n + k" "W \<subseteq> U \<union> (P \<union> Q)"
    using card_Un_le [of P Q] by auto
  then show ?thesis unfolding grows_def by blast
qed

lemma grows_card:
  assumes "grows n U V" "finite A"
  shows "card (A - U) \<le> card (A - V) + n"
proof -
  obtain P where P: "finite P" "card P \<le> n" "V \<subseteq> U \<union> P" using assms(1) by (auto simp: grows_def)
  have "card (A - U) \<le> card ((A - V) \<union> P)" using P assms(2) by (intro card_mono) auto
  then show ?thesis using card_Un_le [of "A - V" P] P(2) by linarith
qed

text \<open>The memory of the page allocator: its bitmap and its pages.\<close>

definition heap_owned :: "mm_pages_manager_t \<Rightarrow> u64 \<Rightarrow> bool" where
  "heap_owned pm x \<longleftrightarrow> unat (x - fst (pm_range pm)) < snd (pm_range pm) \<or>
     (\<exists>p \<in> pm_pages (\<lambda>_. 0, pm). unat (x - p) < 4096)"

lemma frames_owned:
  "frames m m' rs \<Longrightarrow> (\<And>a n x. (a, n) \<in> set rs \<Longrightarrow> unat (x - a) < n \<Longrightarrow> heap_owned pm x) \<Longrightarrow>
     \<not> heap_owned pm y \<Longrightarrow> m' y = m y"
  unfolding frames_def by (metis (mono_tags, lifting) case_prodI2 linorder_not_less)

text \<open>
  The blocks of the buckets \<open>hs\<close>, the memory outside the heap and the pages that stay unallocated keep their
  contents; pages are only taken, at most \<open>n\<close> of them.
\<close>

definition keeps :: "nat \<Rightarrow> 'x kheap_scheme \<Rightarrow> 'x kheap_scheme \<Rightarrow> bucket list list \<Rightarrow> bool" where
  "keeps n h h' hs \<longleftrightarrow> kpm h' = kpm h \<and> heap_lock h' = heap_lock h \<and>
     pm_used (kmem h, kpm h) \<subseteq> pm_used (kmem h', kpm h) \<and>
     grows n (pm_used (kmem h, kpm h)) (pm_used (kmem h', kpm h)) \<and>
     (\<forall>x. \<not> heap_owned (kpm h) x \<longrightarrow> kmem h' x = kmem h x) \<and>
     (\<forall>p \<in> pm_pages (kmem h, kpm h) - pm_used (kmem h', kpm h). load (kmem h') p 4096 = load (kmem h) p 4096) \<and>
     (\<forall>e < 9. \<forall>bk \<in> set (hs ! e). \<forall>x \<in> set (blocks (bpage bk) (bsize e)).
        load (kmem h') x (bsize e) = load (kmem h) x (bsize e))"

lemma pm_pages_mem: "pm_pages (m', pm) = pm_pages (m, pm)"
  by (simp add: pm_pages_def)

lemma keeps_refl [simp]: "keeps n h h hs"
  by (simp add: keeps_def)

lemma keeps_trans: "keeps n h h1 hs \<Longrightarrow> keeps k h1 h2 hs \<Longrightarrow> keeps (n + k) h h2 hs"
  unfolding keeps_def using pm_pages_mem [of "kmem h1" "kpm h" "kmem h"] by (auto simp: subset_iff intro: grows_trans)

lemma keeps_mono: "n \<le> k \<Longrightarrow> keeps n h h' hs \<Longrightarrow> keeps k h h' hs"
  unfolding keeps_def grows_def by (meson le_trans)

lemma pm_pages_owned: "p \<in> pm_pages (m, pm) \<Longrightarrow> unat (x - p) < 4096 \<Longrightarrow> heap_owned pm x"
  unfolding heap_owned_def pm_pages_mem [of "\<lambda>_. 0" pm m] by blast

lemma pm_range_owned: "(a, n) = pm_range pm \<Longrightarrow> unat (x - a) < n \<Longrightarrow> heap_owned pm x"
  unfolding heap_owned_def by (metis fst_conv snd_conv)

lemma pm_used_pages: "pm_used (m, pm) \<subseteq> pm_pages (m, pm)"
  by (auto simp: pm_used_def pm_pages_def)

lemma desc_owned:
  assumes "32 dvd unat c" "page_of c \<in> pm_pages (m, pm)" "unat (x - c) < 32"
  shows "heap_owned pm x"
proof -
  obtain i where "c = page_of c + of_nat i" "i + 32 \<le> 4096" using page_of_decomp [OF assms(1)] by blast
  then have "unat (x - page_of c) < 4096"
    using unat_diff_offset [of 4096 x "page_of c" i 32] assms(3) by (metis linorder_not_less)
  then show ?thesis using pm_pages_owned [OF assms(2)] by blast
qed

lemma keeps_desc:
  assumes ok: "heap_ok h fb hs" and c: "c \<in> descs fb hs \<or> loose h fb hs c" and fr: "frames (kmem h) m' [(c, 32)]"
  shows "keeps 0 h (h\<lparr>kmem := m'\<rparr>) hs"
proof -
  have c1: "32 dvd unat c" "page_of c \<in> pm_used (kmem h, kpm h)"
    using c heap_desc [OF ok, of c] by (auto simp: loose_def)
  have bm: "apart (fst (pm_range (kpm h))) (snd (pm_range (kpm h))) c 32"
    using c heap_bitmap_desc(2) [OF ok, of c] loose_apart(1) [OF ok, of c] by blast
  then have used: "pm_used (m', kpm h) = pm_used (kmem h, kpm h)" using heap_pm_frame(1) [OF ok fr] by simp
  have "load m' p 4096 = load (kmem h) p 4096" if p: "p \<in> pm_pages (kmem h, kpm h) - pm_used (kmem h, kpm h)" for p
  proof (rule frames_load [OF fr])
    have "apart c 32 p 4096"
      using c1 p page_aligned [OF heap_pm [OF ok], of p] by (intro apart_desc_page) auto
    then show "\<forall>(a, n) \<in> set [(c, 32)]. apart p 4096 a n" by (simp add: apart_commute)
  qed
  moreover have "load m' x (bsize e) = load (kmem h) x (bsize e)"
    if B: "e < 9" "bk \<in> set (hs ! e)" "x \<in> set (blocks (bpage bk) (bsize e))" for e bk x
  proof (rule frames_load [OF fr])
    have "apart x (bsize e) c 32"
      using c heap_desc_block(2) [OF ok _ B, of c] loose_apart(3) [OF ok _ B, of c] by blast
    then show "\<forall>(a, n) \<in> set [(c, 32)]. apart x (bsize e) a n" by simp
  qed
  moreover have "m' y = kmem h y" if "\<not> heap_owned (kpm h) y" for y
    using frames_owned [OF fr _ that] desc_owned [OF c1(1)] c1(2) pm_used_pages [of "kmem h" "kpm h"] by auto
  ultimately show ?thesis using used by (simp add: keeps_def)
qed

lemma keeps_get_page:
  assumes ok: "heap_ok h fb hs" and get: "heap_get_page h = (h', p)"
  shows "keeps 1 h h' hs"
proof -
  note g = heap_get_page_ok [OF ok get]
  have f: "kpm h' = kpm h" "heap_lock h' = heap_lock h" by (subst g(2), simp)+
  have used: "pm_used (kmem h, kpm h) \<subseteq> pm_used (kmem h', kpm h)"
    "grows 1 (pm_used (kmem h, kpm h)) (pm_used (kmem h', kpm h))" using g(1,4) by (cases "p = 0"; auto)+
  have "load (kmem h') q 4096 = load (kmem h) q 4096" if "q \<in> pm_pages (kmem h, kpm h)" for q
    using apart_bitmap [OF heap_pm [OF ok] that] by (intro frames_load [OF g(3)]) (simp add: pm_range_def)
  moreover have "load (kmem h') x (bsize e) = load (kmem h) x (bsize e)"
    if B: "e < 9" "bk \<in> set (hs ! e)" "x \<in> set (blocks (bpage bk) (bsize e))" for e bk x
    using heap_bitmap_block(1) [OF ok B, of "bsize e"] by (intro frames_load [OF g(3)]) (simp add: pm_range_def)
  moreover have "kmem h' y = kmem h y" if "\<not> heap_owned (kpm h) y" for y
    using pm_range_owned by (intro frames_owned [OF g(3) _ that]) auto
  ultimately show ?thesis using f used unfolding keeps_def by simp
qed

lemma keeps_page:
  assumes ok: "heap_ok h fb hs" and p: "unused_page h fb hs p" "p \<in> pm_used (kmem h, kpm h)"
    and fr: "frames (kmem h) m' [(p, 4096)]"
  shows "keeps 0 h (h\<lparr>kmem := m'\<rparr>) hs"
proof -
  note ap = unused_page_apart [OF ok p(1)]
  have used: "pm_used (m', kpm h) = pm_used (kmem h, kpm h)" using heap_pm_frame(1) [OF ok fr] ap(1) by simp
  have al: "4096 dvd unat p" using page_aligned [OF heap_pm [OF ok]] p(1) by (simp add: unused_page_def)
  have "load m' q 4096 = load (kmem h) q 4096" if "q \<in> pm_pages (kmem h, kpm h) - pm_used (kmem h, kpm h)" for q
    using that p(2) al page_aligned [OF heap_pm [OF ok], of q]
    by (intro frames_load [OF fr]) (auto intro!: apart_pages)
  moreover have "load m' x (bsize e) = load (kmem h) x (bsize e)"
    if B: "e < 9" "bk \<in> set (hs ! e)" "x \<in> set (blocks (bpage bk) (bsize e))" for e bk x
    using ap(3) [OF B, of "bsize e"] bsize_dvd(2) [OF B(1)] by (intro frames_load [OF fr]) simp
  moreover have "m' y = kmem h y" if "\<not> heap_owned (kpm h) y" for y
    using frames_owned [OF fr _ that] p(1) pm_pages_owned by (auto simp: unused_page_def)
  ultimately show ?thesis using used by (simp add: keeps_def)
qed

text \<open>The first step of \<open>new_bucket\<close>: there is an unused descriptor afterwards.\<close>

lemma ensure_desc:
  assumes ok: "heap_ok h fb hs" and pages: "fb \<noteq> [] \<or> pm_pages (kmem h, kpm h) - pm_used (kmem h, kpm h) \<noteq> {}"
    and h1: "h1 = (if free_bucket_chain h = 0
                then (let (h', fc) = construct_free_bucket_chain h in h'\<lparr>free_bucket_chain := fc\<rparr>) else h)"
  shows "\<exists>c fb'. heap_ok h1 (c # fb') hs \<and> bucket_dir h1 = bucket_dir h \<and>
    (if fb = [] then length fb' = 127 \<and> keeps 1 h h1 hs else fb = c # fb' \<and> keeps 0 h h1 hs)"
proof (cases fb)
  case (Cons c fb')
  then have "free_bucket_chain h \<noteq> 0" using heap_fb [OF ok] by auto
  then show ?thesis using h1 ok Cons by auto
next
  case Nil
  note ok' = ok [unfolded Nil]
  have z: "free_bucket_chain h = 0" using heap_fb [OF ok'] by simp
  obtain h' fc where con: "construct_free_bucket_chain h = (h', fc)" by fastforce
  obtain hg where get: "heap_get_page h = (hg, fc)"
    using con by (auto simp: construct_free_bucket_chain_def split: prod.splits)
  have nz: "fc \<noteq> 0" using heap_get_page_ok(1) [OF ok' get] pages Nil by auto
  note c = construct_ok [OF ok' con nz]
  have h1': "h1 = h'\<lparr>free_bucket_chain := fc\<rparr>" using h1 z con by simp
  have f: "kpm h1 = kpm h" "heap_lock h1 = heap_lock h" "bucket_dir h1 = bucket_dir h" "kmem h1 = kmem h'"
    unfolding h1' by (subst c(2), simp)+
  have al: "4096 dvd unat fc" using page_aligned [OF heap_pm [OF ok']] c(4) by blast
  note un = free_page_unused [OF ok' c(4)]
  have "load (kmem h') q 4096 = load (kmem h) q 4096"
    if "q \<in> pm_pages (kmem h, kpm h) - pm_used (kmem h', kpm h)" for q
    using that al c(5) page_aligned [OF heap_pm [OF ok'], of q] apart_bitmap [OF heap_pm [OF ok'], of q]
    by (intro frames_load [OF c(3)]) (auto simp: pm_range_def intro!: apart_pages)
  moreover have "load (kmem h') x (bsize e) = load (kmem h) x (bsize e)"
    if B: "e < 9" "bk \<in> set (hs ! e)" "x \<in> set (blocks (bpage bk) (bsize e))" for e bk x
    using unused_page_apart(3) [OF ok' un B, of "bsize e"] bsize_dvd(2) [OF B(1)] heap_bitmap_block(1) [OF ok' B, of "bsize e"]
    by (intro frames_load [OF c(3)]) (simp add: pm_range_def)
  moreover have "kmem h' y = kmem h y" if "\<not> heap_owned (kpm h) y" for y
    using c(4) pm_range_owned pm_pages_owned by (intro frames_owned [OF c(3) _ that]) auto
  ultimately have "keeps 1 h h1 hs" using f c(5) by (auto simp: keeps_def)
  moreover have "heap_ok h1 (desc_at fc 0 # map (desc_at fc) [1..<128]) hs"
    using c(1) unfolding h1' by (simp add: upt_rec [of 0 128])
  moreover have "length (map (desc_at fc) [1..<128]) = 127" by simp
  ultimately show ?thesis using f(3) Nil by (intro exI [of _ "desc_at fc 0"] exI [of _ "map (desc_at fc) [1..<128]"]) simp
qed

section \<open>A new bucket\<close>

definition clean_pages :: "'x kheap_scheme \<Rightarrow> bool" where
  "clean_pages h \<longleftrightarrow> (\<forall>p \<in> pm_pages (kmem h, kpm h) - pm_used (kmem h, kpm h).
     load (kmem h) p 4096 = replicate 4096 0)"

lemma clean_keeps: "keeps n h h' hs \<Longrightarrow> clean_pages h \<Longrightarrow> clean_pages h'"
  using pm_pages_mem [of "kmem h'" "kpm h" "kmem h"] by (auto simp: keeps_def clean_pages_def subset_iff)

lemma rd32_zero:
  assumes "load m p 4096 = replicate 4096 0" "i + 4 \<le> 4096"
  shows "rd32 m (p + of_nat i) = 0"
proof -
  have "load m (p + of_nat i) 4 = replicate 4 0"
  proof (rule nth_equalityI)
    fix j
    assume "j < length (load m (p + of_nat i) 4)"
    then have "load m p 4096 ! (i + j) = 0" "i + j < 4096" "j < 4" using assms by simp_all
    then show "load m (p + of_nat i) 4 ! j = replicate 4 0 ! j" by (simp add: add.assoc)
  qed simp
  then show ?thesis by (simp add: rd32_def numeral_eq_Suc)
qed

lemma memset_desc:
  fixes m :: mem
  shows "frames m (memset m c 0 32) [(c, 32)]" "desc_refCnt (memset m c 0 32) c = 0"
proof -
  have e: "memset m c 0 32 = store m c (replicate 32 0)" by (simp add: memset_eq_store)
  show "frames m (memset m c 0 32) [(c, 32)]" unfolding e using frames_store [of m c "replicate 32 0"] by simp
  have "load (memset m c 0 32) c 32 = replicate 32 0" unfolding e by (rule load_store_same) simp_all
  then have "load (memset m c 0 32) c 32 = load (\<lambda>_. 0) c 32"
    by (simp add: load_def map_replicate_const)
  then show "desc_refCnt (memset m c 0 32) c = 0"
    using rd32_part [of "memset m c 0 32" c 32 "\<lambda>_. 0" 24] by (simp add: rd32_def load_def upt_rec)
qed

text \<open>The blocks of a freshly linked page, in order.\<close>

lemma cut_page:
  assumes d: "d < 9" and pg: "4096 dvd unat pg" "unat pg + 4096 \<le> 2 ^ 32" "pg \<noteq> 0"
    and c: "apart c 32 pg 4096" and sz: "desc_blockSize m c = of_nat (bsize d)"
    and clean: "load m pg 4096 = replicate 4096 0"
    and m4: "m4 = link_blocks m c (ucast pg) 0 (4096 div bsize d - 1)"
    and m5: "m5 = wr32 m4 (block pg (bsize d) (4096 div bsize d - 1)) 0"
  shows "frames m m5 [(pg, 4096)]" "path (rd64 m5) pg (blocks pg (bsize d))"
proof -
  let ?N = "4096 div bsize d" and ?b = "block pg (bsize d)"
  have N: "0 < ?N" using bsize_cases [OF d] by auto
  have L: "frames m m4 [(pg, 4096)]" "\<forall>j < ?N. rd32 m4 (?b j) = (if j < ?N - 1 then ucast (?b (Suc j)) else rd32 m (?b j)) \<and>
      rd32 m4 (?b j + 4) = rd32 m (?b j + 4)"
    using link_blocks_ok [OF d pg(1,2) c sz, of 0 "?N - 1"] N unfolding m4 by auto
  have bd: "8 \<le> bsize d" by (rule bsize_dvd(2) [OF d])
  have last_b: "?b (?N - 1) = pg + of_nat (bsize d * (?N - 1))" "bsize d * (?N - 1) + 4 \<le> 4096"
    using block_low(3) [OF d pg(2), of "?N - 1"] N bd by (auto simp: block_def)
  have fr5: "frames m4 m5 [(pg, 4096)]" unfolding m5 last_b(1) using last_b(2) by (rule frames_wr32_in)
  show "frames m m5 [(pg, 4096)]" using frames_trans_same [OF L(1) fr5] .
  have up: "rd32 m (?b j + 4) = 0" if "j < ?N" for j
  proof -
    have "?b j + 4 = pg + of_nat (bsize d * j + 4)" by (simp add: block_def)
    then show ?thesis
      using rd32_zero [OF clean, of "bsize d * j + 4"] block_low(3) [OF d pg(2) that] bd by (simp add: add.assoc)
  qed
  have inb: "?b j \<in> set (blocks pg (bsize d))" if "j < ?N" for j using that by (simp add: blocks_def)
  have v: "rd32 m5 (?b j) = (if Suc j < ?N then ucast (?b (Suc j)) else 0)" "rd32 m5 (?b j + 4) = 0"
    if j: "j < ?N" for j
  proof -
    show "rd32 m5 (?b j) = (if Suc j < ?N then ucast (?b (Suc j)) else 0)"
    proof (cases "j = ?N - 1")
      case True
      then show ?thesis using N by (simp add: m5 mem_simps)
    next
      case False
      then have "?b j \<noteq> ?b (?N - 1)" using distinct_blocks [OF d pg(2)] j N
        by (auto simp: blocks_def distinct_map inj_on_def)
      then have "apart (?b j) (bsize d) (?b (?N - 1)) (bsize d)"
        using pg inb [OF j] inb [of "?N - 1"] d N by (intro apart_block_block) auto
      then have "apart (?b j) 4 (?b (?N - 1)) 4" by (rule apart_mono) (use bd in auto)
      moreover have "j < ?N - 1" "Suc j < ?N" using j False by linarith+
      ultimately show ?thesis using L(2) j by (simp add: m5 mem_simps)
    qed
    have "apart (?b j + 4) 4 (?b (?N - 1)) 4"
    proof (cases "j = ?N - 1")
      case False
      then have "?b j \<noteq> ?b (?N - 1)" using distinct_blocks [OF d pg(2)] j N
        by (auto simp: blocks_def distinct_map inj_on_def)
      then have "apart (?b j) (bsize d) (?b (?N - 1)) (bsize d)"
        using pg inb [OF j] inb [of "?N - 1"] d N by (intro apart_block_block) auto
      then have "apart (?b j + of_nat 4) 4 (?b (?N - 1) + of_nat 0) 4" by (rule apart_within) (use bd in auto)
      then show ?thesis by simp
    qed (simp add: apart_def)
    then show "rd32 m5 (?b j + 4) = 0" using L(2) j up by (simp add: m5 mem_simps)
  qed
  have nx: "rd64 m5 (?b j) = (if Suc j < ?N then ?b (Suc j) else 0)" if "j < ?N" for j
  proof (cases "Suc j < ?N")
    case True
    then have "unat (?b (Suc j)) < 2 ^ 32" using block_low(2,3) [OF d pg(2) True] pg(2) bd by linarith
    then show ?thesis using v [OF that] True ucast_ucast_low [of "?b (Suc j)"] by (simp add: rd64_halves)
  qed (use v [OF that] in \<open>simp add: rd64_halves\<close>)
  have "?b j \<noteq> 0" if "j < ?N" for j
    using block_low(2) [OF d pg(2) that] pg(3) by (auto simp: unat_eq_zero)
  then have "path (rd64 m5) (?b 0) (map ?b [0..<?N])" using nx N by (intro path_seq) auto
  then show "path (rd64 m5) pg (blocks pg (bsize d))" by (simp add: blocks_def block_def)
qed

lemma bucket_dir_size:
  assumes "heap_ok h fb hs" "d < 9"
  shows "fst (bucket_dir h ! d) = of_nat (bsize d)" "fst (bucket_dir h ! 9) = 0"
proof -
  have e: "fst (bucket_dir h ! i) = fst (g_bucket_dir ! i)" if "i < 10" for i
    using heap_sizes [OF assms(1)] heap_len(2) [OF assms(1)] that nth_map [of i "bucket_dir h" fst]
      nth_map [of i g_bucket_dir fst] by (simp add: g_bucket_dir_def)
  show "fst (bucket_dir h ! 9) = 0" using e [of 9] by (simp add: g_bucket_dir_def)
  have "d = 0 \<or> d = 1 \<or> d = 2 \<or> d = 3 \<or> d = 4 \<or> d = 5 \<or> d = 6 \<or> d = 7 \<or> d = 8" using assms(2) by linarith
  then show "fst (bucket_dir h ! d) = of_nat (bsize d)"
    using e [of d] by (elim disjE) (simp_all add: g_bucket_dir_def bsize_def)
qed

lemma block_count:
  assumes "d < 9"
  shows "unat (PAGE_SIZE div of_nat (bsize d)) = 4096 div bsize d" "0 < 4096 div bsize d"
    "of_nat (4096 div bsize d - 1) = (of_nat (4096 div bsize d) - 1 :: u32)"
  using bsize_cases [OF assms] by (auto simp: PAGE_SIZE_def)

lemma heap_ok_dir: "heap_ok h fb hs \<Longrightarrow> heap_ok (h\<lparr>heap_lock := l\<rparr>) fb hs"
  by (simp add: heap_ok_def)

text \<open>The second part of \<open>new_bucket\<close>: the descriptor \<open>c\<close> is off its chain and zeroed.\<close>

lemma fill_bucket:
  assumes ok: "heap_ok h fb hs" and c: "loose h fb hs c" and d: "d < 9"
    and ref: "desc_refCnt (kmem h) c = 0" and sz: "desc_blockSize (kmem h) c = of_nat (bsize d)"
    and pg: "unused_page h fb hs pg" "pg \<in> pm_used (kmem h, kpm h)" "page_of c \<noteq> pg" "pg \<noteq> 0"
    and clean: "load (kmem h) pg 4096 = replicate 4096 0"
    and m3: "m3 = wr64 (kmem h) c pg"
    and m4: "m4 = link_blocks m3 c (ucast pg) 0 (4096 div bsize d - 1)"
    and m5: "m5 = wr32 m4 (block pg (bsize d) (4096 div bsize d - 1)) 0"
    and m7: "m7 = wr64 (wr64 m5 (c + 16) pg) (c + 8) (snd (bucket_dir h ! d))"
  shows "heap_ok (h\<lparr>kmem := m7, bucket_dir := (bucket_dir h)[d := (of_nat (bsize d), c)]\<rparr>) fb
      (hs[d := (c, pg, blocks pg (bsize d)) # hs ! d])"
    and "keeps 0 h (h\<lparr>kmem := m7, bucket_dir := (bucket_dir h)[d := (of_nat (bsize d), c)]\<rparr>) hs"
    and "desc_page m5 c = pg" "desc_blockSize m4 c = of_nat (bsize d)"
proof -
  have pp: "pg \<in> pm_pages (kmem h, kpm h)" using pg(1) by (simp add: unused_page_def)
  note al = page_aligned [OF heap_pm [OF ok] pp]
  have ap: "apart c 32 pg 4096" using loose_apart(4) [OF ok c] al pg(3) by blast
  have fr3: "frames (kmem h) m3 [(c, 32)]" unfolding m3 by (rule frames_desc)
  let ?h3 = "h\<lparr>kmem := m3\<rparr>"
  note s3 = heap_ok_loose [OF ok c fr3]
  have sz3: "desc_blockSize m3 c = of_nat (bsize d)" using sz by (simp add: m3)
  have "load m3 pg 4096 = load (kmem h) pg 4096"
    using ap by (intro frames_load [OF fr3]) (simp add: apart_commute)
  then have clean3: "load m3 pg 4096 = replicate 4096 0" using clean by simp
  note cut = cut_page [OF d _ _ pg(4) ap sz3 clean3 m4 m5]
  have fr5: "frames m3 m5 [(pg, 4096)]" and pth: "path (rd64 m5) pg (blocks pg (bsize d))" using cut al by auto
  have fr4: "frames m3 m4 [(pg, 4096)]"
    using link_blocks_ok [OF d _ _ ap sz3, of 0 "4096 div bsize d - 1"] al block_count(2) [OF d] by (simp add: m4)
  have "load m4 c 32 = load m3 c 32" using ap by (intro frames_load [OF fr4]) simp
  then show "desc_blockSize m4 c = of_nat (bsize d)" using rd32_part [of m4 c 32 m3 28] sz3 by simp
  have "load m5 c 32 = load m3 c 32" using ap by (intro frames_load [OF fr5]) simp
  then have f5: "desc_page m5 c = pg" "desc_refCnt m5 c = 0" "desc_blockSize m5 c = of_nat (bsize d)"
    using rd64_part [of m5 c 32 m3 0] rd32_part [of m5 c 32 m3 24] rd32_part [of m5 c 32 m3 28] ref sz
    by (simp_all add: m3)
  then show "desc_page m5 c = pg" by simp
  have un3: "unused_page ?h3 fb hs pg" "pg \<in> pm_used (kmem ?h3, kpm ?h3)" using pg s3(3,4) by (simp_all add: unused_page_def)
  have ok5: "heap_ok (h\<lparr>kmem := m5\<rparr>) fb hs" using heap_ok_unused_page [OF s3(1) un3(1), of m5] fr5 by simp
  have k5: "keeps 0 ?h3 (h\<lparr>kmem := m5\<rparr>) hs" using keeps_page [OF s3(1) un3, of m5] fr5 by simp
  have u5: "pm_used (m5, kpm h) = pm_used (m3, kpm h)"
    using heap_pm_frame(1) [OF s3(1), of m5 "[(pg, 4096)]"] fr5 unused_page_apart(1) [OF s3(1) un3(1)] by simp
  have l5: "loose (h\<lparr>kmem := m5\<rparr>) fb hs c" using s3(2) u5 by (simp add: loose_def)
  have fr7: "frames m5 m7 [(c, 32)]" unfolding m7 by (rule frames_trans_same [OF frames_desc(3,2)])
  have "frames (kmem (h\<lparr>kmem := m5\<rparr>)) m7 [(c, 32)]" using fr7 by simp
  note s7 = heap_ok_loose [OF ok5 l5 this]
  have k7: "keeps 0 (h\<lparr>kmem := m5\<rparr>) (h\<lparr>kmem := m7\<rparr>) hs" using keeps_desc [OF ok5 disjI2 [OF l5], of m7] fr7 by simp
  have bl: "load m7 x 8 = load m5 x 8" if "x \<in> set (blocks pg (bsize d))" for x
    using apart_desc_block [OF _ _ pg(3) that d] c al bsize_dvd(2) [OF d]
    by (intro frames_load [OF fr7]) (auto simp: loose_def apart_commute elim: apart_mono)
  have "path (rd64 m7) pg (blocks pg (bsize d))"
    using pth by (rule path_cong) (simp add: rd64_def bl)
  then have bok: "bucket_ok m7 (bsize d) (c, pg, blocks pg (bsize d))"
    using f5 by (simp add: bucket_ok_def m7) (simp add: blocks_def)
  have "unused_page (h\<lparr>kmem := m7\<rparr>) fb hs pg" "pg \<in> pm_used (m7, kpm h)"
    using pg(2) un3 u5 s3(3) s7(3) pm_pages_mem [of m7 "kpm h" m3] by (simp_all add: unused_page_def)
  then have "heap_ok (h\<lparr>kmem := m7, bucket_dir := (bucket_dir h)[d := (fst (bucket_dir h ! d), c)]\<rparr>) fb
      (hs[d := (c, pg, blocks pg (bsize d)) # hs ! d])"
    using push_bucket [of "h\<lparr>kmem := m7\<rparr>" fb hs c d pg "blocks pg (bsize d)"] s7(1,2) d pg(3) bok by (simp add: m7)
  then show "heap_ok (h\<lparr>kmem := m7, bucket_dir := (bucket_dir h)[d := (of_nat (bsize d), c)]\<rparr>) fb
      (hs[d := (c, pg, blocks pg (bsize d)) # hs ! d])" unfolding bucket_dir_size(1) [OF ok d] .
  have "keeps 0 h ?h3 hs" using keeps_desc [OF ok disjI2 [OF c] fr3] .
  from keeps_trans [OF keeps_trans [OF this k5] k7] have "keeps 0 h (h\<lparr>kmem := m7\<rparr>) hs" by simp
  then show "keeps 0 h (h\<lparr>kmem := m7, bucket_dir := (bucket_dir h)[d := (of_nat (bsize d), c)]\<rparr>) hs"
    by (simp add: keeps_def)
qed

lemma keeps_free_chain: "keeps 0 h (h\<lparr>free_bucket_chain := c\<rparr>) hs"
  by (simp add: keeps_def)

text \<open>The unused descriptors after one has been taken.\<close>

definition descs_left :: "u64 list \<Rightarrow> u64 list \<Rightarrow> bool" where
  "descs_left fb fb' \<longleftrightarrow> (if fb = [] then length fb' = 127 else fb' = tl fb)"

lemma new_bucket_ok:
  assumes ok: "heap_ok h fb hs" and d: "d < 9" and clean: "clean_pages h"
    and pages: "fb \<noteq> [] \<or> pm_pages (kmem h, kpm h) - pm_used (kmem h, kpm h) \<noteq> {}"
    and nb: "new_bucket h d = (h', c, okf)"
  shows "keeps (if fb = [] then 2 else 1) h h' hs"
    and "\<not> okf \<Longrightarrow> (\<exists>fb'. heap_ok h' fb' hs \<and> descs_left fb fb') \<and> pm_pages (kmem h, kpm h) \<subseteq> pm_used (kmem h', kpm h)"
    and "okf \<Longrightarrow> \<exists>fb' pg. pg \<in> pm_pages (kmem h, kpm h) - pm_used (kmem h, kpm h) \<and>
      heap_ok h' fb' (hs[d := (c, pg, blocks pg (bsize d)) # hs ! d]) \<and>
      descs_left fb fb'"
proof -
  define h1 where "h1 = (if free_bucket_chain h = 0
      then (let (h', fc) = construct_free_bucket_chain h in h'\<lparr>free_bucket_chain := fc\<rparr>) else h)"
  obtain c1 fb1 where ok1: "heap_ok h1 (c1 # fb1) hs" and dir1: "bucket_dir h1 = bucket_dir h"
      and E: "if fb = [] then length fb1 = 127 \<and> keeps 1 h h1 hs else fb = c1 # fb1 \<and> keeps 0 h h1 hs"
    using ensure_desc [OF ok pages h1_def] by blast
  define n where "n = (if fb = [] then 1 else 0 :: nat)"
  have k1: "keeps n h h1 hs" and fb1: "descs_left fb fb1"
    using E by (auto simp: n_def descs_left_def split: if_splits)
  note pop = pop_desc [OF ok1]
  define h2 where "h2 = h1\<lparr>free_bucket_chain := desc_next (kmem h1) c1\<rparr>"
  have ok2: "heap_ok h2 fb1 hs" and l2: "loose h2 fb1 hs c1" using pop by (simp_all add: h2_def loose_def)
  let ?sz = "of_nat (bsize d) :: u32"
  define m2 where "m2 = wr32 (memset (kmem h2) c1 0 32) (c1 + 28) ?sz"
  have fr2: "frames (kmem h2) m2 [(c1, 32)]"
    unfolding m2_def by (rule frames_trans_same [OF memset_desc(1) frames_desc(5)])
  define h2' where "h2' = h2\<lparr>kmem := m2\<rparr>"
  have ok2': "heap_ok h2' fb1 hs" and l2': "loose h2' fb1 hs c1"
    using heap_ok_loose [OF ok2 l2 fr2] by (simp_all add: h2'_def)
  have k2: "keeps n h h2' hs"
    using keeps_trans [OF keeps_trans [OF k1 keeps_free_chain] keeps_desc [OF ok2 [unfolded h2_def] disjI2 [OF l2 [unfolded h2_def]]]]
      fr2 by (simp add: h2'_def h2_def)
  obtain h3 page where get: "heap_get_page h2' = (h3, page)" by fastforce
  note g = heap_get_page_ok [OF ok2' get]
  have k3: "keeps (n + 1) h h3 hs" using keeps_trans [OF k2 keeps_get_page [OF ok2' get]] .
  have dirs: "bucket_dir h2' = bucket_dir h" "bucket_dir h3 = bucket_dir h" "kpm h3 = kpm h2'"
    using dir1 by (simp_all add: h2'_def h2_def) (subst g(2), simp add: h2'_def h2_def)+
  have kp: "kpm h2' = kpm h" "kpm h3 = kpm h" using k2 k3 by (simp_all add: keeps_def)
  have used2: "pm_used (kmem h, kpm h) \<subseteq> pm_used (kmem h2', kpm h)" using k2 by (simp add: keeps_def)
  have sz: "fst (bucket_dir h2 ! d) = ?sz" using bucket_dir_size(1) [OF ok d] dir1 by (simp add: h2_def)
  have c1: "loose h3 fb1 hs c1" using l2' g(1,4) kp by (cases "page = 0") (auto simp: loose_def)
  define m3 where "m3 = wr64 (kmem h3) c1 page"
  have nb': "new_bucket h d =
     (if page = 0 then (h3\<lparr>kmem := m3\<rparr>, c1, False)
      else (let blockNums = unat (PAGE_SIZE div desc_blockSize m3 c1);
                addr = ucast (desc_page m3 c1) :: u32;
                m4 = link_blocks m3 c1 addr 0 (blockNums - 1);
                m5 = wr32 m4 (ucast (addr + of_nat (blockNums - 1) * desc_blockSize m4 c1)) 0;
                m6 = wr64 m5 (c1 + 16) (desc_page m5 c1);
                m7 = wr64 m6 (c1 + 8) (snd (bucket_dir h3 ! d))
            in (h3\<lparr>kmem := m7, bucket_dir := (bucket_dir h3)[d := (?sz, c1)]\<rparr>, c1, True)))"
    unfolding new_bucket_def h1_def [symmetric] Let_def [of h1] pop(1) Let_def [of c1]
    using get sz unfolding h2_def h2'_def m2_def m3_def by (simp add: Let_def)
  have R: "keeps (n + 1) h h' hs \<and>
    (\<not> okf \<longrightarrow> (\<exists>fb'. heap_ok h' fb' hs \<and> descs_left fb fb') \<and> pm_pages (kmem h, kpm h) \<subseteq> pm_used (kmem h', kpm h)) \<and>
    (okf \<longrightarrow> (\<exists>fb' pg. pg \<in> pm_pages (kmem h, kpm h) - pm_used (kmem h, kpm h) \<and>
      heap_ok h' fb' (hs[d := (c, pg, blocks pg (bsize d)) # hs ! d]) \<and>
      descs_left fb fb'))"
  proof (cases "page = 0")
    case True
    then have r: "h' = h3\<lparr>kmem := m3\<rparr>" "okf = False" using nb nb' by auto
    have fr: "frames (kmem h3) m3 [(c1, 32)]" unfolding m3_def by (rule frames_desc)
    note s = heap_ok_loose [OF g(5) c1 fr]
    have "pm_pages (kmem h, kpm h) \<subseteq> pm_used (m3, kpm h)"
      using g(1) [OF True] s(3) kp pm_pages_mem [of "kmem h2'" "kpm h" "kmem h"] by simp
    then show ?thesis using r s(1) fb1 keeps_trans [OF k3 keeps_desc [OF g(5) disjI2 [OF c1] fr]] by auto
  next
    case False
    have pg: "page \<in> pm_pages (kmem h2', kpm h) - pm_used (kmem h2', kpm h)" "page \<in> pm_used (kmem h3, kpm h)"
      using g(4) [OF False] kp by auto
    have un: "unused_page h3 fb1 hs page"
      using free_page_unused [OF ok2'] pg(1) kp pm_pages_mem [of "kmem h3" "kpm h" "kmem h2'"] by (simp add: unused_page_def)
    have ne: "page_of c1 \<noteq> page" using l2' pg(1) kp by (auto simp: loose_def)
    have load3: "load (kmem h3) c1 32 = load m2 c1 32"
      using loose_apart(1) [OF ok2' l2'] g(3) frames_load [OF g(3), of c1 32]
      by (simp add: h2'_def pm_range_def apart_commute)
    have ref: "desc_refCnt (kmem h3) c1 = 0" "desc_blockSize (kmem h3) c1 = ?sz"
      using rd32_part [OF load3, of 24] rd32_part [OF load3, of 28] memset_desc(2) by (simp_all add: m2_def)
    have "load (kmem h3) page 4096 = load (kmem h2') page 4096"
      using apart_bitmap [OF heap_pm [OF ok2']] pg(1) kp by (intro frames_load [OF g(3)]) (simp add: pm_range_def)
    moreover have "clean_pages h2'" using clean_keeps [OF k2 clean] .
    ultimately have cl: "load (kmem h3) page 4096 = replicate 4096 0"
      using pg(1) kp by (simp add: clean_pages_def)
    have size3: "desc_blockSize m3 c1 = ?sz" "desc_page m3 c1 = page" using ref by (simp_all add: m3_def)
    note cnt = block_count [OF d]
    define m4 where "m4 = link_blocks m3 c1 (ucast page) 0 (4096 div bsize d - 1)"
    define m5 where "m5 = wr32 m4 (block page (bsize d) (4096 div bsize d - 1)) 0"
    define m7 where "m7 = wr64 (wr64 m5 (c1 + 16) page) (c1 + 8) (snd (bucket_dir h3 ! d))"
    have pg3: "page \<in> pm_used (kmem h3, kpm h3)" using pg(2) kp by simp
    note F = fill_bucket [OF g(5) c1 d ref un pg3 ne False cl m3_def m4_def m5_def m7_def]
    have low: "ucast (ucast page + of_nat (4096 div bsize d - 1) * ?sz :: u32) = block page (bsize d) (4096 div bsize d - 1)"
      using page_aligned [OF heap_pm [OF ok2'], of page] pg(1) kp cnt(2) by (intro block_low(1) [OF d]) auto
    have "new_bucket h d = (h3\<lparr>kmem := m7, bucket_dir := (bucket_dir h3)[d := (?sz, c1)]\<rparr>, c1, True)"
      unfolding nb' Let_def size3 cnt(1) m4_def [symmetric] F(4) low m5_def [symmetric] F(3) m7_def
      using False by simp
    then have r: "h' = h3\<lparr>kmem := m7, bucket_dir := (bucket_dir h3)[d := (?sz, c1)]\<rparr>" "c = c1" "okf = True"
      using nb by auto
    have "page \<in> pm_pages (kmem h, kpm h) - pm_used (kmem h, kpm h)"
      using pg(1) used2 pm_pages_mem [of "kmem h2'" "kpm h" "kmem h"] by auto
    then show ?thesis using r F(1) fb1 keeps_trans [OF k3 F(2)] by auto
  qed
  have n: "n + 1 = (if fb = [] then 2 else 1)" by (simp add: n_def)
  show "keeps (if fb = [] then 2 else 1) h h' hs"
    "\<not> okf \<Longrightarrow> (\<exists>fb'. heap_ok h' fb' hs \<and> descs_left fb fb') \<and>
      pm_pages (kmem h, kpm h) \<subseteq> pm_used (kmem h', kpm h)"
    "okf \<Longrightarrow> \<exists>fb' pg. pg \<in> pm_pages (kmem h, kpm h) - pm_used (kmem h, kpm h) \<and>
      heap_ok h' fb' (hs[d := (c, pg, blocks pg (bsize d)) # hs ! d]) \<and>
      descs_left fb fb'" using R unfolding n by blast+
qed

end
