(* ===== verification/BlockAlloc.thy ===== *)
theory BlockAlloc
  imports Prelude
begin

text \<open>
  The contract between the bucket allocators and their clients (the task,
  descriptor-table and per-processor structures are all obtained from kmalloc).
  The invariant carries the set of allocated blocks with their size classes; 0
  is the null pointer.
\<close>

locale block_allocator =
  fixes alloc :: "'s \<Rightarrow> 'l \<Rightarrow> ('s \<times> 'p::zero) option"
    and release :: "'s \<Rightarrow> 'p \<Rightarrow> 'l \<Rightarrow> 's option"
    and size_of :: "'l \<Rightarrow> 'c"
    and ready :: "'s \<Rightarrow> 'l \<Rightarrow> bool"
    and returnable :: "'s \<Rightarrow> 'p \<Rightarrow> bool"
    and invar :: "'s \<Rightarrow> ('p \<times> 'c) set \<Rightarrow> bool"
  assumes alloc_ok: "invar s A \<Longrightarrow> ready s l \<Longrightarrow> \<exists>s' p. alloc s l = Some (s', p) \<and>
      (if p = 0 then invar s' A else p \<notin> fst ` A \<and> invar s' (insert (p, size_of l) A))"
    and release_ok: "invar s A \<Longrightarrow> (p, size_of l) \<in> A \<Longrightarrow> returnable s p \<Longrightarrow>
      \<exists>s'. release s p l = Some s' \<and> invar s' (A - {(p, size_of l)})"
begin

lemma alloc_total: "invar s A \<Longrightarrow> ready s l \<Longrightarrow> alloc s l \<noteq> None"
  using alloc_ok by fastforce

lemma alloc_release:
  assumes "invar s A" "ready s l" "alloc s l = Some (s', p)" "p \<noteq> 0" "returnable s' p"
  shows "\<exists>s''. release s' p l = Some s'' \<and> invar s'' A"
proof -
  have p: "p \<notin> fst ` A" "invar s' (insert (p, size_of l) A)" using alloc_ok [OF assms(1,2)] assms(3,4) by auto
  then obtain s'' where "release s' p l = Some s''" "invar s'' (insert (p, size_of l) A - {(p, size_of l)})"
    using release_ok assms(5) by (metis insertI1)
  moreover have "insert (p, size_of l) A - {(p, size_of l)} = A" using p(1) by force
  ultimately show ?thesis by auto
qed

end

end
