(* ===== verification/HeapProps.thy ===== *)
theory HeapProps
  imports HeapOps BlockAlloc
begin

text \<open>
  kmalloc and kfree_s against the contract of an allocator: the allocated
  blocks are pairwise apart, an allocation returns a block that was not
  allocated, a free removes exactly its block, and no operation changes the
  contents of an allocated block.
\<close>

section \<open>The allocated blocks\<close>

text \<open>The allocated blocks with their size class.\<close>

definition heap_alloc :: "bucket list list \<Rightarrow> (u64 \<times> nat) set" where
  "heap_alloc hs = {(x, d). d < length hs \<and>
     (\<exists>bk \<in> set (hs ! d). x \<in> set (blocks (bpage bk) (bsize d)) - set (bfree bk))}"

lemma heap_alloc_in:
  assumes "heap_ok h fb hs" "(x, d) \<in> heap_alloc hs"
  obtains bk where "d < 9" "bk \<in> set (hs ! d)" "x \<in> set (blocks (bpage bk) (bsize d))" "x \<notin> set (bfree bk)"
  using assms heap_len(1) [OF assms(1)] by (auto simp: heap_alloc_def)

lemma heap_block_unique:
  assumes ok: "heap_ok h fb hs" and bk: "d < 9" "bk \<in> set (hs ! d)" "x \<in> set (blocks (bpage bk) (bsize d))"
    and bk': "e < 9" "bk' \<in> set (hs ! e)" "x \<in> set (blocks (bpage bk') (bsize e))"
  shows "d = e \<and> bk = bk'"
  using block_bounds(3) [OF ok bk] block_bounds(3) [OF ok bk']
    distinct_concat_nth [OF heap_distinct(2) [OF ok] _ _ bk(2) bk'(2)] bk(1) bk'(1) heap_len(1) [OF ok]
  by (metis (no_types, lifting))

lemma heap_alloc_apart:
  assumes ok: "heap_ok h fb hs" and a: "(x, d) \<in> heap_alloc hs" "(y, e) \<in> heap_alloc hs" "(x, d) \<noteq> (y, e)"
  shows "x \<noteq> y" "apart x (bsize d) y (bsize e)"
proof -
  obtain bk where bk: "d < 9" "bk \<in> set (hs ! d)" "x \<in> set (blocks (bpage bk) (bsize d))"
    using heap_alloc_in [OF ok a(1)] by blast
  obtain bk' where bk': "e < 9" "bk' \<in> set (hs ! e)" "y \<in> set (blocks (bpage bk') (bsize e))"
    using heap_alloc_in [OF ok a(2)] by blast
  show "x \<noteq> y" using heap_block_unique [OF ok bk bk'(1,2)] bk' a(3) by auto
  then show "apart x (bsize d) y (bsize e)" using heap_block_block [OF ok bk(1,2) bk'(1,2) bk(3) bk'(3)] by simp
qed

section \<open>Size classes\<close>

lemma find_dir_sizes: "map fst ds = map fst ds' \<Longrightarrow> find_dir ds len = find_dir ds' len"
proof (induction ds arbitrary: ds')
  case (Cons a ds)
  then obtain b ds'' where "ds' = b # ds''" "fst a = fst b" "map fst ds = map fst ds''" by (cases ds') auto
  then show ?case using Cons.IH by (cases a; cases b) auto
qed simp

lemma find_dir_spec:
  assumes "heap_ok h fb hs"
  shows "unat len \<le> 4096 \<Longrightarrow> find_dir (bucket_dir h) len < 9 \<and> unat len \<le> bsize (find_dir (bucket_dir h) len)"
    and "4096 < unat len \<Longrightarrow> find_dir (bucket_dir h) len = 9"
proof -
  have e: "find_dir (bucket_dir h) len = find_dir g_bucket_dir len"
    using heap_sizes [OF assms] by (rule find_dir_sizes)
  show "unat len \<le> 4096 \<Longrightarrow> find_dir (bucket_dir h) len < 9 \<and> unat len \<le> bsize (find_dir (bucket_dir h) len)"
    unfolding e by (simp add: g_bucket_dir_def word_le_nat_alt bsize_def)
  show "4096 < unat len \<Longrightarrow> find_dir (bucket_dir h) len = 9"
    unfolding e by (simp add: g_bucket_dir_def word_le_nat_alt)
qed

section \<open>kmalloc\<close>

lemma heap_alloc_take:
  assumes ok: "heap_ok h fb hs" and d: "d < 9" and hsd: "hs ! d = us @ (b, pg, x # fl) # vs"
  shows "heap_alloc (hs[d := us @ (b, pg, fl) # vs]) = insert (x, d) (heap_alloc hs)" "x \<notin> fst ` heap_alloc hs"
proof -
  have bk: "(b, pg, x # fl) \<in> set (hs ! d)" using hsd by simp
  have x: "x \<in> set (blocks pg (bsize d))" using heap_free_block_in [OF ok d bk] by simp
  have "x \<notin> set fl" using heap_bucket [OF ok d bk] path_distinct [of "rd64 (kmem h)" _ "x # fl"] by (simp add: bucket_ok_def)
  then show "heap_alloc (hs[d := us @ (b, pg, fl) # vs]) = insert (x, d) (heap_alloc hs)"
    using hsd x d heap_len(1) [OF ok]
    by (auto simp: heap_alloc_def nth_list_update split: if_splits) (metis Un_iff fst_conv snd_conv)+
  show "x \<notin> fst ` heap_alloc hs"
  proof
    assume "x \<in> fst ` heap_alloc hs"
    then obtain e where "(x, e) \<in> heap_alloc hs" by auto
    then obtain bk' where bk': "e < 9" "bk' \<in> set (hs ! e)" "x \<in> set (blocks (bpage bk') (bsize e))" "x \<notin> set (bfree bk')"
      using heap_alloc_in [OF ok] by blast
    then have "(b, pg, x # fl) = bk'" using heap_block_unique [OF ok d bk _ bk'(1-3)] x by simp
    then show False using bk'(4) by auto
  qed
qed

text \<open>An allocation takes no unused descriptor or one.\<close>

definition descs_taken ::
    "'x kheap_scheme \<Rightarrow> 'x kheap_scheme \<Rightarrow> bucket list list \<Rightarrow> u64 list \<Rightarrow> u64 list \<Rightarrow> bool" where
  "descs_taken h h' hs fb fb' \<longleftrightarrow>
     fb' = fb \<and> keeps 0 h h' hs \<or> descs_left fb fb' \<and> keeps (if fb = [] then 2 else 1) h h' hs"

lemma descs_taken_keeps: "descs_taken h h' hs fb fb' \<Longrightarrow> keeps 2 h h' hs"
  unfolding descs_taken_def using keeps_mono [of 0 2 h h' hs] keeps_mono [of 1 2 h h' hs] by (auto split: if_splits)

lemma kmalloc_ok:
  assumes ok: "heap_ok h fb hs" and lock: "heap_lock h = 0" and clean: "clean_pages h"
    and pages: "fb \<noteq> [] \<or> pm_pages (kmem h, kpm h) - pm_used (kmem h, kpm h) \<noteq> {}"
    and len: "unat len \<le> 4096"
  shows "\<exists>h' p fb' hs'. kmalloc h len = Some (h', p) \<and> heap_ok h' fb' hs' \<and> descs_taken h h' hs fb fb' \<and>
    (if p = 0 then hs' = hs \<and> pm_pages (kmem h, kpm h) \<subseteq> pm_used (kmem h', kpm h)
     else heap_alloc hs' = insert (p, find_dir (bucket_dir h) len) (heap_alloc hs) \<and> p \<notin> fst ` heap_alloc hs)"
proof -
  define d where "d = find_dir (bucket_dir h) len"
  have d: "d < 9" using find_dir_spec(1) [OF ok len] by (simp add: d_def)
  have sz: "fst (bucket_dir h ! d) \<noteq> 0"
    using bucket_dir_size(1) [OF ok d] bsize_cases [OF d] by auto
  let ?h1 = "h\<lparr>heap_lock := 1\<rparr>"
  have ok1: "heap_ok ?h1 fb hs" using heap_ok_dir [OF ok] .
  define found where "found = first_node (\<lambda>b. desc_freeBlock (kmem h) b \<noteq> 0) (map bdesc (hs ! d))"
  have search: "find_free_bucket (kmem h) (snd (bucket_dir h ! d)) = Some found"
    unfolding found_def by (rule ff.search_path [OF heap_chain [OF ok d]])
  define T where "T h2 chain = (let (m, retVal) = take_block (kmem h2) chain
      in (h2\<lparr>kmem := m, heap_lock := 0\<rparr>, retVal))" for h2 :: "'a kheap_scheme" and chain
  have km: "kmalloc h len = (let (h2, chain, okf) = (if found = 0 then new_bucket ?h1 d else (?h1, found, True))
      in Some (if \<not> okf then (h2\<lparr>heap_lock := 0\<rparr>, 0) else T h2 chain))"
    using sz search by (auto simp: kmalloc_def spin_lock_def spin_unlock_def lock Let_def d_def [symmetric] T_def
        split: prod.splits)
  have fin: "\<exists>h' p. T h2 b = (h', p) \<and> p = x \<and> p \<noteq> 0 \<and> heap_ok h' fb2 (hs2[d := us @ (b, pg, fl) # vs]) \<and>
      keeps 0 h2 (h'\<lparr>heap_lock := heap_lock h2\<rparr>) hs \<and> heap_lock h' = 0"
    if ok2: "heap_ok h2 fb2 hs2" and hsd: "hs2 ! d = us @ (b, pg, x # fl) # vs"
      and k: "\<And>m'. frames (kmem h2) m' [(b, 32)] \<Longrightarrow> keeps 0 h2 (h2\<lparr>kmem := m'\<rparr>) hs" for h2 fb2 hs2 us b pg x fl vs
  proof -
    obtain m p where take: "take_block (kmem h2) b = (m, p)" by fastforce
    note t = take_block_ok [OF ok2 d hsd take]
    have "x \<in> set (blocks pg (bsize d))" using heap_free_block_in [OF ok2 d, of "(b, pg, x # fl)"] hsd by simp
    then have "x \<noteq> 0" using block_bounds(1) [OF ok2 d, of "(b, pg, x # fl)"] hsd by simp
    then show ?thesis
      using take t k [of m] heap_ok_dir [of "h2\<lparr>kmem := m\<rparr>" fb2 _ 0] by (simp add: T_def keeps_def)
  qed
  have unlock: "keeps n h (h'\<lparr>heap_lock := 0\<rparr>) hs" if "keeps n ?h1 h' hs" for n h'
    using that lock by (simp add: keeps_def)
  show ?thesis
  proof (cases "found = 0")
    case False
    then have "found \<in> set (map bdesc (hs ! d))" "desc_freeBlock (kmem h) found \<noteq> 0"
      using first_node_in [of "\<lambda>b. desc_freeBlock (kmem h) b \<noteq> 0" "map bdesc (hs ! d)"] unfolding found_def by blast+
    then obtain bk where bk: "bk \<in> set (hs ! d)" "bdesc bk = found" by auto
    then have "bfree bk \<noteq> []"
      using heap_bucket [OF ok d bk(1)] \<open>desc_freeBlock (kmem h) found \<noteq> 0\<close> by (auto simp: bucket_ok_def)
    then obtain pg x fl where bk': "bk = (found, pg, x # fl)" using bk(2) by (cases bk; cases "bfree bk") auto
    then obtain us vs where hsd: "hs ! d = us @ (found, pg, x # fl) # vs"
      using bk(1) by (metis split_list)
    have k: "keeps 0 ?h1 (?h1\<lparr>kmem := m'\<rparr>) hs" if "frames (kmem ?h1) m' [(found, 32)]" for m'
      using keeps_desc [OF ok1 _ that] heap_desc_in [OF ok1 d bk(1)] bk(2) by blast
    obtain h' p where T: "T ?h1 found = (h', p)" "p = x" "p \<noteq> 0" "heap_ok h' fb (hs[d := us @ (found, pg, fl) # vs])"
        "keeps 0 ?h1 (h'\<lparr>heap_lock := heap_lock ?h1\<rparr>) hs" "heap_lock h' = 0"
      using fin [OF ok1 hsd k] by blast
    have "kmalloc h len = Some (h', p)" using km False T(1) by simp
    moreover have "keeps 0 h h' hs" using T(5,6) lock by (simp add: keeps_def)
    then have "descs_taken h h' hs fb fb" by (simp add: descs_taken_def)
    ultimately show ?thesis
      using T heap_alloc_take [OF ok d hsd] unfolding d_def [symmetric] by auto
  next
    case True
    obtain h2 c okf where nb: "new_bucket ?h1 d = (h2, c, okf)" by (cases "new_bucket ?h1 d") auto
    have cl: "clean_pages ?h1" using clean by (simp add: clean_pages_def)
    have "fb \<noteq> [] \<or> pm_pages (kmem ?h1, kpm ?h1) - pm_used (kmem ?h1, kpm ?h1) \<noteq> {}" using pages by simp
    note N = new_bucket_ok [OF ok1 d cl this nb]
    show ?thesis
    proof (cases okf)
      case False
      then have "kmalloc h len = Some (h2\<lparr>heap_lock := 0\<rparr>, 0)" using km True nb by simp
      moreover obtain fb' where "heap_ok (h2\<lparr>heap_lock := 0\<rparr>) fb' hs" "descs_left fb fb'" using N(2) [OF False] heap_ok_dir by blast
      moreover have "descs_taken h (h2\<lparr>heap_lock := 0\<rparr>) hs fb fb'"
        using unlock [OF N(1)] \<open>descs_left fb fb'\<close> by (simp add: descs_taken_def)
      ultimately show ?thesis using N(2) [OF False] by auto
    next
      case okf: True
      obtain fb2 pg where left: "descs_left fb fb2" and ok2: "heap_ok h2 fb2 (hs[d := (c, pg, blocks pg (bsize d)) # hs ! d])"
          and pg: "pg \<in> pm_pages (kmem h, kpm h) - pm_used (kmem h, kpm h)" using N(3) [OF okf] by auto
      obtain x fl where xfl: "blocks pg (bsize d) = x # fl"
        using block_count(2) [OF d] by (cases "blocks pg (bsize d)") (auto simp: blocks_def)
      let ?hs2 = "hs[d := (c, pg, blocks pg (bsize d)) # hs ! d]"
      have len2: "d < length hs" using heap_len(1) [OF ok] d by simp
      have hsd: "?hs2 ! d = [] @ (c, pg, x # fl) # hs ! d" using xfl len2 by simp
      have c: "c \<in> descs fb2 ?hs2" using heap_desc_in [OF ok2 d, of "(c, pg, blocks pg (bsize d))"] len2 by simp
      have k: "keeps 0 h2 (h2\<lparr>kmem := m'\<rparr>) hs" if "frames (kmem h2) m' [(c, 32)]" for m'
        using keeps_desc [OF ok2 disjI1 [OF c] that] len2 by (auto simp: keeps_def nth_list_update split: if_splits)
      obtain h' p where T: "T h2 c = (h', p)" "p = x" "p \<noteq> 0" "heap_ok h' fb2 (?hs2[d := [] @ (c, pg, fl) # hs ! d])"
          "keeps 0 h2 (h'\<lparr>heap_lock := heap_lock h2\<rparr>) hs" "heap_lock h' = 0"
        using fin [OF ok2 hsd k] by blast
      have "kmalloc h len = Some (h', p)" using km True nb okf T(1) by simp
      moreover have "keeps (if fb = [] then 2 else 1) h h' hs"
        using keeps_trans [OF N(1) T(5)] unlock [OF keeps_trans [OF N(1) T(5)]] T(6) by (simp add: keeps_def)
      then have "descs_taken h h' hs fb fb2" using left by (simp add: descs_taken_def)
      moreover have "heap_alloc ?hs2 = heap_alloc hs"
        using len2 by (auto simp: heap_alloc_def nth_list_update split: if_splits)
      then have "heap_alloc (?hs2[d := [] @ (c, pg, fl) # hs ! d]) = insert (p, d) (heap_alloc hs)"
        "p \<notin> fst ` heap_alloc hs"
        using heap_alloc_take [OF ok2 d hsd] T(2) by simp_all
      ultimately show ?thesis using T(3,4) unfolding d_def [symmetric] by auto
    qed
  qed
qed

section \<open>kfree_s\<close>

lemma unlink_bucket_path:
  assumes "path (desc_next m) p (us @ b # vs)" "us \<noteq> []"
  shows "unlink_bucket m b p = Some (wr64 m (last us + 8) (desc_next m b))"
  using assms
proof (induction us arbitrary: p)
  case (Cons u us)
  have d: "distinct (u # us @ b # vs)" using path_distinct [OF Cons.prems(1)] by simp
  show ?case
  proof (cases us)
    case Nil
    then show ?thesis using Cons.prems(1) by (subst unlink_bucket.simps) auto
  next
    case (Cons u' us')
    then have "desc_next m p \<noteq> 0" "desc_next m p \<noteq> b" "path (desc_next m) (desc_next m p) (us @ b # vs)" "us \<noteq> []"
      using Cons.prems(1) d by auto
    then show ?thesis using Cons.IH Cons.prems(1) by (subst unlink_bucket.simps) simp
  qed
qed simp

lemma path_remove:
  assumes "path nxt p (us @ b # vs)" "us \<noteq> []"
    "nxt' (last us) = nxt b" "\<And>x. x \<in> set (us @ vs) \<Longrightarrow> x \<noteq> last us \<Longrightarrow> nxt' x = nxt x"
  shows "path nxt' p (us @ vs)"
  using assms
proof (induction us arbitrary: p)
  case (Cons u us)
  have d: "distinct (u # us @ b # vs)" using path_distinct [OF Cons.prems(1)] by simp
  show ?case
  proof (cases "us = []")
    case True
    have "path nxt' (nxt b) vs"
    proof (rule path_cong)
      show "path nxt (nxt b) vs" using Cons.prems(1) True by auto
    qed (use Cons.prems(4) True d in auto)
    then show ?thesis using Cons.prems True by auto
  next
    case False
    then have "path nxt' (nxt u) (us @ vs)" using Cons.prems by (intro Cons.IH) auto
    moreover have "nxt' u = nxt u" using Cons.prems(4) [of u] False d by (auto dest: last_in_set)
    ultimately show ?thesis using Cons.prems(1) by auto
  qed
qed simp

lemma bucket_ok_fields:
  assumes "bucket_ok m sz bk" "desc_page m' (bdesc bk) = desc_page m (bdesc bk)"
    "desc_freeBlock m' (bdesc bk) = desc_freeBlock m (bdesc bk)" "desc_refCnt m' (bdesc bk) = desc_refCnt m (bdesc bk)"
    "desc_blockSize m' (bdesc bk) = desc_blockSize m (bdesc bk)"
    "\<And>x. x \<in> set (bfree bk) \<Longrightarrow> load m' x 8 = load m x 8"
  shows "bucket_ok m' sz bk"
proof -
  have "path (rd64 m') p (bfree bk)" if "path (rd64 m) p (bfree bk)" for p
    using that by (rule path_cong) (simp add: rd64_def assms(6))
  then show ?thesis using assms by (simp add: bucket_ok_def)
qed

text \<open>Taking a bucket off its chain, returning its page and its descriptor.\<close>

lemma release_bucket_ok:
  assumes ok: "heap_ok h fb hs" and d: "d < 9" and hsd: "hs ! d = us @ (b, pg, fl) # vs"
  shows "\<exists>h'. release_bucket h d b = Some h' \<and> heap_ok h' (b # fb) (hs[d := us @ vs]) \<and> heap_lock h' = heap_lock h \<and>
    (\<forall>e < 9. \<forall>bk \<in> set (hs ! e). \<forall>x \<in> set (blocks (bpage bk) (bsize e)).
        load (kmem h') x (bsize e) = load (kmem h) x (bsize e))"
proof -
  let ?hs = "hs[d := us @ vs]" and ?m = "kmem h"
  have bk: "(b, pg, fl) \<in> set (hs ! d)" using hsd by simp
  note bok = heap_bucket [OF ok d bk]
  have len: "d < length hs" "d < length (bucket_dir h)" using d heap_len [OF ok] by auto
  have pgb: "desc_page ?m b = pg" using bok by (simp add: bucket_ok_def)
  have pgu: "pg \<in> pm_used (?m, kpm h)" using heap_page(3) [OF ok heap_bucket_in [OF ok d bk]] by simp
  obtain m1 pm1 where free: "free_page (?m, kpm h) pg = (m1, pm1)" by fastforce
  have pm1: "pm1 = kpm h" and fr1: "frames ?m m1 [pm_range (kpm h)]" using free_page_frame [OF heap_pm(1) [OF ok] pgu free] by auto
  have used1: "pm_used (m1, kpm h) = pm_used (?m, kpm h) - {pg}"
    using free_page_used [OF heap_pm(1) [OF ok] pgu] free pm1 by simp
  have ld1: "load m1 c 32 = load ?m c 32" if "c \<in> descs fb hs" for c
    using heap_bitmap_desc(1) [OF ok that] by (intro frames_load [OF fr1]) (simp add: pm_range_def)
  have n1: "desc_next m1 c = desc_next ?m c" if "c \<in> descs fb hs" for c
    using rd64_part [OF ld1 [OF that], of 8] by simp
  have b_in: "b \<in> descs fb hs" using heap_desc_in [OF ok d bk] by simp
  have nodes: "set (map bdesc (hs ! d)) \<subseteq> descs fb hs" using heap_desc_in [OF ok d] by auto
  have ch: "path (desc_next ?m) (snd (bucket_dir h ! d)) (map bdesc us @ b # map bdesc vs)"
    using heap_chain [OF ok d] hsd by simp
  have ch1: "path (desc_next m1) (snd (bucket_dir h ! d)) (map bdesc us @ b # map bdesc vs)"
    using ch by (rule path_cong) (use n1 nodes hsd in auto)
  have dd: "distinct (map bdesc us @ b # map bdesc vs)" using path_distinct [OF ch] .
  define first where "first = snd (bucket_dir h ! d)"
  define m2 where "m2 = (if us = [] then m1 else wr64 m1 (bdesc (last us) + 8) (desc_next m1 b))"
  define ds where "ds = (if us = [] then (bucket_dir h)[d := (fst (bucket_dir h ! d), desc_next m1 b)] else bucket_dir h)"
  define m3 where "m3 = wr64 m2 (b + 8) (free_bucket_chain h)"
  let ?h' = "h\<lparr>kmem := m3, bucket_dir := ds, free_bucket_chain := b\<rparr>"
  have fb_eq: "first = b \<longleftrightarrow> us = []" using ch dd by (cases us) (auto simp: first_def)
  have hp: "heap_free_page h (desc_page ?m b) = h\<lparr>kmem := m1\<rparr>"
    using free pm1 pgb by (simp add: heap_free_page_def)
  obtain sz where bd: "bucket_dir h ! d = (sz, first)" by (metis first_def prod.collapse)
  have rel: "release_bucket h d b = Some ?h'"
  proof (cases "us = []")
    case True
    then show ?thesis using fb_eq unfolding release_bucket_def hp
      by (simp add: Let_def bd m2_def m3_def ds_def)
  next
    case False
    have ul: "unlink_bucket m1 b first = Some (wr64 m1 (last (map bdesc us) + 8) (desc_next m1 b))"
      unfolding first_def using ch1 False by (intro unlink_bucket_path) auto
    then show ?thesis using fb_eq False unfolding release_bucket_def hp
      by (simp add: Let_def bd m2_def m3_def ds_def last_map)
  qed
  let ?rs = "(b, 32) # (if us = [] then [] else [(bdesc (last us), 32)])"
  have fr2: "frames m1 m3 ?rs"
  proof (cases "us = []")
    case True
    then show ?thesis by (simp add: m3_def m2_def frames_desc)
  next
    case False
    then have "frames m1 m2 [(bdesc (last us), 32)]" by (simp add: m2_def frames_desc)
    from frames_trans [OF this, of m3 "[(b, 32)]"] show ?thesis
      using False by (auto simp: m3_def frames_desc intro: frames_mono)
  qed
  have last_in: "bdesc (last us) \<in> descs fb hs" if "us \<noteq> []"
    using nodes that hsd by (simp add: subset_iff)
  have off: "load m3 c 32 = load ?m c 32" if "c \<in> descs fb hs" "c \<noteq> b" "us = [] \<or> c \<noteq> bdesc (last us)" for c
  proof -
    have "load m3 c 32 = load m1 c 32"
      using that heap_desc_apart [OF ok that(1) b_in] heap_desc_apart [OF ok that(1) last_in]
      by (intro frames_load [OF fr2]) (auto split: if_splits)
    then show ?thesis using ld1 [OF that(1)] by simp
  qed
  have blk: "load m3 x n = load ?m x n"
    if B: "e < 9" "bk \<in> set (hs ! e)" "x \<in> set (blocks (bpage bk) (bsize e))" "n \<le> bsize e" for e bk x n
  proof -
    have "load m3 x n = load m1 x n"
      using heap_desc_block(2) [OF ok b_in B] heap_desc_block(2) [OF ok last_in B]
      by (intro frames_load [OF fr2]) (auto split: if_splits)
    also have "\<dots> = load ?m x n"
      using heap_bitmap_block(1) [OF ok B] by (intro frames_load [OF fr1]) (simp add: pm_range_def)
    finally show ?thesis .
  qed
  obtain A C where AC: "concat hs = A @ hs ! d @ C" "concat ?hs = A @ (us @ vs) @ C"
    using concat_split [OF len(1)] by blast
  have sets: "bdesc ` set (concat hs) = insert b (bdesc ` set (concat ?hs))"
    "bpage ` set (concat hs) = insert pg (bpage ` set (concat ?hs))" unfolding AC hsd by auto
  have b_new: "b \<notin> bdesc ` set (concat ?hs)" "b \<notin> set fb" "pg \<notin> bpage ` set (concat ?hs)"
    "distinct (fb @ map bdesc (concat ?hs))" "distinct (map bpage (concat ?hs))"
    using heap_distinct [OF ok] unfolding AC hsd by auto
  have fb_last: "c \<noteq> bdesc (last us)" if "c \<in> set fb" "us \<noteq> []" for c
    using heap_distinct(1) [OF ok] that last_in_set [OF that(2)] unfolding AC hsd by auto
  have fields: "desc_page m3 c = desc_page ?m c \<and> desc_freeBlock m3 c = desc_freeBlock ?m c \<and>
      desc_refCnt m3 c = desc_refCnt ?m c \<and> desc_blockSize m3 c = desc_blockSize ?m c"
    if c: "c \<in> descs fb hs" "c \<noteq> b" for c
  proof -
    have "load m3 c 32 = load m2 c 32"
      using heap_desc_apart [OF ok c(1) b_in c(2)]
      by (intro frames_load [of m2 m3 "[(b, 32)]"]) (simp_all add: m3_def frames_desc)
    note l = rd64_part [OF this, of 0] rd64_part [OF this, of 16] rd32_part [OF this, of 24] rd32_part [OF this, of 28]
    note l1 = rd64_part [OF ld1 [OF c(1)], of 0] rd64_part [OF ld1 [OF c(1)], of 16]
      rd32_part [OF ld1 [OF c(1)], of 24] rd32_part [OF ld1 [OF c(1)], of 28]
    show ?thesis
    proof (cases "us \<noteq> [] \<and> c = bdesc (last us)")
      case True
      then show ?thesis using l l1 by (simp add: m2_def)
    next
      case False
      note o = off [OF c]
      show ?thesis
        using rd64_part [OF o, of 0] rd64_part [OF o, of 16] rd32_part [OF o, of 24] rd32_part [OF o, of 28] False by auto
    qed
  qed
  have in_hs: "bk' \<in> set (hs ! e) \<and> bdesc bk' \<noteq> b" if "e < 9" "bk' \<in> set (?hs ! e)" for e bk'
  proof -
    have "bk' \<in> set (concat ?hs)" using that heap_len(1) [OF ok] in_concat_nth [of e ?hs bk'] by simp
    then have "bdesc bk' \<noteq> b" using b_new(1) by (metis imageI)
    moreover have "bk' \<in> set (hs ! e)" using that hsd len by (cases "e = d") auto
    ultimately show ?thesis by blast
  qed
  have b2: "bucket_ok m3 (bsize e) bk'" if e: "e < 9" "bk' \<in> set (?hs ! e)" for e bk'
  proof -
    note i = in_hs [OF e]
    then have c: "bdesc bk' \<in> descs fb hs" "bdesc bk' \<noteq> b" using heap_desc_in [OF ok e(1)] by auto
    have "load m3 x 8 = load ?m x 8" if "x \<in> set (bfree bk')" for x
      using blk [OF e(1) _ heap_free_block_in [OF ok e(1) _ that], of 8] i bsize_dvd(2) [OF e(1)] by blast
    then show ?thesis
      using bucket_ok_fields [OF heap_bucket [OF ok e(1) conjunct1 [OF i]], of m3] fields [OF c] by simp
  qed
  have nxt_b: "desc_next m3 b = free_bucket_chain h" by (simp add: m3_def)
  have nx: "desc_next m3 c = desc_next ?m c" if "c \<in> descs fb hs" "c \<noteq> b" "us = [] \<or> c \<noteq> bdesc (last us)" for c
    using rd64_part [OF off [OF that], of 8] by simp
  have "path (desc_next m3) (free_bucket_chain h) fb"
    using heap_fb [OF ok] by (rule path_cong) (metis nx descs_fb b_new(2) fb_last)
  moreover have "b \<noteq> 0" using path_null_notin [OF ch] by auto
  ultimately have fbp: "path (desc_next m3) b (b # fb)" using nxt_b by simp
  have b1: "path (desc_next m3) (snd (ds ! e)) (map bdesc (?hs ! e))" if e: "e < 9" for e
  proof (cases "e = d")
    case False
    have "c \<in> descs fb hs \<and> c \<noteq> b \<and> (us = [] \<or> c \<noteq> bdesc (last us))" if c: "c \<in> set (map bdesc (hs ! e))" for c
    proof -
      obtain bk' where bk': "bk' \<in> set (hs ! e)" "c = bdesc bk'" using c by auto
      have ne: "c \<noteq> bdesc y" if "y \<in> set (hs ! d)" for y
        using distinct_concat_nth [of bdesc hs e d bk' y] heap_distinct(1) [OF ok] e len bk' that False
          heap_len(1) [OF ok] by auto
      have "c \<noteq> b" using ne [OF bk] by simp
      moreover have "us \<noteq> [] \<Longrightarrow> c \<noteq> bdesc (last us)" using ne [of "last us"] hsd by simp
      ultimately show ?thesis using heap_desc_in [OF ok e bk'(1)] bk'(2) by blast
    qed
    then have "path (desc_next m3) (snd (bucket_dir h ! e)) (map bdesc (hs ! e))"
      using heap_chain [OF ok e] by (elim path_cong) (use nx in blast)
    then show ?thesis using False by (simp add: ds_def)
  next
    case True
    show ?thesis
    proof (cases "us = []")
      case us: True
      have "path (desc_next m3) (desc_next m1 b) (map bdesc vs)"
      proof (rule path_cong)
        show "path (desc_next ?m) (desc_next m1 b) (map bdesc vs)" using ch us n1 [OF b_in] by simp
      qed (use nx nodes hsd us dd in auto)
      then show ?thesis using True us len by (simp add: ds_def)
    next
      case us: False
      have "path (desc_next m3) first (map bdesc us @ map bdesc vs)"
      proof (rule path_remove [of "desc_next ?m"])
        have "apart (bdesc (last us)) 32 b 32" using us dd last_in_set [OF us] by (intro heap_desc_apart [OF ok last_in b_in]) auto
        then have "load m3 (bdesc (last us)) 32 = load m2 (bdesc (last us)) 32"
          by (intro frames_load [of m2 m3 "[(b, 32)]"]) (simp_all add: m3_def frames_desc)
        from rd64_part [OF this, of 8] show "desc_next m3 (last (map bdesc us)) = desc_next ?m b"
          using us n1 [OF b_in] by (simp add: last_map m2_def)
        show "desc_next m3 x = desc_next ?m x"
          if "x \<in> set (map bdesc us @ map bdesc vs)" "x \<noteq> last (map bdesc us)" for x
          using that nodes hsd us dd by (intro nx) (auto simp: last_map)
      qed (use ch us in \<open>auto simp: first_def\<close>)
      then show ?thesis using True us len by (simp add: ds_def first_def)
    qed
  qed
  have "frames m1 m3 ?rs" by (rule fr2)
  then have "load m3 (fst (pm_range (kpm h))) (snd (pm_range (kpm h))) = load m1 (fst (pm_range (kpm h))) (snd (pm_range (kpm h)))"
    using heap_bitmap_desc(2) [OF ok b_in] heap_bitmap_desc(2) [OF ok last_in]
    by (intro frames_load) (auto split: if_splits)
  then have used3: "pm_used (m3, kpm h) = pm_used (?m, kpm h) - {pg}"
    using pm_used_cong(1) [of m3 "kpm h" m1] used1 by (simp add: pm_range_def)
  have "map fst ds = map fst (bucket_dir h)"
    using len by (simp add: ds_def map_update list_update_id [of "map fst (bucket_dir h)" d, simplified nth_map [OF len(2)]])
  then have sizes: "map fst ds = map fst g_bucket_dir" using heap_sizes [OF ok] by simp
  have desc: "32 dvd unat c \<and> page_of c \<in> pm_used (m3, kpm h) - bpage ` set (concat ?hs)"
    if "c \<in> set (b # fb) \<union> set (map bdesc (concat ?hs))" for c
  proof -
    have "c \<in> descs fb hs" using that unfolding descs_def sets by auto
    from heap_desc [OF ok this] show ?thesis unfolding used3 sets by simp
  qed
  have pages: "bpage ` set (concat ?hs) \<subseteq> pm_used (m3, kpm h)"
  proof -
    have "bpage ` set (concat hs) \<subseteq> pm_used (?m, kpm h)" using heap_page(3) [OF ok] by blast
    then show ?thesis using b_new(3) unfolding used3 sets by blast
  qed
  have dist: "distinct ((b # fb) @ map bdesc (concat ?hs))"
    using b_new(1,2,4) unfolding append_Cons distinct.simps set_append list.set_map by blast
  have "heap_ok ?h' (b # fb) ?hs"
    unfolding heap_ok_def using fbp b1 b2 sizes desc pages dist b_new(5) heap_len(1) [OF ok] heap_pm(2) [OF ok]
      pm_invar_mem [OF heap_pm(1) [OF ok], of m3] by (simp del: set_concat concat.simps)
  then show ?thesis using rel blk by auto
qed

lemma unat_align32: "unat (x AND NOT (0xfff :: u32)) = 4096 * (unat x div 4096)"
proof -
  have e: "NOT (0xfff :: u32) = NOT (mask 12)" by (simp add: mask_eq_exp_minus_1)
  have "x AND NOT (mask 12) = push_bit 12 (drop_bit 12 x)"
    by (rule bit_eqI) (auto simp: bit_and_iff bit_not_iff bit_mask_iff bit_push_bit_iff bit_drop_bit_eq
        simp del: mask_numeral)
  moreover have "unat (drop_bit 12 x) = unat x div 4096"
    by (simp add: unat_drop_bit_eq drop_bit_eq_div unat_div)
  moreover have "4096 * (unat x div 4096) < 2 ^ 32"
    using unat_lt [of x] order_le_less_trans [OF times_div_less_eq_dividend] by simp
  ultimately show ?thesis
    unfolding e by (simp add: push_bit_eq_mult unat_word_ariths(2) mult.commute)
qed

lemma unat_ucast_up32: "unat (ucast (y :: u32) :: u64) = unat y"
proof -
  have "unat y < 2 ^ 64" using unat_lt [of y] by simp
  then show ?thesis by (simp add: unsigned_ucast_eq unsigned_take_bit_eq take_bit_nat_eq_self)
qed

lemma page_align_low:
  assumes "unat ptr < 2 ^ 32"
  shows "ucast (ucast ptr AND NOT (0xfff :: u32)) = page_of ptr"
proof -
  have "unat (ucast ptr :: u32) = unat ptr"
    using assms by (simp add: unsigned_ucast_eq unsigned_take_bit_eq take_bit_nat_eq_self)
  then have "unat (ucast (ucast ptr AND NOT (0xfff :: u32)) :: u64) = unat (page_of ptr)"
    unfolding unat_page_of unat_ucast_up32 unat_align32 by (simp only:)
  then show ?thesis by (simp only: word_unat_eq_iff)
qed

lemma heap_alloc_put:
  assumes "heap_ok h fb hs" "d < 9" "hs ! d = us @ (b, pg, fl) # vs" "ptr \<in> set (blocks pg (bsize d))"
  shows "heap_alloc (hs[d := us @ (b, pg, ptr # fl) # vs]) = heap_alloc hs - {(ptr, d)}"
proof -
  have len: "d < length hs" using assms heap_len(1) by fastforce
  have bk: "(b, pg, fl) \<in> set (hs ! d)" using assms(3) by simp
  have other: "ptr \<notin> set (blocks (bpage bk) (bsize d))" if "bk \<in> set us \<union> set vs" for bk
  proof
    assume "ptr \<in> set (blocks (bpage bk) (bsize d))"
    then have "bk = (b, pg, fl)"
      using heap_block_unique [OF assms(1,2) _ _ assms(2) bk, of bk ptr] that assms(3,4) by auto
    moreover have "distinct (map bdesc (hs ! d))"
      using path_distinct [OF heap_chain [OF assms(1,2)]] .
    ultimately show False using that unfolding assms(3) by (auto simp: image_iff)
  qed
  show ?thesis
    using len other unfolding heap_alloc_def
    by (auto simp: nth_list_update assms(3) split: if_splits)
qed

lemma heap_alloc_remove:
  assumes "heap_ok h fb hs" "d < 9" "hs ! d = us @ (b, pg, fl) # vs" "set (blocks pg (bsize d)) \<subseteq> set fl"
  shows "heap_alloc (hs[d := us @ vs]) = heap_alloc hs"
proof -
  have "(\<exists>bk \<in> set (hs ! d). x \<in> set (blocks (bpage bk) (bsize d)) - set (bfree bk)) \<longleftrightarrow>
      (\<exists>bk \<in> set (us @ vs). x \<in> set (blocks (bpage bk) (bsize d)) - set (bfree bk))" for x
    using assms(3,4) by (simp add: subset_iff) blast
  then have "(x, e) \<in> heap_alloc (hs[d := us @ vs]) \<longleftrightarrow> (x, e) \<in> heap_alloc hs" for x e
    using assms(2) heap_len(1) [OF assms(1)] unfolding heap_alloc_def mem_Collect_eq case_prod_conv
    by (cases "e = d") simp_all
  then show ?thesis by auto
qed

text \<open>Freeing an allocated block whose second word is zero.\<close>

lemma kfree_ok:
  assumes ok: "heap_ok h fb hs" and lock: "heap_lock h = 0" and a: "(ptr, d) \<in> heap_alloc hs"
    and len: "find_dir (bucket_dir h) len = d" and clean: "rd32 (kmem h) (ptr + 4) = 0"
  shows "\<exists>h' fb' hs'. kfree_s h ptr len = Some h' \<and> heap_ok h' fb' hs' \<and> heap_lock h' = 0 \<and>
    heap_alloc hs' = heap_alloc hs - {(ptr, d)} \<and>
    load (kmem h') (ptr + of_nat 4) (bsize d - 4) = load (kmem h) (ptr + of_nat 4) (bsize d - 4) \<and>
    (\<forall>(x, e) \<in> heap_alloc hs'. load (kmem h') x (bsize e) = load (kmem h) x (bsize e))"
proof -
  obtain bk where bk: "d < 9" "bk \<in> set (hs ! d)" "ptr \<in> set (blocks (bpage bk) (bsize d))" "ptr \<notin> set (bfree bk)"
    using heap_alloc_in [OF ok a] by blast
  note d = bk(1)
  obtain b pg fl where b: "bk = (b, pg, fl)" by (cases bk)
  obtain us vs where hsd: "hs ! d = us @ (b, pg, fl) # vs" using bk(2) b by (metis split_list)
  let ?h1 = "h\<lparr>heap_lock := 1\<rparr>"
  have ok1: "heap_ok ?h1 fb hs" using heap_ok_dir [OF ok] .
  have sz: "fst (bucket_dir h ! d) \<noteq> 0" using bucket_dir_size(1) [OF ok d] bsize_cases [OF d] by auto
  have bb: "page_of ptr = pg" "unat ptr < 2 ^ 32"
    using block_bounds [OF ok bk(1-3)] b bsize_dvd(2) [OF d] by auto
  have al: "ucast (ucast ptr AND NOT (0xfff :: u32)) = pg" using page_align_low [OF bb(2)] bb(1) by simp
  have pgs: "desc_page (kmem h) (bdesc y) = bpage y" if "y \<in> set (hs ! d)" for y
    using heap_bucket [OF ok d that] by (simp add: bucket_ok_def)
  have fn: "first_node (\<lambda>b. desc_page (kmem h) b = pg) (map bdesc (hs ! d)) = b"
  proof -
    have "first_node (\<lambda>b. desc_page (kmem h) b = pg) (map bdesc (us @ (b, pg, fl) # vs)) = b"
      if "\<forall>y \<in> set us. desc_page (kmem h) (bdesc y) \<noteq> pg" "desc_page (kmem h) b = pg" for us vs
      using that by (induction us) auto
    moreover have "bpage y \<noteq> pg" if "y \<in> set us" for y
    proof -
      obtain A C where "concat hs = A @ hs ! d @ C" using concat_split [of d hs] d heap_len(1) [OF ok] by auto
      then show ?thesis using heap_distinct(2) [OF ok] that unfolding hsd by auto
    qed
    ultimately show ?thesis using pgs hsd by (metis Un_iff fst_conv list.set_intros(1) set_append snd_conv)
  qed
  have find: "find_page_bucket (kmem h) pg (snd (bucket_dir h ! d)) = Some b"
    using fp.search_path [OF heap_chain [OF ok d]] fn by simp
  have b0: "b \<noteq> 0" using path_null_notin [OF heap_chain [OF ok d]] hsd by auto
  let ?m2 = "put_block (kmem h) b ptr" and ?hs2 = "hs[d := us @ (b, pg, ptr # fl) # vs]"
  let ?h2 = "?h1\<lparr>kmem := ?m2\<rparr>"
  note P = put_block_ok [OF ok d hsd bk(3) [unfolded b, simplified] bk(4) [unfolded b, simplified] clean]
  have ok2: "heap_ok ?h2 fb ?hs2" using P(2) by (simp add: heap_ok_def)
  have len2: "d < length hs" using d heap_len(1) [OF ok] by simp
  have hsd2: "?hs2 ! d = us @ (b, pg, ptr # fl) # vs" using len2 by simp
  have alloc2: "heap_alloc ?hs2 = heap_alloc hs - {(ptr, d)}"
    using heap_alloc_put [OF ok d hsd] bk(3) b by simp
  have keep: "load ?m2 x (bsize e) = load (kmem h) x (bsize e)" if xe: "(x, e) \<in> heap_alloc hs - {(ptr, d)}" for x e
  proof (rule frames_load [OF P(1)])
    obtain bk' where bk': "e < 9" "bk' \<in> set (hs ! e)" "x \<in> set (blocks (bpage bk') (bsize e))"
      using heap_alloc_in [OF ok] xe by blast
    have "apart x (bsize e) b 32"
      using heap_desc_block(2) [OF ok heap_desc_in [OF ok bk(1,2)] bk'] b by simp
    moreover have "apart x (bsize e) ptr 4"
      using heap_alloc_apart(2) [OF ok _ a, of x e] xe bsize_dvd(2) [OF d] by (auto elim: apart_mono)
    ultimately show "\<forall>(a, n) \<in> set [(b, 32), (ptr, 4)]. apart x (bsize e) a n" by simp
  qed
  have tail: "load ?m2 (ptr + of_nat 4) (bsize d - 4) = load (kmem h) (ptr + of_nat 4) (bsize d - 4)"
  proof (rule frames_load [OF P(1)])
    have "apart ptr (bsize d) b 32" using heap_desc_block(2) [OF ok heap_desc_in [OF ok bk(1,2)] bk(1-3)] b by simp
    then have "apart (ptr + of_nat 4) (bsize d - 4) b 32" using bsize_dvd(2) [OF d] by (intro apart_offset) auto
    moreover have "apart (ptr + of_nat 4) (bsize d - 4) (ptr + of_nat 0) 4"
      using bsize_dvd(2,3) [OF d] by (intro apart_offset_same(2)) auto
    ultimately show "\<forall>(a, n) \<in> set [(b, 32), (ptr, 4)]. apart (ptr + of_nat 4) (bsize d - 4) a n" by simp
  qed
  have kf: "kfree_s h ptr len = (case (if desc_refCnt ?m2 b = 0 then release_bucket ?h2 d b else Some ?h2) of
      None \<Rightarrow> None | Some h3 \<Rightarrow> Some (h3\<lparr>heap_lock := 0\<rparr>))"
    using sz find b0 al by (simp add: kfree_s_def spin_lock_def spin_unlock_def lock len Let_def split: option.split)
  show ?thesis
  proof (cases "desc_refCnt ?m2 b = 0")
    case False
    then have "kfree_s h ptr len = Some (?h2\<lparr>heap_lock := 0\<rparr>)" using kf by simp
    then show ?thesis using heap_ok_dir [OF ok2, of 0] alloc2 keep tail by (intro exI [of _ fb] exI [of _ ?hs2] exI) auto
  next
    case True
    obtain h3 where r: "release_bucket ?h2 d b = Some h3" "heap_ok h3 (b # fb) (?hs2[d := us @ vs])"
        "\<forall>e < 9. \<forall>bk \<in> set (?hs2 ! e). \<forall>x \<in> set (blocks (bpage bk) (bsize e)).
          load (kmem h3) x (bsize e) = load ?m2 x (bsize e)"
      using release_bucket_ok [OF ok2 d hsd2] by auto
    have "bucket_ok ?m2 (bsize d) (b, pg, ptr # fl)" using heap_bucket [OF ok2 d, of "(b, pg, ptr # fl)"] hsd2 by simp
    then have cnt: "(of_nat (4096 div bsize d - length (ptr # fl)) :: u32) = 0"
      and sub: "set (ptr # fl) \<subseteq> set (blocks pg (bsize d))" and dist: "distinct (ptr # fl)"
      using True path_distinct [of "rd64 ?m2" _ "ptr # fl"] by (auto simp: bucket_ok_def)
    have "4096 div bsize d \<le> 4096" by (rule div_le_dividend)
    then have "4096 div bsize d - length (ptr # fl) \<le> 4096" by linarith
    then have "4096 div bsize d - length (ptr # fl) < 2 ^ 32" by (rule order_le_less_trans) simp
    then have "4096 div bsize d \<le> length (ptr # fl)"
      using cnt of_nat_u32_eq [of "4096 div bsize d - length (ptr # fl)" 0] by simp
    then have "set (ptr # fl) = set (blocks pg (bsize d))"
      using sub dist card_length [of "blocks pg (bsize d)"] distinct_card [OF dist]
      by (intro card_seteq) (auto simp: blocks_def simp del: card_set)
    then have "heap_alloc (?hs2[d := us @ vs]) = heap_alloc ?hs2"
      using heap_alloc_remove [OF ok2 d hsd2] by simp
    moreover have "kfree_s h ptr len = Some (h3\<lparr>heap_lock := 0\<rparr>)" using kf True r(1) by simp
    moreover have "load (kmem h3) x (bsize e) = load (kmem h) x (bsize e)" if xe: "(x, e) \<in> heap_alloc ?hs2" for x e
    proof -
      obtain bk' where "e < 9" "bk' \<in> set (?hs2 ! e)" "x \<in> set (blocks (bpage bk') (bsize e))"
        using heap_alloc_in [OF ok2 xe] by blast
      then have "load (kmem h3) x (bsize e) = load ?m2 x (bsize e)" using r(3) by blast
      then show ?thesis using keep xe alloc2 by simp
    qed
    moreover have "load (kmem h3) ptr (bsize d) = load ?m2 ptr (bsize d)"
      using r(3) [rule_format, OF d, of "(b, pg, ptr # fl)" ptr] bk(3) b hsd2 by simp
    then have "load (kmem h3) (ptr + of_nat 4) (bsize d - 4) = load (kmem h) (ptr + of_nat 4) (bsize d - 4)"
      using load_part [of "kmem h3" ptr "bsize d" ?m2 4 "bsize d - 4"] tail bsize_dvd(2) [OF d] by simp
    ultimately show ?thesis
      using heap_ok_dir [OF r(2), of 0] alloc2 by (intro exI [of _ "b # fb"] exI [of _ "?hs2[d := us @ vs]"] exI) auto
  qed
qed

section \<open>The allocator's contract\<close>

text \<open>The allocator is unlocked and \<open>A\<close> is the set of allocated blocks.\<close>

definition heap_inv :: "'x kheap_scheme \<Rightarrow> (u64 \<times> nat) set \<Rightarrow> bool" where
  "heap_inv h A \<longleftrightarrow> heap_lock h = 0 \<and> (\<exists>fb hs. heap_ok h fb hs \<and> heap_alloc hs = A)"

definition len_class :: "u32 \<Rightarrow> nat" where
  "len_class len = find_dir g_bucket_dir len"

text \<open>
  The allocator can serve \<open>n\<close> requests without running into a missing page for
  its descriptors: the pages that are left are zero, and there are \<open>n\<close> unused
  descriptors or more pages left than unused descriptors (a page of descriptors
  holds 128).
\<close>

definition heap_ready :: "nat \<Rightarrow> 'x kheap_scheme \<Rightarrow> bool" where
  "heap_ready n h \<longleftrightarrow> clean_pages h \<and>
     (\<exists>fb. path (desc_next (kmem h)) (free_bucket_chain h) fb \<and>
        (n \<le> length fb \<or>
         n \<le> 128 \<and> length fb < card (pm_pages (kmem h, kpm h) - pm_used (kmem h, kpm h))))"

lemma heap_ready_iff:
  "heap_ok h fb hs \<Longrightarrow> heap_ready n h \<longleftrightarrow> clean_pages h \<and>
     (n \<le> length fb \<or> n \<le> 128 \<and> length fb < card (pm_pages (kmem h, kpm h) - pm_used (kmem h, kpm h)))"
  using heap_fb [of h fb hs] path_unique unfolding heap_ready_def by blast

lemma heap_ready_step:
  assumes ok: "heap_ok h fb hs" and ok': "heap_ok h' fb' hs'" and t: "descs_taken h h' hs fb fb'"
    and ready: "heap_ready (Suc n) h"
  shows "heap_ready n h'"
proof -
  let ?P = "pm_pages (kmem h, kpm h)" and ?U = "pm_used (kmem h, kpm h)" and ?U' = "pm_used (kmem h', kpm h)"
  have k: "kpm h' = kpm h" "clean_pages h'" using descs_taken_keeps [OF t] clean_keeps ready by (auto simp: keeps_def heap_ready_def)
  have pages: "card (?P - ?U) \<le> card (?P - ?U') + j" if "keeps j h h' hs" for j
    using that by (intro grows_card) (auto simp: keeps_def)
  have r: "Suc n \<le> length fb \<or> Suc n \<le> 128 \<and> length fb < card (?P - ?U)"
    using ready unfolding heap_ready_iff [OF ok] by blast
  have "n \<le> length fb' \<or> n \<le> 128 \<and> length fb' < card (?P - ?U')"
  proof (cases "fb' = fb \<and> keeps 0 h h' hs")
    case True
    then show ?thesis using r pages [of 0] by auto
  next
    case False
    then have "descs_left fb fb'" "keeps (if fb = [] then 2 else 1) h h' hs" using t by (auto simp: descs_taken_def)
    then show ?thesis using r pages [of 1] by (cases fb) (auto simp: descs_left_def)
  qed
  then show ?thesis using k unfolding heap_ready_iff [OF ok'] k(1) pm_pages_mem [of "kmem h'" "kpm h" "kmem h"] by blast
qed

lemma find_dir_class: "heap_ok h fb hs \<Longrightarrow> find_dir (bucket_dir h) len = len_class len"
  unfolding len_class_def by (rule find_dir_sizes [OF heap_sizes])

lemma len_class_bound: "unat len \<le> 4096 \<Longrightarrow> len_class len < 9 \<and> unat len \<le> bsize (len_class len)"
  by (simp add: len_class_def g_bucket_dir_def word_le_nat_alt bsize_def)

lemma heap_inv_apart:
  assumes "heap_inv h A" "(x, d) \<in> A" "(y, e) \<in> A" "(x, d) \<noteq> (y, e)"
  shows "apart x (bsize d) y (bsize e)"
  using assms heap_alloc_apart(2) by (fastforce simp: heap_inv_def)

lemma kmalloc_inv:
  assumes inv: "heap_inv h A" and ready: "heap_ready (Suc n) h" and len: "unat len \<le> 4096"
  shows "\<exists>h' p. kmalloc h len = Some (h', p) \<and>
    (\<forall>(q, e) \<in> A. load (kmem h') q (bsize e) = load (kmem h) q (bsize e)) \<and>
    heap_ready n h' \<and>
    (\<forall>x. \<not> heap_owned (kpm h) x \<longrightarrow> kmem h' x = kmem h x) \<and> kpm h' = kpm h \<and>
    (if p = 0 then heap_inv h' A \<and> pm_pages (kmem h, kpm h) \<subseteq> pm_used (kmem h', kpm h)
     else p \<notin> fst ` A \<and> heap_inv h' (insert (p, len_class len) A))"
proof -
  obtain fb hs where ok: "heap_ok h fb hs" "heap_alloc hs = A" and lock: "heap_lock h = 0"
    using inv by (auto simp: heap_inv_def)
  have r: "clean_pages h" "fb \<noteq> [] \<or> pm_pages (kmem h, kpm h) - pm_used (kmem h, kpm h) \<noteq> {}"
    using ready unfolding heap_ready_iff [OF ok(1)] by (auto simp: card_gt_0_iff)
  obtain h' p fb' hs' where K: "kmalloc h len = Some (h', p)" "heap_ok h' fb' hs'" "descs_taken h h' hs fb fb'"
    "if p = 0 then hs' = hs \<and> pm_pages (kmem h, kpm h) \<subseteq> pm_used (kmem h', kpm h)
     else heap_alloc hs' = insert (p, len_class len) A \<and> p \<notin> fst ` A"
    using kmalloc_ok [OF ok(1) lock r len] find_dir_class [OF ok(1), of len] ok(2) by auto
  note k = descs_taken_keeps [OF K(3)]
  have "load (kmem h') q (bsize e) = load (kmem h) q (bsize e)" if qe: "(q, e) \<in> A" for q e
  proof -
    obtain bk where "e < 9" "bk \<in> set (hs ! e)" "q \<in> set (blocks (bpage bk) (bsize e))"
      using heap_alloc_in [OF ok(1)] qe ok(2) by blast
    then show ?thesis using k by (simp add: keeps_def)
  qed
  moreover have "heap_lock h' = 0" using k lock by (simp add: keeps_def)
  moreover have "heap_ready n h'" using heap_ready_step [OF ok(1) K(2,3) ready] .
  moreover have "\<forall>x. \<not> heap_owned (kpm h) x \<longrightarrow> kmem h' x = kmem h x" "kpm h' = kpm h"
    using k by (simp_all add: keeps_def)
  ultimately show ?thesis using K ok(2) by (auto simp: heap_inv_def split: if_splits)
qed

lemma kfree_inv:
  assumes inv: "heap_inv h A" and p: "(ptr, len_class len) \<in> A" and clean: "rd32 (kmem h) (ptr + 4) = 0"
  shows "\<exists>h'. kfree_s h ptr len = Some h' \<and> heap_inv h' (A - {(ptr, len_class len)}) \<and>
    load (kmem h') (ptr + of_nat 4) (bsize (len_class len) - 4) = load (kmem h) (ptr + of_nat 4) (bsize (len_class len) - 4) \<and>
    (\<forall>(q, e) \<in> A - {(ptr, len_class len)}. load (kmem h') q (bsize e) = load (kmem h) q (bsize e))"
proof -
  obtain fb hs where ok: "heap_ok h fb hs" "heap_alloc hs = A" and lock: "heap_lock h = 0"
    using inv by (auto simp: heap_inv_def)
  have "(ptr, len_class len) \<in> heap_alloc hs" using p ok(2) by simp
  from kfree_ok [OF ok(1) lock this find_dir_class [OF ok(1)] clean] obtain h' fb' hs'
    where "kfree_s h ptr len = Some h'" "heap_ok h' fb' hs'" "heap_lock h' = 0"
      "heap_alloc hs' = A - {(ptr, len_class len)}"
      "load (kmem h') (ptr + of_nat 4) (bsize (len_class len) - 4) = load (kmem h) (ptr + of_nat 4) (bsize (len_class len) - 4)"
      "\<forall>(x, e) \<in> heap_alloc hs'. load (kmem h') x (bsize e) = load (kmem h) x (bsize e)"
    unfolding ok(2) by blast
  then show ?thesis unfolding heap_inv_def
    by (intro exI [of _ h'] conjI exI [of _ fb'] exI [of _ hs']) simp_all
qed

interpretation kheap: block_allocator kmalloc kfree_s len_class
  "\<lambda>h len. heap_ready 1 h \<and> unat len \<le> 4096" "\<lambda>h p. rd32 (kmem h) (p + 4) = 0" heap_inv
proof
  fix h :: "'a kheap_scheme" and A l p
  assume inv: "heap_inv h A"
  show "heap_ready 1 h \<and> unat l \<le> 4096 \<Longrightarrow> \<exists>s' p. kmalloc h l = Some (s', p) \<and>
      (if p = 0 then heap_inv s' A else p \<notin> fst ` A \<and> heap_inv s' (insert (p, len_class l) A))"
    using kmalloc_inv [OF inv, of 0 l] by (simp, metis (no_types, lifting))
  show "(p, len_class l) \<in> A \<Longrightarrow> rd32 (kmem h) (p + 4) = 0 \<Longrightarrow>
      \<exists>s'. kfree_s h p l = Some s' \<and> heap_inv s' (A - {(p, len_class l)})"
    using kfree_inv [OF inv] by blast
qed

end
