(* ===== verification/MallocSpec.thy ===== *)
theory MallocSpec
  imports HeapProps
begin

text \<open>
  The properties of kmalloc, kzalloc and kfree_s (x64_kenerl/mm/malloc.c),
  stated over the set of allocated blocks, and the defect in the links of the
  free lists: kfree_s writes a link of 4 bytes, kmalloc reads one of 8.
\<close>

section \<open>Lemmas\<close>

text \<open>The state at boot: an empty directory over an initialised page allocator.\<close>

lemma heap_inv_boot:
  assumes "pm_invar (m, pm)" "pm_layout pm"
  shows "heap_inv \<lparr>kmem = m, kpm = pm, bucket_dir = g_bucket_dir, free_bucket_chain = 0, heap_lock = 0\<rparr> {}"
proof -
  let ?h = "\<lparr>kmem = m, kpm = pm, bucket_dir = g_bucket_dir, free_bucket_chain = 0, heap_lock = 0\<rparr>"
  have "snd (g_bucket_dir ! d) = 0" if "d < 9" for d
  proof -
    have "snd (g_bucket_dir ! d) \<in> snd ` set g_bucket_dir" using that by (simp add: g_bucket_dir_def del: set_simps)
    then show ?thesis by (simp add: g_bucket_dir_def)
  qed
  then have "heap_ok ?h [] (replicate 9 [])"
    using assms by (simp add: heap_ok_def concat_replicate_trivial)
  moreover have "heap_alloc (replicate 9 []) = {}" by (simp add: heap_alloc_def)
  ultimately show ?thesis by (auto simp: heap_inv_def)
qed

lemma heap_inv_block:
  assumes "heap_inv h A" "(p, d) \<in> A"
  shows "d < 9" "p \<noteq> 0" "unat p + bsize d \<le> 2 ^ 32"
proof -
  obtain fb hs where ok: "heap_ok h fb hs" "heap_alloc hs = A" using assms by (auto simp: heap_inv_def)
  obtain bk where bk: "d < 9" "bk \<in> set (hs ! d)" "p \<in> set (blocks (bpage bk) (bsize d))"
    using heap_alloc_in [OF ok(1)] assms(2) ok(2) by blast
  show "d < 9" "p \<noteq> 0" "unat p + bsize d \<le> 2 ^ 32" using block_bounds [OF ok(1) bk] bk(1) by auto
qed

text \<open>Writing inside allocated blocks.\<close>

lemma heap_inv_writes:
  assumes inv: "heap_inv h A" and ps: "set ps \<subseteq> A" and fr: "frames (kmem h) m' (map (\<lambda>(p, d). (p, bsize d)) ps)"
  shows "heap_inv (h\<lparr>kmem := m'\<rparr>) A"
    "(q, e) \<in> A - set ps \<Longrightarrow> load m' q (bsize e) = load (kmem h) q (bsize e)"
    "heap_ready n (h\<lparr>kmem := m'\<rparr>) = heap_ready n h"
proof -
  obtain fb hs where ok: "heap_ok h fb hs" "heap_alloc hs = A" and lock: "heap_lock h = 0"
    using inv by (auto simp: heap_inv_def)
  have block: "\<exists>p d bk. (a, n) = (p, bsize d) \<and> (p, d) \<in> set ps \<and> d < 9 \<and> bk \<in> set (hs ! d) \<and>
      p \<in> set (blocks (bpage bk) (bsize d)) \<and> p \<notin> set (bfree bk)"
    if in_ps: "(a, n) \<in> set (map (\<lambda>(p, d). (p, bsize d)) ps)" for a n
  proof -
    obtain p d where pd: "(p, d) \<in> set ps" "a = p" "n = bsize d" using in_ps by auto
    then obtain bk where "d < 9" "bk \<in> set (hs ! d)" "p \<in> set (blocks (bpage bk) (bsize d))" "p \<notin> set (bfree bk)"
      using heap_alloc_in [OF ok(1)] ps ok(2) by blast
    then show ?thesis using pd by blast
  qed
  have ok': "heap_ok (h\<lparr>kmem := m'\<rparr>) fb hs"
  proof (rule heap_ok_outside [OF ok(1) fr])
    fix a x :: u64 and n e :: nat and bk' :: bucket
    assume in_ps: "(a, n) \<in> set (map (\<lambda>(p, d). (p, bsize d)) ps)"
      and *: "e < 9" "bk' \<in> set (hs ! e)" "x \<in> set (bfree bk')"
    obtain p d bk where bk: "(a, n) = (p, bsize d)" "d < 9" "bk \<in> set (hs ! d)" "p \<in> set (blocks (bpage bk) (bsize d))" "p \<notin> set (bfree bk)"
      using block [OF in_ps] by blast
    have x: "x \<in> set (blocks (bpage bk') (bsize e))" using heap_free_block_in [OF ok(1) *(1-3)] .
    then have "x \<noteq> p" using heap_block_unique [OF ok(1) bk(2-4) *(1,2)] *(3) bk(5) by auto
    then show "apart x 8 a n"
      using heap_block_block [OF ok(1) *(1,2) bk(2,3) x bk(4)] bk(1) bsize_dvd(2) [OF *(1)] by simp
  qed (use block heap_bitmap_block(2) [OF ok(1)] heap_desc_block(1) [OF ok(1)] in blast)+
  then show "heap_inv (h\<lparr>kmem := m'\<rparr>) A" using ok(2) lock by (auto simp: heap_inv_def)
  show "(q, e) \<in> A - set ps \<Longrightarrow> load m' q (bsize e) = load (kmem h) q (bsize e)"
  proof (rule frames_load [OF fr], clarify)
    fix a n
    assume q: "(q, e) \<in> A" "(q, e) \<notin> set ps" and "(a, n) \<in> set (map (\<lambda>(p, d). (p, bsize d)) ps)"
    then obtain d where "(a, d) \<in> set ps" "n = bsize d" by auto
    then show "apart q (bsize e) a n" using heap_inv_apart [OF inv, of q e a d] ps q by auto
  qed
  have bm: "\<forall>(a, n) \<in> set (map (\<lambda>(p, d). (p, bsize d)) ps). apart (fst (pm_range (kpm h))) (snd (pm_range (kpm h))) a n"
    using block heap_bitmap_block(2) [OF ok(1)] by blast
  note pm = heap_pm_frame [OF ok(1) fr bm]
  have "load m' x 4096 = load (kmem h) x 4096" if x: "x \<in> pm_pages (kmem h, kpm h) - pm_used (kmem h, kpm h)" for x
  proof (rule frames_load [OF fr], clarify)
    fix a n
    assume "(a, n) \<in> set (map (\<lambda>(p, d). (p, bsize d)) ps)"
    then obtain p d bk where bk: "(a, n) = (p, bsize d)" "d < 9" "bk \<in> set (hs ! d)" "p \<in> set (blocks (bpage bk) (bsize d))"
      using block by blast
    then have "apart p (bsize d) x 4096"
      using unused_page_apart(3) [OF ok(1) free_page_unused [OF ok(1) x] bk(2-4), of "bsize d"] bsize_dvd(2) [OF bk(2)] by simp
    then show "apart x 4096 a n" using bk(1) by (simp add: apart_commute)
  qed
  then show "heap_ready n (h\<lparr>kmem := m'\<rparr>) = heap_ready n h"
    using pm unfolding heap_ready_iff [OF ok(1)] heap_ready_iff [OF ok'] by (simp add: clean_pages_def)
qed

lemma heap_inv_write:
  assumes "heap_inv h A" "(p, d) \<in> A" "frames (kmem h) m' [(p, bsize d)]"
  shows "heap_inv (h\<lparr>kmem := m'\<rparr>) A"
    "(q, e) \<in> A - {(p, d)} \<Longrightarrow> load m' q (bsize e) = load (kmem h) q (bsize e)"
    "heap_ready n (h\<lparr>kmem := m'\<rparr>) = heap_ready n h"
  using heap_inv_writes [OF assms(1), of "[(p, d)]" m'] assms(2,3) by simp_all

lemma memset_frame: "unat n \<le> k \<Longrightarrow> frames m (memset m p c n) [(p, k)]" for m :: mem
  using frames_inside [of m "memset m p c n" p 0 "unat n" k] frames_store [of m p "replicate (unat n) (ucast c)"]
  by (simp add: memset_eq_store)

lemma memset_load: "load (memset m p c n) p (unat n) = replicate (unat n) (ucast c)" for m :: mem
proof -
  have "unat n \<le> 2 ^ 64" using unat_lt [of n] by simp
  then show ?thesis by (simp add: memset_eq_store load_store_same)
qed

text \<open>kzalloc: the block is zero over the requested length.\<close>

lemma block_owned:
  assumes "heap_inv h A" "(p, d) \<in> A" "unat (x - p) < bsize d"
  shows "heap_owned (kpm h) x"
proof -
  obtain fb hs where ok: "heap_ok h fb hs" "heap_alloc hs = A" using assms(1) by (auto simp: heap_inv_def)
  obtain bk where bk: "d < 9" "bk \<in> set (hs ! d)" "p \<in> set (blocks (bpage bk) (bsize d))"
    using heap_alloc_in [OF ok(1)] assms(2) ok(2) by blast
  obtain i where i: "p = bpage bk + of_nat i" "i + bsize d \<le> 4096"
    using block_in_page [OF bk(3) bsize_dvd(1) [OF bk(1)]] by blast
  then have "unat (x - bpage bk) < 4096"
    using unat_diff_offset [of 4096 x "bpage bk" i "bsize d"] assms(3) by (metis linorder_not_less)
  moreover have "bpage bk \<in> pm_pages (kmem h, kpm h)"
    using heap_page(3) [OF ok(1) heap_bucket_in [OF ok(1) bk(1,2)]] pm_used_pages by blast
  ultimately show ?thesis by (rule pm_pages_owned [rotated])
qed

lemma kzalloc_inv:
  assumes inv: "heap_inv h A" and ready: "heap_ready (Suc n) h" and len: "unat len \<le> 4096"
  shows "\<exists>h' p. kzalloc h len = Some (h', p) \<and>
    (\<forall>(q, e) \<in> A. load (kmem h') q (bsize e) = load (kmem h) q (bsize e)) \<and>
    heap_ready n h' \<and>
    (\<forall>x. \<not> heap_owned (kpm h) x \<longrightarrow> kmem h' x = kmem h x) \<and> kpm h' = kpm h \<and>
    (if p = 0 then heap_inv h' A else p \<notin> fst ` A \<and> heap_inv h' (insert (p, len_class len) A) \<and>
       load (kmem h') p (unat len) = replicate (unat len) 0)"
proof -
  obtain h1 p where K: "kmalloc h len = Some (h1, p)"
    "\<forall>(q, e) \<in> A. load (kmem h1) q (bsize e) = load (kmem h) q (bsize e)"
    "heap_ready n h1"
    "\<forall>x. \<not> heap_owned (kpm h) x \<longrightarrow> kmem h1 x = kmem h x" "kpm h1 = kpm h"
    "if p = 0 then heap_inv h1 A \<and> pm_pages (kmem h, kpm h) \<subseteq> pm_used (kmem h1, kpm h)
     else p \<notin> fst ` A \<and> heap_inv h1 (insert (p, len_class len) A)"
    using kmalloc_inv [OF assms] by blast
  show ?thesis
  proof (cases "p = 0")
    case True
    then show ?thesis using K by (auto simp: kzalloc_def)
  next
    case False
    let ?m = "memset (kmem h1) p 0 len" and ?A = "insert (p, len_class len) A"
    have fresh: "p \<notin> fst ` A" and inv1: "heap_inv h1 ?A" using K(6) False by auto
    have fr: "frames (kmem h1) ?m [(p, bsize (len_class len))]"
      using len_class_bound [OF len] by (intro memset_frame) simp
    note W = heap_inv_write [OF inv1 insertI1 fr]
    have "load ?m q (bsize e) = load (kmem h) q (bsize e)" if "(q, e) \<in> A" for q e
    proof -
      have "(q, e) \<in> ?A - {(p, len_class len)}" using that fresh by force
      from W(2) [OF this] show ?thesis using K(2) that by auto
    qed
    moreover have outside: "?m x = kmem h x" if "\<not> heap_owned (kpm h) x" for x
      using block_owned [OF inv1 insertI1] that K(4,5) frames_owned [OF fr _ that] by auto
    ultimately show ?thesis
      using K(1,3,5) outside False fresh W(1,3) memset_load [of "kmem h1" p 0 len] by (auto simp: kzalloc_def)
  qed
qed

section \<open>Properties\<close>

text \<open>C9. kmalloc of at most 4096 bytes returns, with the lock released: either a block
  of a sufficient size class that was not allocated and does not overlap any
  allocated block, or the null pointer when no page is left. The contents of
  the allocated blocks do not change.\<close>

theorem kmalloc_correct:
  assumes "heap_inv h A" "heap_ready (Suc n) h" "unat len \<le> 4096"
  shows "\<exists>h' p. kmalloc h len = Some (h', p) \<and> heap_lock h' = 0 \<and> heap_ready n h' \<and>
    (\<forall>x. \<not> heap_owned (kpm h) x \<longrightarrow> kmem h' x = kmem h x) \<and>
    (\<forall>(q, e) \<in> A. load (kmem h') q (bsize e) = load (kmem h) q (bsize e)) \<and>
    (if p = 0 then heap_inv h' A \<and> pm_pages (kmem h, kpm h) \<subseteq> pm_used (kmem h', kpm h)
     else unat len \<le> bsize (len_class len) \<and> heap_inv h' (insert (p, len_class len) A) \<and>
       (\<forall>(q, e) \<in> A. apart p (bsize (len_class len)) q (bsize e)))"
proof -
  obtain h' p where K: "kmalloc h len = Some (h', p)"
    "\<forall>(q, e) \<in> A. load (kmem h') q (bsize e) = load (kmem h) q (bsize e)" "heap_ready n h'"
    "\<forall>x. \<not> heap_owned (kpm h) x \<longrightarrow> kmem h' x = kmem h x"
    "if p = 0 then heap_inv h' A \<and> pm_pages (kmem h, kpm h) \<subseteq> pm_used (kmem h', kpm h)
     else p \<notin> fst ` A \<and> heap_inv h' (insert (p, len_class len) A)"
    using kmalloc_inv [OF assms] by blast
  have "apart p (bsize (len_class len)) q (bsize e)" if "p \<noteq> 0" "(q, e) \<in> A" for q e
    using heap_inv_apart [of h' "insert (p, len_class len) A" p "len_class len" q e] K(5) that by force
  moreover have "heap_lock h' = 0" using K(5) by (auto simp: heap_inv_def split: if_splits)
  ultimately show ?thesis using K len_class_bound [OF assms(3)] by (auto split: if_splits)
qed

definition demo_heap :: kheap where
  "demo_heap = \<lparr>kmem = \<lambda>_. 0, kpm = demo_pm, bucket_dir = g_bucket_dir, free_bucket_chain = 0, heap_lock = 0\<rparr>"

lemma demo_layout: "pm_layout demo_pm"
  by (simp add: pm_layout_def demo_pm_def bitmap_make_def bm_nbits_def)

lemma demo_heap_inv: "heap_inv demo_heap {}" "n \<le> 128 \<Longrightarrow> heap_ready n demo_heap"
proof -
  show "heap_inv demo_heap {}" unfolding demo_heap_def by (rule heap_inv_boot [OF demo_pm_invar demo_layout])
  have "page_addr demo_pm 0 \<in> pm_pages (\<lambda>_. 0, demo_pm)"
    by (auto simp: pm_pages_def demo_pm_def bitmap_make_def bm_nbits_def)
  moreover have "pm_used (\<lambda>_. 0, demo_pm) = {}" by (simp add: pm_used_def bitv_def)
  ultimately have "0 < card (pm_pages (\<lambda>_. 0, demo_pm) - pm_used (\<lambda>_. 0, demo_pm))"
    by (auto simp: card_gt_0_iff simp del: Diff_empty)
  then show "n \<le> 128 \<Longrightarrow> heap_ready n demo_heap"
    unfolding heap_ready_def
    by (intro conjI exI [of _ "[]"]) (auto simp: clean_pages_def demo_heap_def load_def map_replicate_const)
qed

theorem kmalloc_correct_witness: "\<exists>h' p. kmalloc demo_heap 24 = Some (h', p) \<and> heap_lock h' = 0"
  using kmalloc_correct [OF demo_heap_inv, of 0 24] by auto

text \<open>C10. kfree_s of an allocated block, with its own length and the second word of the
  block zero, returns with the lock released; exactly that block stops being
  allocated and the contents of the others do not change.\<close>

theorem kfree_s_correct:
  assumes "heap_inv h A" "(ptr, len_class len) \<in> A" "rd32 (kmem h) (ptr + 4) = 0"
  shows "\<exists>h'. kfree_s h ptr len = Some h' \<and> heap_inv h' (A - {(ptr, len_class len)}) \<and> heap_lock h' = 0 \<and>
    (\<forall>(q, e) \<in> A - {(ptr, len_class len)}. load (kmem h') q (bsize e) = load (kmem h) q (bsize e))"
  using kfree_inv [OF assms] by (auto simp: heap_inv_def)

text \<open>A heap with one bucket, all of whose blocks are allocated.\<close>

lemma full_bucket_ok:
  assumes d: "d < 9" and h: "kpm h = demo_pm" "free_bucket_chain h = 0"
      "bucket_dir h = g_bucket_dir[d := (of_nat (bsize d), 0x300000)]"
    and used: "{0x300000, 0x301000} \<subseteq> pm_used (kmem h, demo_pm)"
    and bok: "bucket_ok (kmem h) (bsize d) (0x300000, 0x301000, [])" "desc_next (kmem h) 0x300000 = 0"
  shows "heap_ok h [] ((replicate 9 [])[d := [(0x300000, 0x301000, [])]])"
    "heap_lock h = 0 \<Longrightarrow> heap_inv h (set (blocks 0x301000 (bsize d)) \<times> {d})"
proof -
  let ?hs = "(replicate 9 [])[d := [(0x300000, 0x301000, [])]] :: bucket list list"
  have len: "length g_bucket_dir = 10" by (simp add: g_bucket_dir_def)
  have other: "snd (g_bucket_dir ! e) = 0" if "e < 9" for e
  proof -
    have "snd (g_bucket_dir ! e) \<in> snd ` set g_bucket_dir" using that len by (intro imageI nth_mem) simp
    then show ?thesis by (simp add: g_bucket_dir_def)
  qed
  have chains: "path (desc_next (kmem h)) (snd (bucket_dir h ! e)) (map bdesc (?hs ! e)) \<and>
      (\<forall>bk \<in> set (?hs ! e). bucket_ok (kmem h) (bsize e) bk)" if "e < 9" for e
    using that d other [OF that] bok len by (cases "e = d") (simp_all add: h)
  have "fst (g_bucket_dir ! d) = of_nat (bsize d)"
  proof -
    have "d = 0 \<or> d = 1 \<or> d = 2 \<or> d = 3 \<or> d = 4 \<or> d = 5 \<or> d = 6 \<or> d = 7 \<or> d = 8" using d by linarith
    then show ?thesis by (elim disjE) (simp_all add: g_bucket_dir_def bsize_def)
  qed
  then have sizes: "map fst (bucket_dir h) = map fst g_bucket_dir"
    unfolding h map_update using d len list_update_id [of "map fst g_bucket_dir" d] by simp
  have conc: "concat ?hs = [(0x300000, 0x301000, [])]"
    using d by (simp add: upd_conv_take_nth_drop concat_replicate_trivial)
  have "page_of 0x300000 = 0x300000" by (simp add: page_of_def)
  then show ok: "heap_ok h [] ?hs"
    using chains used demo_pm_invar [of "kmem h"] demo_layout sizes unfolding heap_ok_def conc
    by (simp add: h(1,2))
  have "heap_alloc ?hs = set (blocks 0x301000 (bsize d)) \<times> {d}"
    using d by (auto simp: heap_alloc_def nth_list_update split: if_splits)
  then show "heap_lock h = 0 \<Longrightarrow> heap_inv h (set (blocks 0x301000 (bsize d)) \<times> {d})"
    using ok by (auto simp: heap_inv_def)
qed

text \<open>One bucket of two blocks of 2048 bytes, both allocated; its descriptor is at
  0x300000 and its page at 0x301000, and the second word of the first block is
  \<open>w\<close>.\<close>

definition two_blocks :: "u8 \<Rightarrow> kheap" where
  "two_blocks w = demo_heap\<lparr>
     kmem := (\<lambda>_. 0)(0x500 := 3, 0x300001 := 0x10, 0x300002 := 0x30, 0x300018 := 2, 0x30001D := 8, 0x301004 := w),
     bucket_dir := g_bucket_dir[7 := (2048, 0x300000)]\<rparr>"

lemma two_blocks_used: "{0x300000, 0x301000} \<subseteq> pm_used (kmem (two_blocks w), demo_pm)"
proof -
  have "bitv (kmem (two_blocks w)) (pm_map demo_pm) 0" "bitv (kmem (two_blocks w)) (pm_map demo_pm) 1"
    by (simp_all add: bitv_def two_blocks_def demo_pm_def bitmap_make_def bit_1_iff)
  moreover have "0 < bm_nbits (pm_map demo_pm)" "1 < bm_nbits (pm_map demo_pm)"
    by (simp_all add: demo_pm_def bitmap_make_def bm_nbits_def)
  ultimately have "page_addr demo_pm 0 \<in> pm_used (kmem (two_blocks w), demo_pm)"
    "page_addr demo_pm 1 \<in> pm_used (kmem (two_blocks w), demo_pm)"
    unfolding pm_used_def fst_conv snd_conv by blast+
  then show ?thesis by (simp add: page_addr_def demo_pm_def)
qed

lemma two_blocks_desc:
  "desc_page (kmem (two_blocks w)) 0x300000 = 0x301000" "desc_next (kmem (two_blocks w)) 0x300000 = 0"
  "desc_freeBlock (kmem (two_blocks w)) 0x300000 = 0" "desc_refCnt (kmem (two_blocks w)) 0x300000 = 2"
  "desc_blockSize (kmem (two_blocks w)) 0x300000 = 2048"
  by (simp_all add: two_blocks_def rd64_def rd32_def load_def upt_rec)

lemma two_blocks_bucket:
  "heap_ok (two_blocks w) [] [[], [], [], [], [], [], [], [(0x300000, 0x301000, [])], []] \<and>
   heap_inv (two_blocks w) {(0x301000, 7), (0x301800, 7)}"
proof -
  have bok: "bucket_ok (kmem (two_blocks w)) (bsize 7) (0x300000, 0x301000, [])"
    using two_blocks_desc [of w, simplified] by (simp add: bucket_ok_def bsize_def)
  have f: "kpm (two_blocks w) = demo_pm" "free_bucket_chain (two_blocks w) = 0" "heap_lock (two_blocks w) = 0"
    "bucket_dir (two_blocks w) = g_bucket_dir[7 := (of_nat (bsize 7), 0x300000)]"
    by (simp_all add: two_blocks_def demo_heap_def bsize_def)
  note F = full_bucket_ok [OF _ f(1,2,4) two_blocks_used bok two_blocks_desc(2)]
  have blk: "set (blocks 0x301000 (bsize 7)) \<times> {7 :: nat} = {(0x301000, 7), (0x301800, 7)}"
    by (auto simp: blocks_def block_def bsize_def upt_rec)
  have rep: "(replicate 9 [])[7 := [bk]] = [[], [], [], [], [], [], [], [bk], []]" for bk :: bucket
    by (simp add: eval_nat_numeral)
  have "7 < (9 :: nat)" by simp
  then show ?thesis using F(1) [unfolded rep] F(2) [OF _ f(3), unfolded blk] by (intro conjI)
qed

lemmas two_blocks_ok = two_blocks_bucket [THEN conjunct1]
lemmas two_blocks_inv = two_blocks_bucket [THEN conjunct2]

lemma len_class_2048: "len_class 2048 = 7"
  by (simp add: len_class_def g_bucket_dir_def)

lemma two_blocks_word: "rd32 (kmem (two_blocks w)) 0x301004 = ucast w"
  by (simp add: two_blocks_def rd32_def load_def upt_rec)

theorem kfree_s_correct_witness:
  "\<exists>h'. kfree_s (two_blocks 0) 0x301000 2048 = Some h' \<and> heap_inv h' {(0x301800, 7)}"
proof -
  have "{(0x301000, 7), (0x301800, 7)} - {(0x301000, 7)} = {(0x301800 :: u64, 7 :: nat)}" by auto
  then show ?thesis
    using kfree_s_correct [OF two_blocks_inv [of 0], where ptr = "0x301000" and len = 2048] two_blocks_word [of 0]
    by (auto simp: len_class_2048)
qed

text \<open>C13. The error paths that leave the whole state, the lock included, as before: a
  request above 4096 bytes, which gives the null pointer; a free with a length above 4096
  bytes; and a free of a pointer below 4 GiB into a page that is not in use. Nothing
  is said of a stray pointer into, or a second free in, the page of a bucket that is
  in use: kfree_s has no check for them.\<close>

theorem malloc_error_paths:
  assumes "heap_inv h A"
  shows "(4096 < unat len \<longrightarrow> kmalloc h len = Some (h, 0) \<and> kfree_s h ptr len = Some h) \<and>
    (unat len \<le> 4096 \<and> unat ptr < 2 ^ 32 \<and> page_of ptr \<notin> pm_used (kmem h, kpm h) \<longrightarrow> kfree_s h ptr len = Some h)"
proof -
  obtain fb hs where ok: "heap_ok h fb hs" and lock: "heap_lock h = 0" using assms by (auto simp: heap_inv_def)
  have unlock: "h\<lparr>heap_lock := 0\<rparr> = h" using lock by simp
  have big: "kmalloc h len = Some (h, 0) \<and> kfree_s h ptr len = Some h" if "4096 < unat len"
    using find_dir_spec(2) [OF ok that] bucket_dir_size(2) [OF ok, of 0] lock unlock
    by (simp add: kmalloc_def kfree_s_def spin_lock_def spin_unlock_def Let_def)
  have stray: "kfree_s h ptr len = Some h"
    if len: "unat len \<le> 4096" and ptr: "unat ptr < 2 ^ 32" "page_of ptr \<notin> pm_used (kmem h, kpm h)"
  proof -
    define d where "d = find_dir (bucket_dir h) len"
    have d: "d < 9" using find_dir_spec(1) [OF ok len] by (simp add: d_def)
    have sz: "fst (bucket_dir h ! d) \<noteq> 0" using bucket_dir_size(1) [OF ok d] bsize_cases [OF d] by auto
    have "desc_page (kmem h) (bdesc bk) \<noteq> page_of ptr" if bk: "bk \<in> set (hs ! d)" for bk
    proof -
      have "bpage bk \<in> pm_used (kmem h, kpm h)" using heap_page(3) [OF ok heap_bucket_in [OF ok d bk]] .
      then show ?thesis using heap_bucket [OF ok d bk] ptr(2) by (auto simp: bucket_ok_def)
    qed
    then have "\<forall>x \<in> set (map bdesc (hs ! d)). \<not> desc_page (kmem h) x = page_of ptr" by auto
    then have "first_node (\<lambda>b. desc_page (kmem h) b = page_of ptr) (map bdesc (hs ! d)) = 0"
      using first_node_0 [OF path_null_notin [OF heap_chain [OF ok d]]] by blast
    then have "find_page_bucket (kmem h) (page_of ptr) (snd (bucket_dir h ! d)) = Some 0"
      using fp.search_path [OF heap_chain [OF ok d]] by simp
    then show ?thesis
      using sz lock unlock page_align_low [OF ptr(1)]
      by (simp add: kfree_s_def spin_lock_def spin_unlock_def Let_def d_def [symmetric])
  qed
  show ?thesis using big stray by blast
qed

theorem malloc_error_paths_witness:
  "kmalloc demo_heap 5000 = Some (demo_heap, 0) \<and> kfree_s demo_heap 0x400000 16 = Some demo_heap"
proof -
  have "pm_used (kmem demo_heap, kpm demo_heap) = {}" by (simp add: pm_used_def bitv_def demo_heap_def)
  then show ?thesis
    using malloc_error_paths [OF demo_heap_inv(1), where len = 5000 and ptr = "0x400000"] malloc_error_paths [OF demo_heap_inv(1), where len = 16 and ptr = "0x400000"]
    by simp
qed

text \<open>C11. kfree_s stores the link of a freed block as 4 bytes, kmalloc loads it as 8: after
  a free of a block whose bucket stays in use, the next allocation of that size
  returns the block and installs, as the upper half of the bucket's free-list
  head, the second word the client left in the block.\<close>

theorem stale_word_in_free_list:
  assumes "heap_ok h fb hs" "heap_lock h = 0" "unat len \<le> 4096" "hs ! len_class len = (b, pg, fl) # vs"
    "ptr \<in> set (blocks pg (bsize (len_class len))) - set fl" "desc_refCnt (kmem h) b \<noteq> 1"
  shows "\<exists>h1 h2. kfree_s h ptr len = Some h1 \<and> kmalloc h1 len = Some (h2, ptr) \<and>
    rd32 (kmem h2) (b + 20) = rd32 (kmem h) (ptr + 4)"
proof -
  note ok = assms(1) and lock = assms(2)
  define d where "d = len_class len"
  have d: "d < 9" and fd: "find_dir (bucket_dir h) len = d"
    using len_class_bound [OF assms(3)] find_dir_class [OF ok] by (simp_all add: d_def)
  have hsd: "hs ! d = (b, pg, fl) # vs" using assms(4) by (simp add: d_def)
  then have bk: "(b, pg, fl) \<in> set (hs ! d)" by simp
  note bok = heap_bucket [OF ok d bk]
  have ptr: "ptr \<in> set (blocks pg (bsize d))" using assms(5) by (simp add: d_def)
  have sz: "fst (bucket_dir h ! d) \<noteq> 0" using bucket_dir_size(1) [OF ok d] bsize_cases [OF d] by auto
  have hd: "snd (bucket_dir h ! d) = b" "b \<noteq> 0" using heap_chain [OF ok d] hsd by auto
  have pgb: "desc_page (kmem h) b = pg" using bok by (simp add: bucket_ok_def)
  have bb: "page_of ptr = pg" "unat ptr < 2 ^ 32" "ptr \<noteq> 0"
    using block_bounds [OF ok d bk, of ptr] ptr bsize_dvd(2) [OF d] by auto
  have al: "ucast (ucast ptr AND NOT (0xfff :: u32)) = pg" using page_align_low [OF bb(2)] bb(1) by simp
  have find: "find_page_bucket (kmem h) pg b = Some b"
    using hd pgb by (subst find_page_bucket.simps) simp
  let ?m = "kmem h" and ?f = "desc_freeBlock (kmem h) b"
  let ?m1 = "wr32 ?m ptr (ucast ?f)"
  have ap: "apart b 32 ptr 8" "apart ptr 8 b 32"
    using heap_desc_block [OF ok heap_desc_in [OF ok d bk] d bk, of ptr 8] ptr bsize_dvd(2) [OF d] by auto
  have "load ?m1 b 32 = load ?m b 32"
    using ap(1) by (intro frames_load [OF frames_wr32]) (auto elim: apart_mono)
  then have ref1: "desc_refCnt ?m1 b = desc_refCnt ?m b" using rd32_part [of ?m1 b 32 ?m 24] by simp
  define m2 where "m2 = put_block ?m b ptr"
  have m2: "m2 = wr32 (wr64 ?m1 (b + 16) ptr) (b + 24) (desc_refCnt ?m b - 1)"
    by (simp add: m2_def put_block_def Let_def ref1)
  have ref2: "desc_refCnt m2 b \<noteq> 0" using assms(6) by (simp add: m2)
  have free2: "desc_freeBlock m2 b = ptr" by (simp add: m2)
  let ?h1 = "h\<lparr>kmem := m2\<rparr>"
  have kf: "kfree_s h ptr len = Some ?h1"
    using sz find hd al ref2 lock unfolding m2_def
    by (simp add: kfree_s_def spin_lock_def spin_unlock_def fd Let_def)
  have fr2: "frames ?m1 m2 [(b, 32)]" unfolding m2 by (rule frames_trans_same [OF frames_desc(3,4)])
  have "load m2 ptr 8 = load ?m1 ptr 8" using ap(2) by (intro frames_load [OF fr2]) simp
  then have up: "rd32 m2 (ptr + 4) = rd32 ?m (ptr + 4)"
    using rd32_part [of m2 ptr 8 ?m1 4] by (simp add: mem_simps apart_def)
  obtain m3 where take: "take_block m2 b = (m3, ptr)" using free2 by (simp add: take_block_def Let_def)
  have ff1: "find_free_bucket m2 b = Some b" using hd free2 bb(3) by (subst find_free_bucket.simps) simp
  have km: "kmalloc ?h1 len = Some (?h1\<lparr>kmem := m3, heap_lock := 0\<rparr>, ptr)"
    using sz ff1 hd take lock by (simp add: kmalloc_def spin_lock_def spin_unlock_def fd Let_def)
  have m3: "m3 = wr32 (wr64 m2 (b + 16) (rd64 m2 ptr)) (b + 24) (desc_refCnt m2 b + 1)"
    using take free2 by (simp add: take_block_def Let_def)
  have "rd64 m3 (b + 16) = rd64 m2 ptr" unfolding m3 by simp
  then have "ucast (drop_bit 32 (rd64 m3 (b + 16))) = (ucast (drop_bit 32 (rd64 m2 ptr)) :: u32)" by simp
  moreover have "ucast (drop_bit 32 (rd64 m a)) = rd32 m (a + 4)" for m and a :: u64
    unfolding rd64_halves by (rule bit_eqI)
      (auto simp: bit_unsigned_iff bit_drop_bit_eq bit_or_iff bit_push_bit_iff dest: bit_imp_le_length)
  ultimately have "rd32 m3 (b + 20) = rd32 ?m (ptr + 4)" using up by (simp add: add.assoc)
  then show ?thesis using kf km by auto
qed

theorem stale_word_in_free_list_witness:
  "\<exists>h1 h2. kfree_s (two_blocks 0xAB) 0x301000 2048 = Some h1 \<and> kmalloc h1 2048 = Some (h2, 0x301000) \<and>
    rd32 (kmem h2) 0x300014 = 0xAB"
proof -
  have "heap_lock (two_blocks 0xAB) = 0" by (simp add: two_blocks_def demo_heap_def)
  moreover have "0x301000 \<in> set (blocks 0x301000 (bsize (len_class 2048))) - set []"
    by (simp add: len_class_2048 blocks_def block_def bsize_def upt_rec)
  ultimately show ?thesis
    using stale_word_in_free_list [OF two_blocks_ok [of "0xAB"], where len = 2048 and b = "0x300000" and
        pg = "0x301000" and fl = "[]" and vs = "[]" and ptr = "0x301000"]
      two_blocks_desc [of "0xAB", simplified] two_blocks_word [of "0xAB"] by (simp add: len_class_2048)
qed

end
