(* ===== verification/HeapSession.thy ===== *)
theory HeapSession
  imports MallocSpec
begin

text \<open>
  Clients of the 64-bit kernel's allocator: every sequence of kmalloc, kzalloc,
  kfree_s (x64_kenerl/mm/malloc.c) and of writes by the owners of blocks, from the
  heap at boot. Beside the heap runs its specification, the map from the pointers
  that clients hold to the length they asked for and the bytes they own.
\<close>

section \<open>The specification and the sessions\<close>

type_synonym owned = "u64 \<rightharpoonup> u32 \<times> u8 list"


definition blocks_of :: "owned \<Rightarrow> (u64 \<times> nat) set" where
  "blocks_of B = {(p, len_class len) | p len bs. B p = Some (len, bs)}"


section \<open>Lemmas\<close>

lemma blocks_of_simps [simp]:
  "blocks_of Map.empty = {}" "fst ` blocks_of B = dom B" "p \<notin> dom B \<Longrightarrow> blocks_of (B(p \<mapsto> (len, bs))) = insert (p, len_class len) (blocks_of B)"
  by (force simp: blocks_of_def dom_def split: if_splits)+











section \<open>Properties\<close>



end
