(* ===== verification/ListHead.thy ===== *)
theory ListHead
  imports Prelude
begin

text \<open>
  The circular doubly linked lists of components/include/list.h, over the
  64-bit memory. A node is 16 bytes: next at offset 0, prev at offset 8. The
  iteration macros are modelled by the addresses of the nodes they visit, in
  order; \<open>None\<close> says that the loop does not end.
\<close>

section \<open>Definitions\<close>

definition nx :: "mem \<Rightarrow> u64 \<Rightarrow> u64" where "nx m a = rd64 m a"

definition pv :: "mem \<Rightarrow> u64 \<Rightarrow> u64" where "pv m a = rd64 m (a + 8)"

definition set_nx :: "mem \<Rightarrow> u64 \<Rightarrow> u64 \<Rightarrow> mem" where "set_nx m a v = wr64 m a v"

definition set_pv :: "mem \<Rightarrow> u64 \<Rightarrow> u64 \<Rightarrow> mem" where "set_pv m a v = wr64 m (a + 8) v"

definition INIT_LIST_HEAD :: "mem \<Rightarrow> u64 \<Rightarrow> mem" where
  "INIT_LIST_HEAD m lst = set_nx (set_pv m lst lst) lst lst"

definition list_add_between :: "mem \<Rightarrow> u64 \<Rightarrow> u64 \<Rightarrow> u64 \<Rightarrow> mem" where
  "list_add_between m entry prev next =
     (let m1 = set_pv m next entry;
          m2 = set_nx m1 entry next;
          m3 = set_pv m2 entry prev
      in set_nx m3 prev entry)"

definition list_add :: "mem \<Rightarrow> u64 \<Rightarrow> u64 \<Rightarrow> mem" where
  "list_add m entry head = list_add_between m entry head (nx m head)"

definition list_add_tail :: "mem \<Rightarrow> u64 \<Rightarrow> u64 \<Rightarrow> mem" where
  "list_add_tail m entry head = list_add_between m entry (pv m head) head"

definition list_del_between :: "mem \<Rightarrow> u64 \<Rightarrow> u64 \<Rightarrow> mem" where
  "list_del_between m prev next = set_nx (set_pv m next prev) prev next"

definition list_del :: "mem \<Rightarrow> u64 \<Rightarrow> mem" where
  "list_del m entry = list_del_between m (pv m entry) (nx m entry)"

definition list_del_init :: "mem \<Rightarrow> u64 \<Rightarrow> mem" where
  "list_del_init m entry = INIT_LIST_HEAD (list_del_between m (pv m entry) (nx m entry)) entry"

definition list_move_tail :: "mem \<Rightarrow> u64 \<Rightarrow> u64 \<Rightarrow> mem" where
  "list_move_tail m lst head = list_add_tail (list_del_between m (pv m lst) (nx m lst)) lst head"

definition list_empty :: "mem \<Rightarrow> u64 \<Rightarrow> bool" where
  "list_empty m head \<longleftrightarrow> nx m head = head"

text \<open>The structure that holds the node \<open>ptr\<close> at offset \<open>member\<close>.\<close>

definition container_of :: "u64 \<Rightarrow> u64 \<Rightarrow> u64" where
  "container_of ptr member = ptr - member"

definition list_first_entry :: "mem \<Rightarrow> u64 \<Rightarrow> u64 \<Rightarrow> u64" where
  "list_first_entry m ptr member = container_of (nx m ptr) member"

definition list_last_entry :: "mem \<Rightarrow> u64 \<Rightarrow> u64 \<Rightarrow> u64" where
  "list_last_entry m ptr member = container_of (pv m ptr) member"

text \<open>
  The loops, over the containers: the position is the container, its node is
  \<open>pos + member\<close>. \<open>from\<close> starts at its argument; the others move first.
\<close>

partial_function (option) list_for_each_entry_from :: "mem \<Rightarrow> u64 \<Rightarrow> u64 \<Rightarrow> u64 \<Rightarrow> u64 list option" where
  "list_for_each_entry_from m pos head member =
     (if pos + member = head then Some []
      else Option.bind (list_for_each_entry_from m (container_of (nx m (pos + member)) member) head member)
             (\<lambda>ps. Some (pos # ps)))"

definition list_for_each_entry :: "mem \<Rightarrow> u64 \<Rightarrow> u64 \<Rightarrow> u64 list option" where
  "list_for_each_entry m head member =
     list_for_each_entry_from m (container_of (nx m head) member) head member"

definition list_for_each_entry_continue :: "mem \<Rightarrow> u64 \<Rightarrow> u64 \<Rightarrow> u64 \<Rightarrow> u64 list option" where
  "list_for_each_entry_continue m pos head member =
     list_for_each_entry_from m (container_of (nx m (pos + member)) member) head member"

partial_function (option) list_for_each_reverse_from :: "mem \<Rightarrow> u64 \<Rightarrow> u64 \<Rightarrow> u64 \<Rightarrow> u64 list option" where
  "list_for_each_reverse_from m pos head member =
     (if pos + member = head then Some []
      else Option.bind (list_for_each_reverse_from m (container_of (pv m (pos + member)) member) head member)
             (\<lambda>ps. Some (pos # ps)))"

definition list_for_each_entry_reverse :: "mem \<Rightarrow> u64 \<Rightarrow> u64 \<Rightarrow> u64 list option" where
  "list_for_each_entry_reverse m head member =
     list_for_each_reverse_from m (container_of (pv m head) member) head member"

definition list_for_each_entry_continue_reverse :: "mem \<Rightarrow> u64 \<Rightarrow> u64 \<Rightarrow> u64 \<Rightarrow> u64 list option" where
  "list_for_each_entry_continue_reverse m pos head member =
     list_for_each_reverse_from m (container_of (pv m (pos + member)) member) head member"

text \<open>The loop that may delete: \<open>body\<close> runs on the position after the next one is known.\<close>

partial_function (option) list_for_each_safe_loop ::
    "(mem \<Rightarrow> u64 \<Rightarrow> mem) \<Rightarrow> mem \<Rightarrow> u64 \<Rightarrow> u64 \<Rightarrow> u64 \<Rightarrow> u64 \<Rightarrow> mem option" where
  "list_for_each_safe_loop body m pos tmp head member =
     (if pos + member = head then Some m
      else (let m' = body m pos
            in list_for_each_safe_loop body m' tmp (container_of (nx m' (tmp + member)) member) head member))"

definition list_for_each_entry_safe ::
    "(mem \<Rightarrow> u64 \<Rightarrow> mem) \<Rightarrow> mem \<Rightarrow> u64 \<Rightarrow> u64 \<Rightarrow> mem option" where
  "list_for_each_entry_safe body m head member =
     (let pos = container_of (nx m head) member
      in list_for_each_safe_loop body m pos (container_of (nx m (pos + member)) member) head member)"

section \<open>Abstraction\<close>

text \<open>Two consecutive nodes, and the list \<open>xs\<close> of nodes hanging off \<open>head\<close>.\<close>

definition lnk :: "mem \<Rightarrow> u64 \<Rightarrow> u64 \<Rightarrow> bool" where
  "lnk m x y \<longleftrightarrow> nx m x = y \<and> pv m y = x"

definition nodes_apart :: "u64 set \<Rightarrow> bool" where
  "nodes_apart N \<longleftrightarrow> (\<forall>x \<in> N. \<forall>y \<in> N. x \<noteq> y \<longrightarrow> apart x 16 y 16)"

definition dlist :: "mem \<Rightarrow> u64 \<Rightarrow> u64 list \<Rightarrow> bool" where
  "dlist m head xs \<longleftrightarrow> successively (lnk m) (head # xs @ [head]) \<and> distinct (head # xs) \<and>
     nodes_apart (set (head # xs))"

section \<open>Writes to nodes\<close>

lemma node_write:
  assumes "nodes_apart N" "a \<in> N" "x \<in> N"
  shows "nx (set_nx m a v) x = (if x = a then v else nx m x)" "pv (set_nx m a v) x = pv m x"
    "nx (set_pv m a v) x = nx m x" "pv (set_pv m a v) x = (if x = a then v else pv m x)"
proof -
  have ap: "apart x 16 a 16" if "x \<noteq> a" using assms that by (auto simp: nodes_apart_def)
  have "apart (x + of_nat i) 8 (a + of_nat j) 8" if "x \<noteq> a" "i + 8 \<le> 16" "j + 8 \<le> 16" for i j
    using apart_within [OF ap [OF that(1)] that(2,3)] by simp
  from this [of 0 0] this [of 0 8] this [of 8 0] this [of 8 8]
  show "nx (set_nx m a v) x = (if x = a then v else nx m x)" "pv (set_nx m a v) x = pv m x"
    "nx (set_pv m a v) x = nx m x" "pv (set_pv m a v) x = (if x = a then v else pv m x)"
    by (cases "x = a"; simp add: nx_def pv_def set_nx_def set_pv_def mem_simps; simp add: mem_simps apart_def)+
qed

lemma lnk_frame:
  assumes "successively (lnk m) xs" "\<And>x. x \<in> set (butlast xs) \<Longrightarrow> nx m' x = nx m x"
    "\<And>y. y \<in> set (tl xs) \<Longrightarrow> pv m' y = pv m y"
  shows "successively (lnk m') xs"
  using assms
proof (induction xs rule: induct_list012)
  case (3 x y zs)
  have "successively (lnk m') (y # zs)"
    using 3 by (intro 3(2)) (auto dest: list.set_sel(2) split: if_splits)
  then show ?case using 3 by (auto simp: lnk_def)
qed auto

lemma nodes_apart_mono: "nodes_apart N \<Longrightarrow> M \<subseteq> N \<Longrightarrow> nodes_apart M"
  unfolding nodes_apart_def by blast

text \<open>Insertion of \<open>e\<close> between consecutive nodes \<open>p\<close> and \<open>n\<close>.\<close>

lemma insert_between:
  assumes s: "successively (lnk m) (us @ p # n # vs)"
    and N: "nodes_apart N" "set (us @ p # n # vs) \<subseteq> N" "e \<in> N"
    and d: "e \<notin> set (us @ p # n # vs)" "distinct (us @ p # butlast (n # vs))" "distinct (tl (us @ p # n # vs))"
  shows "successively (lnk (list_add_between m e p n)) (us @ p # e # n # vs)"
proof -
  let ?m = "list_add_between m e p n"
  have pn: "p \<in> N" "n \<in> N" "e \<noteq> p" "e \<noteq> n" using N(2) d(1) by auto
  note w = node_write [OF N(1)]
  have nxs: "nx ?m x = (if x = p then e else if x = e then n else nx m x)"
    and pvs: "pv ?m x = (if x = e then p else if x = n then e else pv m x)" if "x \<in> N" for x
    using that pn N(3) by (simp_all add: list_add_between_def Let_def w)
  have parts: "successively (lnk m) (us @ [p])" "successively (lnk m) (n # vs)"
    using s by (simp_all add: successively_append_iff successively_Cons)
  have "successively (lnk ?m) (us @ [p])"
  proof (rule lnk_frame [OF parts(1)])
    fix x assume "x \<in> set (butlast (us @ [p]))"
    then show "nx ?m x = nx m x" using nxs [of x] N(2) d(1,2) by auto
  next
    fix y assume y: "y \<in> set (tl (us @ [p]))"
    then have "y \<noteq> n" "y \<noteq> e" "y \<in> N" using d(1,3) N(2) by (cases us; auto)+
    then show "pv ?m y = pv m y" using pvs [of y] by simp
  qed
  moreover have "successively (lnk ?m) (n # vs)"
  proof (rule lnk_frame [OF parts(2)])
    fix x assume x: "x \<in> set (butlast (n # vs))"
    then have "x \<noteq> p" "x \<noteq> e" "x \<in> N" using d(1,2) N(2) in_set_butlastD [OF x] by auto
    then show "nx ?m x = nx m x" using nxs [of x] by simp
  next
    fix y assume y: "y \<in> set (tl (n # vs))"
    then have "y \<noteq> n" "y \<noteq> e" "y \<in> N" using d(1,3) N(2) by (cases us; auto)+
    then show "pv ?m y = pv m y" using pvs [of y] by simp
  qed
  moreover have "lnk ?m p e" "lnk ?m e n" using nxs pvs pn N(3) by (simp_all add: lnk_def)
  ultimately show ?thesis by (simp add: successively_append_iff successively_Cons)
qed

lemma remove_between:
  assumes s: "successively (lnk m) (us @ p # e # n # vs)"
    and N: "nodes_apart N" "set (us @ p # e # n # vs) \<subseteq> N"
    and d: "distinct (us @ p # butlast (n # vs))" "distinct (tl (us @ p # n # vs))"
  shows "successively (lnk (list_del_between m p n)) (us @ p # n # vs)"
proof -
  let ?m = "list_del_between m p n"
  have pn: "p \<in> N" "n \<in> N" using N(2) by auto
  note w = node_write [OF N(1)]
  have nxs: "nx ?m x = (if x = p then n else nx m x)" and pvs: "pv ?m x = (if x = n then p else pv m x)" if "x \<in> N" for x
    using that pn by (simp_all add: list_del_between_def w)
  have parts: "successively (lnk m) (us @ [p])" "successively (lnk m) (n # vs)"
    using s by (simp_all add: successively_append_iff successively_Cons)
  have "successively (lnk ?m) (us @ [p])"
  proof (rule lnk_frame [OF parts(1)])
    fix x assume "x \<in> set (butlast (us @ [p]))"
    then show "nx ?m x = nx m x" using nxs [of x] N(2) d(1) by auto
  next
    fix y assume y: "y \<in> set (tl (us @ [p]))"
    then have "y \<noteq> n" "y \<in> N" using d(2) N(2) by (cases us; auto)+
    then show "pv ?m y = pv m y" using pvs [of y] by simp
  qed
  moreover have "successively (lnk ?m) (n # vs)"
  proof (rule lnk_frame [OF parts(2)])
    fix x assume x: "x \<in> set (butlast (n # vs))"
    then have "x \<noteq> p" "x \<in> N" using d(1) N(2) in_set_butlastD [OF x] by auto
    then show "nx ?m x = nx m x" using nxs [of x] by simp
  next
    fix y assume y: "y \<in> set (tl (n # vs))"
    then have "y \<noteq> n" "y \<in> N" using d(2) N(2) by (cases us; auto)+
    then show "pv ?m y = pv m y" using pvs [of y] by simp
  qed
  moreover have "lnk ?m p n" using nxs pvs pn by (simp add: lnk_def)
  ultimately show ?thesis by (simp add: successively_append_iff successively_Cons)
qed

section \<open>The operations on lists\<close>

lemma dlist_add:
  assumes d: "dlist m h xs" and e: "e \<notin> set (h # xs)" and N: "nodes_apart (insert e (set (h # xs)))"
  shows "dlist (list_add m e h) h (e # xs)"
proof -
  obtain n vs where nv: "xs @ [h] = n # vs" by (cases xs) auto
  have s: "successively (lnk m) ([] @ h # n # vs)" using d nv by (simp add: dlist_def)
  then have n: "nx m h = n" by (simp add: lnk_def)
  have bl: "butlast (n # vs) = xs" unfolding nv [symmetric] by simp
  have set_nv: "set (n # vs) = insert h (set xs)" unfolding nv [symmetric] by simp
  have "successively (lnk (list_add_between m e h n)) ([] @ h # e # n # vs)"
  proof (rule insert_between [OF s N])
    show "set ([] @ h # n # vs) \<subseteq> insert e (set (h # xs))" using set_nv by auto
    show "e \<notin> set ([] @ h # n # vs)" using e set_nv by auto
    show "distinct ([] @ h # butlast (n # vs))" using d unfolding bl by (simp add: dlist_def)
    have "distinct (xs @ [h])" using d by (simp add: dlist_def)
    then show "distinct (tl ([] @ h # n # vs))" unfolding nv by simp
  qed simp
  then have "successively (lnk (list_add m e h)) (h # (e # xs) @ [h])"
    unfolding append_Nil nv [symmetric] list_add_def n by simp
  moreover have "nodes_apart (set (h # e # xs))" using N by (rule nodes_apart_mono) auto
  ultimately show ?thesis using d e by (auto simp: dlist_def)
qed

lemma dlist_add_tail:
  assumes d: "dlist m h xs" and e: "e \<notin> set (h # xs)" and N: "nodes_apart (insert e (set (h # xs)))"
  shows "dlist (list_add_tail m e h) h (xs @ [e])"
proof -
  obtain us p where up: "h # xs = us @ [p]" by (metis append_butlast_last_id list.discI)
  have seq: "us @ p # h # [] = h # xs @ [h]" using up by simp
  have s: "successively (lnk m) (us @ p # h # [])" using d unfolding seq by (simp add: dlist_def)
  then have p: "pv m h = p" by (simp add: successively_append_iff lnk_def)
  have set_up: "insert p (set us) = insert h (set xs)" using arg_cong [OF up, of set] by simp
  have "successively (lnk (list_add_between m e p h)) (us @ p # e # h # [])"
  proof (rule insert_between [OF s N])
    show "set (us @ p # h # []) \<subseteq> insert e (set (h # xs))" using set_up by auto
    show "e \<notin> set (us @ p # h # [])" using e set_up by auto
    have "distinct (h # xs)" using d by (simp add: dlist_def)
    then show "distinct (us @ p # butlast (h # []))" unfolding up by simp
    show "distinct (tl (us @ p # h # []))" using d unfolding seq by (simp add: dlist_def)
  qed simp
  moreover have "us @ p # e # h # [] = h # (xs @ [e]) @ [h]" using up by simp
  ultimately have "successively (lnk (list_add_tail m e h)) (h # (xs @ [e]) @ [h])"
    unfolding list_add_tail_def p by simp
  moreover have "nodes_apart (set (h # xs @ [e]))" using N by (rule nodes_apart_mono) auto
  ultimately show ?thesis using d e by (auto simp: dlist_def)
qed

lemma dlist_unlink:
  assumes d: "dlist m h (as @ e # bs)"
  shows "dlist (list_del_between m (pv m e) (nx m e)) h (as @ bs)"
    "list_del_between m (pv m e) (nx m e) = list_del m e" "pv m e \<in> set (h # as @ bs)" "nx m e \<in> set (h # as @ bs)"
proof -
  obtain us p where up: "h # as = us @ [p]" by (metis append_butlast_last_id list.discI)
  obtain n vs where nv: "bs @ [h] = n # vs" by (cases bs) auto
  have seq: "h # (as @ e # bs) @ [h] = us @ p # e # n # vs" using up nv by simp
  have s: "successively (lnk m) (us @ p # e # n # vs)" using d unfolding dlist_def seq by simp
  then have pn: "pv m e = p" "nx m e = n" by (auto simp: successively_append_iff successively_Cons lnk_def)
  have bl: "butlast (n # vs) = bs" unfolding nv [symmetric] by simp
  have dd: "distinct (h # as @ e # bs)" using d by (simp add: dlist_def)
  have set_up: "insert p (set us) = insert h (set as)" using arg_cong [OF up, of set] by simp
  have set_nv: "insert n (set vs) = insert h (set bs)" using arg_cong [OF nv, of set] by simp
  have N: "nodes_apart (set (h # as @ e # bs))" using d by (simp add: dlist_def)
  have ne: "e \<noteq> p" "e \<noteq> n" using dd set_up set_nv by auto
  have "successively (lnk (list_del_between m p n)) (us @ p # n # vs)"
  proof (rule remove_between [OF s N])
    show "set (us @ p # e # n # vs) \<subseteq> set (h # as @ e # bs)" using set_up set_nv by auto
    have "distinct ((h # as) @ bs)" using dd by simp
    then show "distinct (us @ p # butlast (n # vs))" unfolding up bl by simp
    have "us @ p # n # vs = h # as @ bs @ [h]" using up nv by simp
    then show "distinct (tl (us @ p # n # vs))" using dd by simp
  qed
  moreover have "us @ p # n # vs = h # (as @ bs) @ [h]" using up nv by simp
  moreover have "nodes_apart (set (h # as @ bs))" using N by (rule nodes_apart_mono) auto
  ultimately show "dlist (list_del_between m (pv m e) (nx m e)) h (as @ bs)"
    using dd unfolding pn by (simp add: dlist_def)
  show "list_del_between m (pv m e) (nx m e) = list_del m e" by (simp add: list_del_def)
  show "pv m e \<in> set (h # as @ bs)" "nx m e \<in> set (h # as @ bs)" using set_up set_nv unfolding pn by auto
qed

lemma dlist_init: "dlist (INIT_LIST_HEAD m e) e []"
proof -
  have N: "nodes_apart {e}" by (simp add: nodes_apart_def)
  have w: "nx (set_nx m e e) e = e" "pv (set_nx m e v) e = pv m e" "pv (set_pv m e e) e = e" for m v
    using node_write [OF N singletonI singletonI] by simp_all
  have "lnk (INIT_LIST_HEAD m e) e e" unfolding lnk_def INIT_LIST_HEAD_def w by blast
  then show ?thesis using N by (simp add: dlist_def)
qed

lemma dlist_frame:
  assumes "dlist m h xs" "\<And>x. x \<in> set (h # xs) \<Longrightarrow> nx m' x = nx m x \<and> pv m' x = pv m x"
  shows "dlist m' h xs"
proof -
  have "successively (lnk m') (h # xs @ [h])"
  proof (rule lnk_frame [of m])
    show "successively (lnk m) (h # xs @ [h])" using assms(1) by (simp add: dlist_def)
    show "nx m' x = nx m x" if "x \<in> set (butlast (h # xs @ [h]))" for x
      using assms(2) [of x] in_set_butlastD [OF that] by auto
    show "pv m' y = pv m y" if "y \<in> set (tl (h # xs @ [h]))" for y
      using assms(2) [of y] that by auto
  qed
  then show ?thesis using assms(1) by (simp add: dlist_def)
qed

lemma dlist_del_init:
  assumes d: "dlist m h (as @ e # bs)"
  shows "dlist (list_del_init m e) h (as @ bs)" "dlist (list_del_init m e) e []"
proof -
  have N: "nodes_apart (set (h # as @ e # bs))" and dd: "distinct (h # as @ e # bs)" using d by (simp_all add: dlist_def)
  let ?m = "list_del m e"
  have m: "list_del_init m e = set_nx (set_pv ?m e e) e e" by (simp add: list_del_init_def INIT_LIST_HEAD_def list_del_def)
  show "dlist (list_del_init m e) h (as @ bs)"
  proof (rule dlist_frame [OF dlist_unlink(1) [OF d]])
    fix x assume "x \<in> set (h # as @ bs)"
    then have "x \<noteq> e" "x \<in> set (h # as @ e # bs)" "e \<in> set (h # as @ e # bs)" using dd by auto
    then show "nx (list_del_init m e) x = nx (list_del_between m (pv m e) (nx m e)) x \<and>
        pv (list_del_init m e) x = pv (list_del_between m (pv m e) (nx m e)) x"
      using node_write [OF N, of e x] unfolding m list_del_def by simp
  qed
  show "dlist (list_del_init m e) e []" unfolding list_del_init_def by (rule dlist_init)
qed

text \<open>Moving within one list.\<close>

lemma dlist_move_tail:
  assumes d: "dlist m h (as @ e # bs)"
  shows "dlist (list_move_tail m e h) h (as @ bs @ [e])"
proof -
  have N: "nodes_apart (set (h # as @ e # bs))" and dd: "distinct (h # as @ e # bs)" using d by (simp_all add: dlist_def)
  have "nodes_apart (insert e (set (h # as @ bs)))" using N by (rule nodes_apart_mono) auto
  from dlist_add_tail [OF dlist_unlink(1) [OF d] _ this] show ?thesis
    using dd by (auto simp: list_move_tail_def)
qed

section \<open>Iteration\<close>

lemma for_each_from:
  assumes "successively (lnk m) (xs @ [h])" "h \<notin> set xs" "xs @ [h] = x # ys"
  shows "list_for_each_entry_from m (container_of x k) h k = Some (map (\<lambda>a. container_of a k) xs)"
  using assms
proof (induction xs arbitrary: x ys)
  case Nil
  then show ?case by (subst list_for_each_entry_from.simps) (simp add: container_of_def)
next
  case (Cons a xs)
  obtain b zs where b: "xs @ [h] = b # zs" by (cases xs) auto
  have "nx m a = b" using Cons.prems(1) b by (simp add: lnk_def)
  moreover have "successively (lnk m) (xs @ [h])" using Cons.prems(1) by (simp add: successively_Cons)
  then have "list_for_each_entry_from m (container_of b k) h k = Some (map (\<lambda>a. container_of a k) xs)"
    using Cons.prems(2) by (intro Cons.IH [OF _ _ b]) simp_all
  ultimately show ?case
    using Cons.prems by (subst list_for_each_entry_from.simps) (auto simp: container_of_def)
qed

lemma for_each_reverse_from:
  assumes "successively (lnk m) (h # xs)" "h \<notin> set xs"
  shows "list_for_each_reverse_from m (container_of (last (h # xs)) k) h k =
    Some (map (\<lambda>a. container_of a k) (rev xs))"
  using assms
proof (induction xs rule: rev_induct)
  case Nil
  then show ?case by (subst list_for_each_reverse_from.simps) (simp add: container_of_def)
next
  case (snoc a xs)
  have s: "successively (lnk m) ((h # xs) @ [a])" using snoc.prems(1) by simp
  then have "lnk m (last (h # xs)) a" "successively (lnk m) (h # xs)" unfolding successively_append_iff by auto
  then show ?case
    using snoc by (subst list_for_each_reverse_from.simps) (auto simp: container_of_def lnk_def)
qed

lemma dlist_for_each:
  assumes "dlist m h xs"
  shows "list_for_each_entry m h k = Some (map (\<lambda>a. container_of a k) xs)"
    "list_for_each_entry_reverse m h k = Some (map (\<lambda>a. container_of a k) (rev xs))"
proof -
  obtain x ys where x: "xs @ [h] = x # ys" by (cases xs) auto
  have s: "successively (lnk m) (h # xs @ [h])" using assms by (simp add: dlist_def)
  then have "nx m h = x" using x by (simp add: lnk_def)
  then show "list_for_each_entry m h k = Some (map (\<lambda>a. container_of a k) xs)"
    unfolding list_for_each_entry_def
    using for_each_from [of m xs h x ys] s x assms by (simp add: dlist_def successively_Cons)
  have "successively (lnk m) ((h # xs) @ [h])" using s by simp
  then have "pv m h = last (h # xs)" "successively (lnk m) (h # xs)"
    unfolding successively_append_iff by (auto simp: lnk_def)
  then show "list_for_each_entry_reverse m h k = Some (map (\<lambda>a. container_of a k) (rev xs))"
    unfolding list_for_each_entry_reverse_def using for_each_reverse_from [of m h xs k] assms by (simp add: dlist_def)
qed

text \<open>list_empty is true when there is no entry. Its comment says the opposite, that it is true when there are one or more.\<close>

lemma dlist_empty_iff: "dlist m h xs \<Longrightarrow> list_empty m h \<longleftrightarrow> xs = []"
  by (cases xs) (auto simp: dlist_def list_empty_def lnk_def)

text \<open>Three nodes with a list of two: the head 0x1000 and the entries 0x2000, 0x3000.\<close>

definition demo_list :: mem where
  "demo_list = list_add (list_add (INIT_LIST_HEAD (\<lambda>_. 0) 0x1000) 0x3000 0x1000) 0x2000 0x1000"

lemma demo_nodes: "nodes_apart {0x1000, 0x2000, 0x3000, 0x4000}"
  by (simp add: nodes_apart_def apart_def)

lemma demo_dlist: "dlist demo_list 0x1000 [0x2000, 0x3000]"
proof -
  have "dlist (list_add (INIT_LIST_HEAD (\<lambda>_. 0) 0x1000) 0x3000 0x1000) 0x1000 [0x3000]"
    by (rule dlist_add [OF dlist_init]) (auto intro: nodes_apart_mono [OF demo_nodes])
  then show ?thesis unfolding demo_list_def
    by (rule dlist_add) (auto intro: nodes_apart_mono [OF demo_nodes])
qed

section \<open>Properties\<close>

text \<open>C27. The insertions refine list insertion: list_add puts the entry first, list_add_tail
  last, and the result is again a circular list of distinct nodes.\<close>

theorem list_insert_refines:
  assumes "dlist m h xs" "e \<notin> set (h # xs)" "nodes_apart (insert e (set (h # xs)))"
  shows "dlist (list_add m e h) h (e # xs) \<and> dlist (list_add_tail m e h) h (xs @ [e])"
  using dlist_add [OF assms] dlist_add_tail [OF assms] by blast

theorem list_insert_refines_witness: "dlist (list_add_tail demo_list 0x4000 0x1000) 0x1000 [0x2000, 0x3000, 0x4000]"
proof -
  have "nodes_apart (insert 0x4000 (set [0x1000, 0x2000, 0x3000]))"
    using demo_nodes by (rule nodes_apart_mono) auto
  from list_insert_refines [OF demo_dlist _ this] show ?thesis by simp
qed

text \<open>C28. The removals refine list removal: list_del and list_del_init take the entry out,
  list_del_init leaves it an empty list, list_move_tail makes it the last.\<close>

theorem list_remove_refines:
  assumes "dlist m h (as @ e # bs)"
  shows "dlist (list_del m e) h (as @ bs) \<and> dlist (list_del_init m e) h (as @ bs) \<and>
    dlist (list_del_init m e) e [] \<and> dlist (list_move_tail m e h) h (as @ bs @ [e])"
  using dlist_unlink(1) [OF assms] dlist_del_init [OF assms] dlist_move_tail [OF assms]
  unfolding dlist_unlink(2) [OF assms] by blast

theorem list_remove_refines_witness: "dlist (list_del demo_list 0x2000) 0x1000 [0x3000]"
  using list_remove_refines [of demo_list "0x1000" "[]" "0x2000" "[0x3000]"] demo_dlist by simp

text \<open>C29. The iteration macros end and visit the containers of the entries in order, or in
  reverse order; list_first_entry and list_last_entry are the ends of that
  sequence.\<close>

theorem list_iteration:
  assumes "dlist m h xs"
  shows "list_for_each_entry m h k = Some (map (\<lambda>a. a - k) xs) \<and>
    list_for_each_entry_reverse m h k = Some (map (\<lambda>a. a - k) (rev xs)) \<and>
    (xs \<noteq> [] \<longrightarrow> list_first_entry m h k = hd xs - k \<and> list_last_entry m h k = last xs - k)"
proof -
  have s: "successively (lnk m) (h # xs @ [h])" using assms by (simp add: dlist_def)
  have "list_first_entry m h k = hd xs - k \<and> list_last_entry m h k = last xs - k" if "xs \<noteq> []"
  proof -
    have "successively (lnk m) ((h # butlast xs) @ last xs # [h])" 
      using s append_butlast_last_id [OF that] by (metis append.assoc append_Cons append_Nil)
    then have "lnk m (last xs) h" unfolding successively_append_iff by simp
    moreover have "lnk m h (hd xs)" using s that by (cases xs) simp_all
    ultimately have "lnk m (last xs) h" "lnk m h (hd xs)" by simp_all
    then show ?thesis by (simp add: list_first_entry_def list_last_entry_def lnk_def container_of_def)
  qed
  then show ?thesis using dlist_for_each [OF assms, of k] by (simp add: container_of_def)
qed

theorem list_iteration_witness: "list_for_each_entry demo_list 0x1000 0x10 = Some [0x1FF0, 0x2FF0]"
  using list_iteration [OF demo_dlist, of "0x10"] by simp

text \<open>list_del on the head of a list that has entries does not reset it to an empty list,
  as the comment on list_del says: the head still points to the first entry.\<close>

lemma list_del_head_not_empty:
  assumes "dlist m h (x # xs)"
  shows "\<not> list_empty (list_del m h) h \<and> nx (list_del m h) h = x"
proof -
  have N: "nodes_apart (set (h # x # xs))" and d: "distinct (h # x # xs)" using assms by (simp_all add: dlist_def)
  have s: "successively (lnk m) ((h # x # xs) @ [h])" using assms by (simp add: dlist_def)
  then have p: "pv m h = last (x # xs)" and n: "nx m h = x" unfolding successively_append_iff by (auto simp: lnk_def)
  have l: "last (x # xs) \<in> set (h # x # xs)" "last (x # xs) \<noteq> h" using d by (metis last_in_set list.discI list.set_intros(2),
      metis distinct.simps(2) last_in_set list.discI)
  have "nx (list_del m h) h = nx m h"
    using l node_write [OF N, of "last (x # xs)" h] node_write [OF N, of x h] d
    by (simp add: list_del_def list_del_between_def p n)
  then show ?thesis using n d by (auto simp: list_empty_def)
qed

end
