(* ===== verification/Task64.thy ===== *)
theory Task64
  imports MallocSpec "HOL-Library.Monad_Syntax"
begin

text \<open>
  The tasks of the 64-bit kernel (x64_kenerl/kernel/task64.c and
  include/linux/task64.h): the table of task pointers, creation and cleaning of
  tasks on the bucket allocator, the field accessors the assembly handlers
  call, and the choice of the next task.

  A task_t is a packed structure of 373 bytes of the kernel's memory; its fields
  are read and written at their offsets. The prints are left out. \<open>None\<close> is a
  call that does not return (a lock that is held, a string without end) or a store
  outside the table of tasks.
\<close>

section \<open>Data\<close>

datatype task_state_t =
  TASK_INIT | TASK_RUNNING | TASK_READY | TASK_BLOCKED | TASK_SLEEPING | TASK_WAITING | TASK_DIED

primrec state_code :: "task_state_t \<Rightarrow> u32" where
  "state_code TASK_INIT = 0"
| "state_code TASK_RUNNING = 1"
| "state_code TASK_READY = 2"
| "state_code TASK_BLOCKED = 3"
| "state_code TASK_SLEEPING = 4"
| "state_code TASK_WAITING = 5"
| "state_code TASK_DIED = 6"

text \<open>The fields of eight bytes after the context (23 registers) and the name (64 bytes).\<close>

datatype task_field =
  Pid | Function | Esp0 | Esp3 | Cs | Ss | Ds | Stack | Stack_length | User_stack |
  User_stack_length | Counter | Priority

primrec task_offset :: "task_field \<Rightarrow> nat" where
  "task_offset Pid = 248"
| "task_offset Function = 256"
| "task_offset Esp0 = 264"
| "task_offset Esp3 = 272"
| "task_offset Cs = 280"
| "task_offset Ss = 288"
| "task_offset Ds = 296"
| "task_offset Stack = 304"
| "task_offset Stack_length = 312"
| "task_offset User_stack = 320"
| "task_offset User_stack_length = 328"
| "task_offset Counter = 336"
| "task_offset Priority = 344"

definition tget :: "mem \<Rightarrow> u64 \<Rightarrow> task_field \<Rightarrow> u64" where
  "tget m task f = rd64 m (task + of_nat (task_offset f))"

definition tset :: "mem \<Rightarrow> u64 \<Rightarrow> task_field \<Rightarrow> u64 \<Rightarrow> mem" where
  "tset m task f v = wr64 m (task + of_nat (task_offset f)) v"

definition task_name :: "u64 \<Rightarrow> u64" where
  "task_name task = task + 184"

definition get_state :: "mem \<Rightarrow> u64 \<Rightarrow> u32" where
  "get_state m task = rd32 m (task + 352)"

definition set_state :: "mem \<Rightarrow> u64 \<Rightarrow> task_state_t \<Rightarrow> mem" where
  "set_state m task st = wr32 m (task + 352) (state_code st)"

definition get_first_sched :: "mem \<Rightarrow> u64 \<Rightarrow> u8" where
  "get_first_sched m task = m (task + 356)"

definition set_first_sched :: "mem \<Rightarrow> u64 \<Rightarrow> u8 \<Rightarrow> mem" where
  "set_first_sched m task b = m(task + 356 := b)"

definition sizeof_task :: u32 where
  "sizeof_task = 373"

definition TASK_MAX_NUMS :: nat where
  "TASK_MAX_NUMS = 100"

record task_ctx_t =
  kh :: kheap
  g_tasks :: "u64 list"
  task_lock :: u32

section \<open>Operations\<close>

fun free_task_index :: "u64 list \<Rightarrow> nat \<Rightarrow> u32" where
  "free_task_index [] i = - 1"
| "free_task_index (t # ts) i = (if t = 0 then of_nat i else free_task_index ts (Suc i))"

definition get_free_task_index :: "task_ctx_t \<Rightarrow> u32" where
  "get_free_task_index s = free_task_index (g_tasks s) 0"

text \<open>The first loop of get_next_ready_task: the task chosen so far and hasWaitTask.\<close>

fun sched_scan :: "mem \<Rightarrow> u64 list \<Rightarrow> u64 \<Rightarrow> bool \<Rightarrow> u64 \<times> bool" where
  "sched_scan m [] highPrioTask hasWaitTask = (highPrioTask, hasWaitTask)"
| "sched_scan m (t # ts) highPrioTask hasWaitTask =
     (if t = 0 then sched_scan m ts highPrioTask hasWaitTask
      else if get_state m t = state_code TASK_WAITING then sched_scan m ts highPrioTask True
      else if get_state m t = state_code TASK_READY then
        (if highPrioTask = 0 then sched_scan m ts t hasWaitTask
         else if tget m t Priority > tget m highPrioTask Priority then sched_scan m ts t hasWaitTask
         else sched_scan m ts highPrioTask hasWaitTask)
      else sched_scan m ts highPrioTask hasWaitTask)"

text \<open>The second loop: the waiting tasks get a new time slice.\<close>

fun sched_reset :: "mem \<Rightarrow> u64 list \<Rightarrow> u64 \<Rightarrow> mem \<times> u64" where
  "sched_reset m [] highPrioTask = (m, highPrioTask)"
| "sched_reset m (t # ts) highPrioTask =
     (if t = 0 \<or> get_state m t \<noteq> state_code TASK_WAITING then sched_reset m ts highPrioTask
      else (let m1 = tset m t Counter (tget m t Priority);
                m2 = set_state m1 t TASK_READY
            in if highPrioTask = 0 then sched_reset m2 ts t
               else if tget m2 t Priority > tget m2 highPrioTask Priority then sched_reset m2 ts t
               else sched_reset m2 ts highPrioTask))"

definition get_next_ready_task :: "mem \<Rightarrow> u64 list \<Rightarrow> mem \<times> u64" where
  "get_next_ready_task m tasks =
     (let (high, hasWait) = sched_scan m tasks 0 False;
          (m1, high1) =
            (if high = 0 then
               (if hasWait then sched_reset m tasks high
                else if get_state m (tasks ! 0) = state_code TASK_READY then (m, tasks ! 0) else (m, 0))
             else (m, high))
      in if high1 \<noteq> 0 then (set_state m1 high1 TASK_RUNNING, high1) else (m1, high1))"

definition add_task :: "task_ctx_t \<Rightarrow> u64 \<Rightarrow> task_ctx_t option" where
  "add_task s task =
     (case spin_lock (task_lock s) of
        None \<Rightarrow> None
      | Some l \<Rightarrow>
          (let pid = unat (tget (kmem (kh s)) task Pid)
           in if TASK_MAX_NUMS \<le> pid then None
              else Some (s\<lparr>g_tasks := (g_tasks s)[pid := task], task_lock := spin_unlock l\<rparr>)))"

text \<open>The stores of the second half of the two creation functions.\<close>

definition fill_task ::
    "mem \<Rightarrow> u64 \<Rightarrow> u64 \<Rightarrow> u64 \<Rightarrow> u64 \<Rightarrow> u32 \<Rightarrow> u32 \<Rightarrow> mem option" where
  "fill_task m task pid name function stack_size priority =
     (let m1 = tset m task Pid pid
      in case strcpy m1 (task_name task) name of
           None \<Rightarrow> None
         | Some (m2, _) \<Rightarrow>
             (let m3 = set_state m2 task TASK_INIT;
                  m4 = tset m3 task Priority (scast priority);
                  m5 = tset m4 task Counter (tget m4 task Priority);
                  m6 = tset m5 task Function function;
                  m7 = set_first_sched m6 task 1;
                  m8 = tset m7 task Esp0 (tget m7 task Stack + ucast stack_size);
                  m9 = tset m8 task Esp3 (tget m8 task User_stack + ucast stack_size);
                  m10 = tset m9 task Cs (push_bit 3 3 OR 0);
                  m11 = tset m10 task Ds (push_bit 3 4 OR 0);
                  m12 = tset m11 task Ss (tget m11 task Ds)
              in Some (set_state m12 task TASK_READY)))"

definition ktask_create :: "task_ctx_t \<Rightarrow> u64 \<Rightarrow> u64 \<Rightarrow> u32 \<Rightarrow> u32 \<Rightarrow> (task_ctx_t \<times> u64) option" where
  "ktask_create s name function stack_size priority = do {
     (h1, task) \<leftarrow> kzalloc (kh s) sizeof_task;
     if task = 0 then Some (s\<lparr>kh := h1\<rparr>, 0) else do {
       let m1 = tset (kmem h1) task Stack_length (ucast stack_size);
       (h2, stack) \<leftarrow> kzalloc (h1\<lparr>kmem := m1\<rparr>) stack_size;
       let m2 = tset (kmem h2) task Stack stack;
       if tget m2 task Stack = 0 then do {
         h3 \<leftarrow> kfree_s (h2\<lparr>kmem := m2\<rparr>) task sizeof_task;
         Some (s\<lparr>kh := h3\<rparr>, 0)
       } else do {
         let m3 = tset m2 task User_stack_length (ucast stack_size);
         (h4, user_stack) \<leftarrow> kzalloc (h2\<lparr>kmem := m3\<rparr>) stack_size;
         let m4 = tset (kmem h4) task User_stack user_stack;
         if tget m4 task User_stack = 0 then do {
           h5 \<leftarrow> kfree_s (h4\<lparr>kmem := m4\<rparr>) (tget m4 task Stack) stack_size;
           h6 \<leftarrow> kfree_s h5 task sizeof_task;
           Some (s\<lparr>kh := h6\<rparr>, 0)
         } else do {
           m5 \<leftarrow> fill_task m4 task (scast (get_free_task_index s)) name function stack_size priority;
           s' \<leftarrow> add_task (s\<lparr>kh := h4\<lparr>kmem := m5\<rparr>\<rparr>) task;
           Some (s', task)
         }
       }
     }
   }"

text \<open>utask_create has the text of ktask_create, the kernel selectors included.\<close>

definition utask_create :: "task_ctx_t \<Rightarrow> u64 \<Rightarrow> u64 \<Rightarrow> u32 \<Rightarrow> u32 \<Rightarrow> (task_ctx_t \<times> u64) option" where
  "utask_create s name function stack_size priority = ktask_create s name function stack_size priority"

text \<open>
  task_init: the arguments are the addresses of the fourteen names and of the two
  task functions; the results of the creations are not looked at.
\<close>

fun create_all :: "task_ctx_t \<Rightarrow> (u64 \<times> u64) list \<Rightarrow> task_ctx_t option" where
  "create_all s [] = Some s"
| "create_all s ((name, function) # ts) = do {
     (s', task) \<leftarrow> ktask_create s name function PAGE_SIZE 3;
     create_all s' ts
   }"

definition task_init :: "task_ctx_t \<Rightarrow> u64 list \<Rightarrow> u64 \<Rightarrow> u64 \<Rightarrow> task_ctx_t option" where
  "task_init s names idle_thread init_thread =
     create_all (s\<lparr>task_lock := 0\<rparr>) (zip names (idle_thread # replicate 13 init_thread))"

definition get_first_sched_flag :: "mem \<Rightarrow> u64 \<Rightarrow> bool" where
  "get_first_sched_flag m task = (get_first_sched m task \<noteq> 0)"

definition reset_first_sched_flag :: "mem \<Rightarrow> u64 \<Rightarrow> mem" where
  "reset_first_sched_flag m task = set_first_sched m task 0"

definition set_task_running :: "mem \<Rightarrow> u64 \<Rightarrow> mem" where
  "set_task_running m task = set_state m task TASK_RUNNING"

definition set_task_waiting :: "mem \<Rightarrow> u64 \<Rightarrow> mem" where
  "set_task_waiting m task = set_state m task TASK_WAITING"

definition get_task_esp0 :: "mem \<Rightarrow> u64 \<Rightarrow> u64" where
  "get_task_esp0 m task = tget m task Esp0"

definition get_task_esp0_button :: "mem \<Rightarrow> u64 \<Rightarrow> u64" where
  "get_task_esp0_button m task = tget m task Stack"

definition get_task_esp3 :: "mem \<Rightarrow> u64 \<Rightarrow> u64" where
  "get_task_esp3 m task = tget m task Esp3"

definition set_task_esp0 :: "mem \<Rightarrow> u64 \<Rightarrow> u64 \<Rightarrow> mem" where
  "set_task_esp0 m task esp0 = tset m task Esp0 esp0"

text \<open>The source stores the argument of set_task_esp3 in the field esp0.\<close>

definition set_task_esp3 :: "mem \<Rightarrow> u64 \<Rightarrow> u64 \<Rightarrow> mem" where
  "set_task_esp3 m task esp3 = tset m task Esp0 esp3"

definition get_task_cs :: "mem \<Rightarrow> u64 \<Rightarrow> u64" where
  "get_task_cs m task = tget m task Cs"

definition get_task_funtion :: "mem \<Rightarrow> u64 \<Rightarrow> u64" where
  "get_task_funtion m task = tget m task Function"

definition get_task_ss :: "mem \<Rightarrow> u64 \<Rightarrow> u64" where
  "get_task_ss m task = tget m task Ss"

text \<open>task_clean reads the pid of the task after it has freed the task.\<close>

definition task_clean :: "task_ctx_t \<Rightarrow> u64 \<Rightarrow> task_ctx_t option" where
  "task_clean s task = do {
     l \<leftarrow> spin_lock (task_lock s);
     let m1 = set_state (kmem (kh s)) task TASK_DIED;
     h2 \<leftarrow> kfree_s ((kh s)\<lparr>kmem := m1\<rparr>) (tget m1 task Stack) (ucast (tget m1 task Stack_length));
     h3 \<leftarrow> kfree_s h2 task sizeof_task;
     let pid = unat (tget (kmem h3) task Pid);
     if TASK_MAX_NUMS \<le> pid then None
     else Some (s\<lparr>kh := h3, g_tasks := (g_tasks s)[pid := 0], task_lock := spin_unlock l\<rparr>)
   }"

definition decrease_task_couter :: "mem \<Rightarrow> u64 \<Rightarrow> mem \<times> u64" where
  "decrease_task_couter m task =
     (let c = tget m task Counter - 1 in (tset m task Counter c, c))"

definition reset_task_counter :: "mem \<Rightarrow> u64 \<Rightarrow> mem" where
  "reset_task_counter m task = tset m task Counter (tget m task Priority)"

end
