(* ===== verification/Task64Props.thy ===== *)
theory Task64Props
  imports Task64
begin

text \<open>
  The choice of the next task by get_next_ready_task, and the life of a task
  from ktask_create to task_clean over the allocator's invariant.
\<close>

section \<open>Fields\<close>

lemma task_offset_cases: "task_offset f \<in> {248, 256, 264, 272, 280, 288, 296, 304, 312, 320, 328, 336, 344}"
  by (cases f) simp_all

lemma task_offset_apart: "f \<noteq> g \<Longrightarrow> task_offset f + 8 \<le> task_offset g \<or> task_offset g + 8 \<le> task_offset f"
  by (cases f; cases g) simp_all

lemma task_offset_bounds [simp]: "task_offset f + 8 \<le> 352" "248 \<le> task_offset f"
  using task_offset_cases [of f] by auto

lemma tget_tset: "tget (tset m t f v) t g = (if g = f then v else tget m t g)"
proof (cases "g = f")
  case False
  then have "apart (t + of_nat (task_offset g)) 8 (t + of_nat (task_offset f)) 8"
    using task_offset_apart [of f g] apart_offset_same(2) [of "task_offset f" 8 "task_offset g" 8 t]
      apart_offset_same(1) [of "task_offset g" 8 "task_offset f" 8 t] task_offset_bounds(1) [of f] task_offset_bounds(1) [of g]
    by (auto simp del: task_offset_bounds)
  then show ?thesis using False by (simp add: tget_def tset_def mem_simps)
qed (simp add: tget_def tset_def mem_simps)

lemma tget_set_state [simp]: "tget (set_state m t st) t f = tget m t f"
  using apart_offset_same(1) [of "task_offset f" 8 352 4 t]
  by (simp add: tget_def set_state_def mem_simps)

lemma get_state_tset [simp]: "get_state (tset m t f v) t = get_state m t"
  using apart_offset_same(2) [of "task_offset f" 8 352 4 t]
  by (simp add: get_state_def tset_def mem_simps)

lemma get_set_state [simp]: "get_state (set_state m t st) t = state_code st"
  by (simp add: get_state_def set_state_def mem_simps)

lemma state_code_eq [simp]: "state_code s = state_code s' \<longleftrightarrow> s = s'"
  by (cases s; cases s') simp_all

text \<open>The stores of the scheduler stay inside the task.\<close>

lemma frames_tset: "frames m (tset m t f v) [(t, 373)]"
  using frames_wr64_in [of "task_offset f" 373 m t v] task_offset_bounds [of f]
  by (simp add: tset_def del: task_offset_bounds)

lemma frames_set_state: "frames m (set_state m t st) [(t, 373)]"
  using frames_wr32_in [of 352 373 m t "state_code st"] by (simp add: set_state_def)

lemma tget_frames:
  assumes "frames m m' (map (\<lambda>t. (t, 373)) us)" "\<forall>t \<in> set us. apart u 373 t 373"
  shows "tget m' u f = tget m u f" "get_state m' u = get_state m u"
proof -
  have l: "load m' u 373 = load m u 373" using assms(2) by (intro frames_load [OF assms(1)]) auto
  show "tget m' u f = tget m u f"
    using rd64_part [OF l, of "task_offset f"] task_offset_bounds [of f] by (simp add: tget_def del: task_offset_bounds)
  show "get_state m' u = get_state m u" using rd32_part [OF l, of 352] by (simp add: get_state_def)
qed

section \<open>The table of tasks\<close>

definition tasks_apart :: "u64 list \<Rightarrow> bool" where
  "tasks_apart ts \<longleftrightarrow> (\<forall>i < length ts. \<forall>j < length ts. i \<noteq> j \<longrightarrow> ts ! i \<noteq> 0 \<longrightarrow> ts ! j \<noteq> 0 \<longrightarrow>
     apart (ts ! i) 373 (ts ! j) 373)"

lemma tasks_apart_Cons:
  "tasks_apart (t # ts) \<longleftrightarrow> tasks_apart ts \<and> (t \<noteq> 0 \<longrightarrow> (\<forall>u \<in> set ts. u \<noteq> 0 \<longrightarrow> apart t 373 u 373))"
  (is "?l \<longleftrightarrow> ?r")
proof
  assume l: ?l
  have "tasks_apart ts"
    unfolding tasks_apart_def
  proof (intro allI impI)
    fix i j
    assume "i < length ts" "j < length ts" "i \<noteq> j" "ts ! i \<noteq> 0" "ts ! j \<noteq> 0"
    then show "apart (ts ! i) 373 (ts ! j) 373"
      using l [unfolded tasks_apart_def, rule_format, of "Suc i" "Suc j"] by simp
  qed
  moreover have "apart t 373 u 373" if "t \<noteq> 0" "u \<in> set ts" "u \<noteq> 0" for u
  proof -
    obtain j where "j < length ts" "u = ts ! j" using \<open>u \<in> set ts\<close> by (auto simp: in_set_conv_nth)
    then show ?thesis using l [unfolded tasks_apart_def, rule_format, of 0 "Suc j"] that by simp
  qed
  ultimately show ?r by blast
next
  assume r: ?r
  show ?l
    unfolding tasks_apart_def
  proof (intro allI impI)
    fix i j
    assume "i < length (t # ts)" "j < length (t # ts)" "i \<noteq> j" "(t # ts) ! i \<noteq> 0" "(t # ts) ! j \<noteq> 0"
    then show "apart ((t # ts) ! i) 373 ((t # ts) ! j) 373"
      using r by (cases i; cases j) (auto simp: tasks_apart_def apart_commute [of _ _ t])
  qed
qed

lemma tasks_apart_in:
  assumes "tasks_apart ts" "t \<in> set ts" "u \<in> set ts" "t \<noteq> 0" "u \<noteq> 0" "t \<noteq> u"
  shows "apart t 373 u 373"
  using assms unfolding tasks_apart_def by (metis in_set_conv_nth)

abbreviation in_state :: "mem \<Rightarrow> task_state_t \<Rightarrow> u64 list \<Rightarrow> u64 list" where
  "in_state m st ts \<equiv> filter (\<lambda>t. t \<noteq> 0 \<and> get_state m t = state_code st) ts"

section \<open>The choice\<close>

text \<open>\<open>x\<close> is the first of the elements of \<open>xs\<close> with the greatest value.\<close>

definition first_max :: "('a \<Rightarrow> 'b::linorder) \<Rightarrow> 'a list \<Rightarrow> 'a \<Rightarrow> bool" where
  "first_max f xs x \<longleftrightarrow>
     (\<exists>us vs. xs = us @ x # vs \<and> (\<forall>u \<in> set us. f u < f x) \<and> (\<forall>v \<in> set vs. f v \<le> f x))"

fun best :: "(u64 \<Rightarrow> u64) \<Rightarrow> u64 list \<Rightarrow> u64 \<Rightarrow> u64" where
  "best f [] b = b"
| "best f (t # ts) b = best f ts (if b = 0 \<or> f t > f b then t else b)"

lemma best_first_max:
  "b \<noteq> 0 \<Longrightarrow> 0 \<notin> set ts \<Longrightarrow> (\<forall>u \<in> set us. f u < f b) \<Longrightarrow> (\<forall>v \<in> set vs. f v \<le> f b) \<Longrightarrow>
     first_max f (us @ b # vs @ ts) (best f ts b)"
proof (induction ts arbitrary: us b vs)
  case Nil
  then show ?case by (auto simp: first_max_def)
next
  case (Cons t ts)
  show ?case
  proof (cases "f t > f b")
    case True
    have "first_max f ((us @ b # vs) @ t # [] @ ts) (best f ts t)"
      using Cons.prems True by (intro Cons.IH) auto
    then show ?thesis using True by simp
  next
    case False
    have "first_max f (us @ b # (vs @ [t]) @ ts) (best f ts b)"
      using Cons.prems False by (intro Cons.IH) auto
    then show ?thesis using False Cons.prems(1) by simp
  qed
qed

lemma best_max: "ts \<noteq> [] \<Longrightarrow> 0 \<notin> set ts \<Longrightarrow> first_max f ts (best f ts 0)"
  using best_first_max [of "hd ts" "tl ts" "[]" f "[]"] by (cases ts) auto

lemma first_max_in: "first_max f ts t \<Longrightarrow> t \<in> set ts"
  by (auto simp: first_max_def)

lemma sched_scan_eq:
  "sched_scan m ts high w =
     (best (\<lambda>t. tget m t Priority) (in_state m TASK_READY ts) high, w \<or> in_state m TASK_WAITING ts \<noteq> [])"
  by (induction ts arbitrary: high w) (auto simp: state_code_eq [symmetric] simp del: state_code_eq)

lemma best_cong: "(\<And>t. t \<in> set ts \<Longrightarrow> f t = g t) \<Longrightarrow> (b \<noteq> 0 \<Longrightarrow> f b = g b) \<Longrightarrow> best f ts b = best g ts b"
proof (induction ts arbitrary: b)
  case (Cons t ts)
  have "(b = 0 \<or> f t > f b) = (b = 0 \<or> g t > g b)" using Cons.prems(1) [of t] Cons.prems(2) by (cases "b = 0") simp_all
  then show ?case using Cons.prems Cons.IH [of "if b = 0 \<or> f t > f b then t else b"] by simp
qed simp

text \<open>The effect of the reset on the task \<open>x\<close>.\<close>

lemma refill_task:
  assumes "m2 = set_state (tset m t Counter (tget m t Priority)) t TASK_READY"
  shows "frames m m2 [(t, 373)]" "get_state m2 t = state_code TASK_READY"
    "tget m2 t f = (if f = Counter then tget m t Priority else tget m t f)"
  unfolding assms using frames_trans_same [OF frames_tset frames_set_state] by (simp_all add: tget_tset)

lemma sched_reset_eq:
  assumes "tasks_apart ts" "sched_reset m ts high = (m', high')"
    "high \<noteq> 0 \<Longrightarrow> \<forall>t \<in> set ts. t \<noteq> 0 \<longrightarrow> apart high 373 t 373"
  shows "high' = best (\<lambda>t. tget m t Priority) (in_state m TASK_WAITING ts) high \<and>
    frames m m' (map (\<lambda>t. (t, 373)) (in_state m TASK_WAITING ts)) \<and>
    (\<forall>x \<in> set ts. x \<noteq> 0 \<longrightarrow>
       (\<forall>f. tget m' x f = (if f = Counter \<and> get_state m x = state_code TASK_WAITING then tget m x Priority else tget m x f)) \<and>
       get_state m' x = (if get_state m x = state_code TASK_WAITING then state_code TASK_READY else get_state m x))"
  using assms
proof (induction ts arbitrary: m high)
  case Nil
  then show ?case by simp
next
  case (Cons t ts)
  have ap: "tasks_apart ts" "\<And>u. t \<noteq> 0 \<Longrightarrow> u \<in> set ts \<Longrightarrow> u \<noteq> 0 \<Longrightarrow> apart t 373 u 373"
    using Cons.prems(1) by (auto simp: tasks_apart_Cons)
  show ?case
  proof (cases "t = 0 \<or> get_state m t \<noteq> state_code TASK_WAITING")
    case True
    then have r: "sched_reset m ts high = (m', high')" using Cons.prems(2) by simp
    note IH = Cons.IH [OF ap(1) r]
    have IH': "high' = best (\<lambda>t. tget m t Priority) (in_state m TASK_WAITING ts) high"
      "frames m m' (map (\<lambda>t. (t, 373)) (in_state m TASK_WAITING ts))"
      using IH Cons.prems(3) by auto
    have "tget m' t f = tget m t f" "get_state m' t = get_state m t" if "t \<noteq> 0" for f
      using tget_frames(1) [OF IH'(2), of t f] tget_frames(2) [OF IH'(2), of t] ap(2) [OF that] by auto
    then show ?thesis using IH IH' True Cons.prems(3) by auto
  next
    case False
    let ?m2 = "set_state (tset m t Counter (tget m t Priority)) t TASK_READY"
    note R = refill_task [OF refl, of m t]
    have u: "tget ?m2 u f = tget m u f" "get_state ?m2 u = get_state m u" if "u \<in> set ts" "u \<noteq> 0" for u f
      using tget_frames(1) [of m ?m2 "[t]" u f] tget_frames(2) [of m ?m2 "[t]" u] R(1) ap(2) [OF _ that] False by (simp_all add: apart_commute)
    have h: "high \<noteq> 0 \<Longrightarrow> tget ?m2 high Priority = tget m high Priority"
      using tget_frames(1) [of m ?m2 "[t]" high Priority] R(1) Cons.prems(3) False by simp
    let ?high = "if high = 0 \<or> tget m t Priority > tget m high Priority then t else high"
    have r: "sched_reset ?m2 ts ?high = (m', high')"
      using Cons.prems(2) False by (cases "high = 0") (simp_all add: Let_def h tget_tset split: if_splits)
    have "?high \<noteq> 0 \<Longrightarrow> \<forall>u \<in> set ts. u \<noteq> 0 \<longrightarrow> apart ?high 373 u 373" using ap(2) Cons.prems(3) False by auto
    note IH = Cons.IH [OF ap(1) r this]
    have fw: "in_state ?m2 TASK_WAITING ts = in_state m TASK_WAITING ts" using u(2) by (intro filter_cong) auto
    have f': "frames ?m2 m' (map (\<lambda>t. (t, 373)) (in_state m TASK_WAITING ts))" using IH fw by auto
    have "best (\<lambda>t. tget ?m2 t Priority) (in_state m TASK_WAITING ts) ?high =
        best (\<lambda>t. tget m t Priority) (in_state m TASK_WAITING ts) ?high"
      using u(1) h R(3) by (intro best_cong) auto
    then have high': "high' = best (\<lambda>t. tget m t Priority) (in_state m TASK_WAITING (t # ts)) high"
      using IH fw False by auto
    have "frames m m' ([(t, 373)] @ map (\<lambda>t. (t, 373)) (in_state m TASK_WAITING ts))"
      by (rule frames_trans [OF R(1) f'])
    then have fr: "frames m m' (map (\<lambda>t. (t, 373)) (in_state m TASK_WAITING (t # ts)))" using False by simp
    have "tget m' t f = tget ?m2 t f" "get_state m' t = get_state ?m2 t" for f
      using tget_frames(1) [OF f', of t f] tget_frames(2) [OF f', of t] ap(2) False by auto
    then show ?thesis using high' fr IH u R False by auto
  qed
qed

text \<open>The choice, with the state of every task of the table afterwards.\<close>

lemma get_next_ready_task_eq:
  assumes ap: "tasks_apart ts" and ne: "ts \<noteq> []" and get: "get_next_ready_task m ts = (m', t)"
  shows "if in_state m TASK_READY ts \<noteq> [] then
      first_max (\<lambda>t. tget m t Priority) (in_state m TASK_READY ts) t \<and> m' = set_state m t TASK_RUNNING
    else if in_state m TASK_WAITING ts \<noteq> [] then
      first_max (\<lambda>t. tget m t Priority) (in_state m TASK_WAITING ts) t \<and>
      frames m m' (map (\<lambda>t. (t, 373)) (in_state m TASK_WAITING ts)) \<and>
      (\<forall>x \<in> set (in_state m TASK_WAITING ts).
        tget m' x Counter = tget m x Priority \<and> (\<forall>f. f \<noteq> Counter \<longrightarrow> tget m' x f = tget m x f) \<and>
        get_state m' x = state_code (if x = t then TASK_RUNNING else TASK_READY))
    else t = 0 \<and> m' = m"
proof -
  let ?R = "in_state m TASK_READY ts" and ?W = "in_state m TASK_WAITING ts" and ?p = "\<lambda>t. tget m t Priority"
  have scan: "sched_scan m ts 0 False = (best ?p ?R 0, ?W \<noteq> [])" by (simp add: sched_scan_eq)
  have nz: "first_max ?p (in_state m st ts) x \<Longrightarrow> x \<noteq> 0 \<and> x \<in> set ts" for x st
    using first_max_in [of ?p "in_state m st ts" x] by auto
  consider "?R \<noteq> []" | "?R = []" "?W \<noteq> []" | "?R = []" "?W = []" by blast
  then show ?thesis
  proof cases
    case 1
    have "first_max ?p ?R (best ?p ?R 0)" using 1 by (intro best_max) auto
    moreover have "best ?p ?R 0 \<noteq> 0" using nz [OF calculation] by simp
    ultimately show ?thesis using get scan 1 by (simp add: get_next_ready_task_def Let_def) auto
  next
    case 2
    obtain m1 h1 where r: "sched_reset m ts 0 = (m1, h1)" by fastforce
    have E: "h1 = best ?p ?W 0" "frames m m1 (map (\<lambda>t. (t, 373)) ?W)"
      "\<And>x f. x \<in> set ts \<Longrightarrow> x \<noteq> 0 \<Longrightarrow>
         tget m1 x f = (if f = Counter \<and> get_state m x = state_code TASK_WAITING then tget m x Priority else tget m x f)"
      "\<And>x. x \<in> set ts \<Longrightarrow> x \<noteq> 0 \<Longrightarrow>
         get_state m1 x = (if get_state m x = state_code TASK_WAITING then state_code TASK_READY else get_state m x)"
      using sched_reset_eq [OF ap r] by (auto simp del: state_code.simps)
    have b: "first_max ?p ?W (best ?p ?W 0)" using 2 by (intro best_max) auto
    have t: "t = h1" "h1 \<noteq> 0" "m' = set_state m1 h1 TASK_RUNNING" "h1 \<in> set ?W"
      using get scan 2 r nz [OF b] E(1) first_max_in [OF b] by (auto simp: get_next_ready_task_def Let_def split: if_splits)
    have x: "tget m' x f = tget m1 x f" "get_state m' x = (if x = t then state_code TASK_RUNNING else get_state m1 x)"
      if "x \<in> set ts" "x \<noteq> 0" for x f
      using tget_frames(1) [of m1 m' "[t]" x f] tget_frames(2) [of m1 m' "[t]" x] frames_set_state [of m1 h1 TASK_RUNNING] tasks_apart_in [OF ap that(1), of t] that t
      by (cases "x = t"; simp)+
    have "frames m m' (map (\<lambda>t. (t, 373)) ?W @ [(t, 373)])"
      using frames_trans [OF E(2) frames_set_state] t by simp
    then have "frames m m' (map (\<lambda>t. (t, 373)) ?W)" using t(1,4) by (auto elim!: frames_mono)
    then show ?thesis using 2 b E t x by auto
  next
    case 3
    have "get_state m (ts ! 0) = state_code TASK_READY \<longrightarrow> ts ! 0 = 0"
      using 3 ne by (cases ts) (auto split: if_splits)
    then show ?thesis using get scan 3 by (auto simp: get_next_ready_task_def Let_def split: if_splits)
  qed
qed

section \<open>Stores into a task\<close>

lemma task_store:
  fixes t :: u64
  assumes "i + length bs \<le> j \<or> j + k \<le> i" "i + length bs \<le> 1000" "j + k \<le> 1000"
  shows "load (store m (t + of_nat i) bs) (t + of_nat j) k = load m (t + of_nat j) k"
proof (cases "k = 0 \<or> bs = []")
  case False
  then show ?thesis
    using assms apart_offset_same [of i "length bs" j k t] apart_offset_same [of j k i "length bs" t]
    by (intro load_store_apart) auto
qed auto

lemma set_first_sched_store: "set_first_sched m t b = store m (t + of_nat 356) [b]"
proof
  fix x
  show "set_first_sched m t b x = store m (t + of_nat 356) [b] x"
    using unat_eq_zero [of "x - (t + 356)"] by (auto simp: set_first_sched_def store_def)
qed

lemma tset_store: "tset m t f v = store m (t + of_nat (task_offset f)) (le_bytes 8 v)"
  by (simp add: tset_def wr64_def)

lemma set_state_store: "set_state m t st = store m (t + of_nat 352) (le_bytes 4 (state_code st))"
  by (simp add: set_state_def wr32_def)

lemmas task_stores = tset_store set_state_store set_first_sched_store

lemma load_1: "load m a 1 = [m a]"
  by (simp add: load_def)

lemma first_sched_stores [simp]:
  "get_first_sched (tset m t f v) t = get_first_sched m t"
  "get_first_sched (set_state m t st) t = get_first_sched m t"
  "get_first_sched (set_first_sched m t b) t = b"
proof -
  have "load (tset m t f v) (t + of_nat 356) 1 = load m (t + of_nat 356) 1"
    "load (set_state m t st) (t + of_nat 356) 1 = load m (t + of_nat 356) 1"
    unfolding task_stores using task_offset_bounds [of f]
    by (intro task_store; simp del: task_offset_bounds)+
  then show "get_first_sched (tset m t f v) t = get_first_sched m t"
    "get_first_sched (set_state m t st) t = get_first_sched m t"
    unfolding load_1 by (simp_all add: get_first_sched_def)
qed (simp add: get_first_sched_def set_first_sched_def)

lemma name_stores [simp]:
  assumes "k \<le> 64"
  shows "load (tset m t f v) (task_name t) k = load m (task_name t) k"
    "load (set_state m t st) (task_name t) k = load m (task_name t) k"
    "load (set_first_sched m t b) (task_name t) k = load m (task_name t) k"
proof -
  have n: "task_name t = t + of_nat 184" by (simp add: task_name_def)
  show "load (tset m t f v) (task_name t) k = load m (task_name t) k"
    "load (set_state m t st) (task_name t) k = load m (task_name t) k"
    "load (set_first_sched m t b) (task_name t) k = load m (task_name t) k"
    unfolding task_stores n using assms task_offset_bounds [of f]
    by (intro task_store; simp del: task_offset_bounds)+
qed

lemma tget_first_sched [simp]:
  "tget (set_first_sched m t b) t f = tget m t f" "get_state (set_first_sched m t b) t = get_state m t"
proof -
  have "load (set_first_sched m t b) (t + of_nat (task_offset f)) 8 = load m (t + of_nat (task_offset f)) 8"
    "load (set_first_sched m t b) (t + of_nat 352) 4 = load m (t + of_nat 352) 4"
    unfolding task_stores using task_offset_bounds [of f] by (intro task_store; simp del: task_offset_bounds)+
  then show "tget (set_first_sched m t b) t f = tget m t f" "get_state (set_first_sched m t b) t = get_state m t"
    by (simp_all add: tget_def rd64_def get_state_def rd32_def)
qed

lemma tget_name:
  assumes "length bs \<le> 64"
  shows "tget (store m (task_name t) bs) t f = tget m t f"
proof -
  have "load (store m (t + of_nat 184) bs) (t + of_nat (task_offset f)) 8 = load m (t + of_nat (task_offset f)) 8"
    using assms task_offset_bounds [of f] by (intro task_store; simp del: task_offset_bounds)
  then show ?thesis by (simp add: tget_def rd64_def task_name_def)
qed

lemma frames_first_sched: "frames m (set_first_sched m t b) [(t, 373)]"
  using frames_store [of m "t + 356" "[b]"]
    frames_inside [where m = m and m' = "set_first_sched m t b" and a = t and i = 356 and n = 373 and k = 1]
  by (simp add: set_first_sched_store)

text \<open>The task after the stores of the creation.\<close>

lemma fill_task_ok:
  assumes "cstr m name s" "length s < 64" "apart (task_name task) (Suc (length s)) name (Suc (length s))"
    "apart name (Suc (length s)) task 373"
  shows "\<exists>m'. fill_task m task pid name function stack_size priority = Some m' \<and> frames m m' [(task, 373)] \<and>
    get_state m' task = state_code TASK_READY \<and> get_first_sched m' task = 1 \<and> cstr m' (task_name task) s \<and>
    (\<forall>f. tget m' task f = (case f of Pid \<Rightarrow> pid | Function \<Rightarrow> function | Counter \<Rightarrow> scast priority | Priority \<Rightarrow> scast priority
       | Esp0 \<Rightarrow> tget m task Stack + ucast stack_size | Esp3 \<Rightarrow> tget m task User_stack + ucast stack_size
       | Cs \<Rightarrow> 24 | Ss \<Rightarrow> 32 | Ds \<Rightarrow> 32 | _ \<Rightarrow> tget m task f))"
proof -
  define m1 where "m1 = tset m task Pid pid"
  define m2 where "m2 = store m1 (task_name task) (s @ [0])"
  have "load m1 name (Suc (length s)) = load m name (Suc (length s))"
    unfolding m1_def using assms(4) by (intro frames_load [OF frames_tset]) simp
  then have "cstr m1 name s" using assms(1) by (simp add: cstr_load)
  then have cpy: "strcpy m1 (task_name task) name = Some (m2, task_name task)"
    using strcpy_loop_cstr [OF _ assms(3)] by (simp add: strcpy_def m2_def)
  have f2: "tget m2 task f = (if f = Pid then pid else tget m task f)" for f
    using tget_name [of "s @ [0]" m1 task f] assms(2) by (simp add: m2_def m1_def tget_tset)
  have l2: "load m2 (task_name task) (Suc (length s)) = s @ [0]"
    unfolding m2_def using assms(2) by (intro load_store_same) simp_all
  have "frames m1 m2 [(task, 373)]"
    using assms(2) frames_inside [where m = m1 and m' = m2 and a = task and i = 184 and n = 373 and k = "Suc (length s)"]
      frames_store [of m1 "task + 184" "s @ [0]"] by (simp add: m2_def task_name_def)
  then have fr2: "frames m m2 [(task, 373)]" using frames_trans_same [OF frames_tset] unfolding m1_def by blast
  obtain m' where fill: "fill_task m task pid name function stack_size priority = Some m'" and
    m': "m' = set_state (tset (tset (tset (tset (tset (set_first_sched (tset (tset (tset (set_state m2 task TASK_INIT)
      task Priority (scast priority)) task Counter (scast priority)) task Function function) task 1)
      task Esp0 (tget m task Stack + ucast stack_size)) task Esp3 (tget m task User_stack + ucast stack_size))
      task Cs 24) task Ds 32) task Ss 32) task TASK_READY"
    using cpy f2 by (simp add: fill_task_def m1_def [symmetric] Let_def tget_tset)
  have "frames m m' [(task, 373)]"
    unfolding m' by (rule fr2 frames_trans_same [OF _ frames_tset] frames_trans_same [OF _ frames_set_state]
        frames_trans_same [OF _ frames_first_sched])+
  moreover have "cstr m' (task_name task) s"
    using assms(1,2) l2 by (simp add: cstr_load m')
  ultimately show ?thesis using fill by (auto simp: m' tget_tset f2 split: task_field.splits)
qed

section \<open>The tasks and the allocator\<close>

text \<open>The blocks a task owns.\<close>

definition task_class :: nat where
  "task_class = len_class sizeof_task"

definition task_blocks :: "mem \<Rightarrow> u64 \<Rightarrow> (u64 \<times> nat) list" where
  "task_blocks m t =
     [(t, task_class), (tget m t Stack, len_class (ucast (tget m t Stack_length))),
      (tget m t User_stack, len_class (ucast (tget m t User_stack_length)))]"

definition tasks_blocks :: "mem \<Rightarrow> u64 list \<Rightarrow> (u64 \<times> nat) list" where
  "tasks_blocks m ts = concat (map (task_blocks m) (filter (\<lambda>t. t \<noteq> 0) ts))"

text \<open>
  The table holds each task at its pid; the blocks of all tasks are allocated and
  no two of them are the same.
\<close>

definition task_inv :: "task_ctx_t \<Rightarrow> (u64 \<times> nat) set \<Rightarrow> bool" where
  "task_inv s A \<longleftrightarrow> heap_inv (kh s) A \<and> task_lock s = 0 \<and> length (g_tasks s) = TASK_MAX_NUMS \<and>
     (\<forall>i < TASK_MAX_NUMS. g_tasks s ! i \<noteq> 0 \<longrightarrow> tget (kmem (kh s)) (g_tasks s ! i) Pid = of_nat i) \<and>
     distinct (tasks_blocks (kmem (kh s)) (g_tasks s)) \<and> set (tasks_blocks (kmem (kh s)) (g_tasks s)) \<subseteq> A"

text \<open>The contents of the blocks \<open>A\<close> are the same in two memories.\<close>

definition same_blocks :: "(u64 \<times> nat) set \<Rightarrow> mem \<Rightarrow> mem \<Rightarrow> bool" where
  "same_blocks A m m' \<longleftrightarrow> (\<forall>q e. (q, e) \<in> A \<longrightarrow> load m' q (bsize e) = load m q (bsize e))"

lemma same_blocks_trans: "same_blocks A m m1 \<Longrightarrow> same_blocks A m1 m2 \<Longrightarrow> same_blocks A m m2"
  by (auto simp: same_blocks_def)

lemma same_blocks_mono: "same_blocks A m m' \<Longrightarrow> B \<subseteq> A \<Longrightarrow> same_blocks B m m'"
  by (auto simp: same_blocks_def)

lemma task_class_size: "bsize task_class = 512" "len_class sizeof_task = task_class"
  by (simp_all add: task_class_def len_class_def sizeof_task_def g_bucket_dir_def bsize_def)

lemma same_blocks_load:
  "same_blocks A m m' \<Longrightarrow> (t, task_class) \<in> A \<Longrightarrow> load m' t 373 = load m t 373"
  using load_mono [of m' t "bsize task_class" m 373] by (simp add: same_blocks_def) (simp add: task_class_size)

lemma same_blocks_task:
  assumes "same_blocks A m m'" "(t, task_class) \<in> A"
  shows "tget m' t f = tget m t f" "get_state m' t = get_state m t" "task_blocks m' t = task_blocks m t"
    "rd32 m' (t + 4) = rd32 m (t + 4)" "get_first_sched m' t = get_first_sched m t"
proof -
  note l = same_blocks_load [OF assms]
  show f: "tget m' t f = tget m t f" for f
    using rd64_part [OF l, of "task_offset f"] task_offset_bounds [of f] by (simp add: tget_def del: task_offset_bounds)
  show "get_state m' t = get_state m t" using rd32_part [OF l, of 352] by (simp add: get_state_def)
  show "rd32 m' (t + 4) = rd32 m (t + 4)" using rd32_part [OF l, of 4] by simp
  show "task_blocks m' t = task_blocks m t" by (simp add: task_blocks_def f)
  show "get_first_sched m' t = get_first_sched m t"
    using load_part [OF l, of 356 1] by (simp add: get_first_sched_def load_def)
qed

lemma tasks_blocks_in: "t \<in> set ts \<Longrightarrow> t \<noteq> 0 \<Longrightarrow> set (task_blocks m t) \<subseteq> set (tasks_blocks m ts)"
  by (auto simp: tasks_blocks_def)

lemma task_in_blocks: "t \<in> set ts \<Longrightarrow> t \<noteq> 0 \<Longrightarrow> (t, task_class) \<in> set (tasks_blocks m ts)"
  using tasks_blocks_in [of t ts m] by (auto simp: task_blocks_def)

lemma tasks_blocks_same:
  assumes "same_blocks A m m'" "set (tasks_blocks m ts) \<subseteq> A"
  shows "tasks_blocks m' ts = tasks_blocks m ts"
proof -
  have "task_blocks m' t = task_blocks m t" if "t \<in> set ts" "t \<noteq> 0" for t
    using same_blocks_task(3) [OF assms(1)] task_in_blocks [OF that, of m] assms(2) by blast
  then show ?thesis unfolding tasks_blocks_def by (intro arg_cong [where f = concat] map_cong) auto
qed

lemma task_inv_heap:
  assumes inv: "task_inv s A" and same: "same_blocks A (kmem (kh s)) (kmem h')" and inv': "heap_inv h' A'" and sub: "A \<subseteq> A'"
  shows "task_inv (s\<lparr>kh := h'\<rparr>) A'"
proof -
  have b: "set (tasks_blocks (kmem (kh s)) (g_tasks s)) \<subseteq> A" using inv by (simp add: task_inv_def)
  have "tget (kmem h') (g_tasks s ! i) Pid = of_nat i" if "i < TASK_MAX_NUMS" "g_tasks s ! i \<noteq> 0" for i
    using inv that same_blocks_task(1) [OF same] task_in_blocks [of "g_tasks s ! i" "g_tasks s" "kmem (kh s)"] b
    by (fastforce simp: task_inv_def)
  then show ?thesis using inv inv' sub b tasks_blocks_same [OF same b] by (auto simp: task_inv_def)
qed

lemma task_inv_apart: "task_inv s A \<Longrightarrow> tasks_apart (g_tasks s)"
  unfolding tasks_apart_def
proof (intro allI impI)
  fix i j
  assume inv: "task_inv s A" and ij: "i < length (g_tasks s)" "j < length (g_tasks s)" "i \<noteq> j"
    "g_tasks s ! i \<noteq> 0" "g_tasks s ! j \<noteq> 0"
  let ?t = "g_tasks s ! i" and ?u = "g_tasks s ! j"
  have A: "(?t, task_class) \<in> A" "(?u, task_class) \<in> A"
    using inv ij task_in_blocks [of _ "g_tasks s" "kmem (kh s)"] by (auto simp: task_inv_def)
  have "of_nat i \<noteq> (of_nat j :: u64)"
    using ij inv of_nat_u64_eq [of i j] by (simp add: task_inv_def TASK_MAX_NUMS_def)
  moreover have "tget (kmem (kh s)) ?t Pid = of_nat i" "tget (kmem (kh s)) ?u Pid = of_nat j"
    using inv ij by (simp_all add: task_inv_def)
  ultimately have "?t \<noteq> ?u" by metis
  then have "apart ?t 512 ?u 512" using heap_inv_apart [of "kh s" A, OF _ A] inv by (auto simp: task_inv_def task_class_size)
  then show "apart ?t 373 ?u 373" by (rule apart_mono) simp_all
qed

text \<open>One zeroed block, with the contents of the others kept.\<close>

lemma kzalloc_same:
  assumes "heap_inv h A" "heap_ready (Suc n) h" "unat len \<le> 4096"
  shows "\<exists>h' p. kzalloc h len = Some (h', p) \<and> same_blocks A (kmem h) (kmem h') \<and> heap_ready n h' \<and>
    (\<forall>x. \<not> heap_owned (kpm h) x \<longrightarrow> kmem h' x = kmem h x) \<and> kpm h' = kpm h \<and>
    (if p = 0 then heap_inv h' A else p \<notin> fst ` A \<and> heap_inv h' (insert (p, len_class len) A) \<and>
       load (kmem h') p (unat len) = replicate (unat len) 0)"
  using kzalloc_inv [OF assms] by (fastforce simp: same_blocks_def)

lemma write_same:
  assumes "heap_inv h A" "(p, d) \<in> A" "frames (kmem h) m' [(p, n)]" "n \<le> bsize d"
  shows "heap_inv (h\<lparr>kmem := m'\<rparr>) A" "same_blocks (A - {(p, d)}) (kmem h) m'"
    "heap_ready k (h\<lparr>kmem := m'\<rparr>) = heap_ready k h" "\<not> heap_owned (kpm h) x \<Longrightarrow> m' x = kmem h x"
proof -
  have fr: "frames (kmem h) m' [(p, bsize d)]"
    using frames_inside [of "kmem h" m' p 0 n "bsize d"] assms(3,4) by simp
  note W = heap_inv_write [OF assms(1,2) fr]
  show "heap_inv (h\<lparr>kmem := m'\<rparr>) A" "same_blocks (A - {(p, d)}) (kmem h) m'"
    "heap_ready k (h\<lparr>kmem := m'\<rparr>) = heap_ready k h" using W by (simp_all add: same_blocks_def)
  show "\<not> heap_owned (kpm h) x \<Longrightarrow> m' x = kmem h x"
    using frames_owned [OF fr] block_owned [OF assms(1,2)] by auto
qed

lemma kfree_same:
  assumes "heap_inv h A" "(p, len_class len) \<in> A" "rd32 (kmem h) (p + 4) = 0"
  shows "\<exists>h'. kfree_s h p len = Some h' \<and> heap_inv h' (A - {(p, len_class len)}) \<and>
    same_blocks (A - {(p, len_class len)}) (kmem h) (kmem h') \<and>
    load (kmem h') (p + of_nat 4) (bsize (len_class len) - 4) = load (kmem h) (p + of_nat 4) (bsize (len_class len) - 4)"
  using kfree_inv [OF assms] by (fastforce simp: same_blocks_def)

lemma rd32_replicate: "load m p n = replicate n 0 \<Longrightarrow> i + 4 \<le> n \<Longrightarrow> rd32 m (p + of_nat i) = 0"
proof -
  assume l: "load m p n = replicate n 0" and i: "i + 4 \<le> n"
  have "load m (p + of_nat i) 4 = load (\<lambda>_. 0) (p + of_nat i) 4"
    using load_part [of m p n "\<lambda>_. 0", OF _ i] l by (simp add: load_def map_replicate_const)
  then show ?thesis by (simp add: rd32_def load_def upt_rec)
qed

lemma apart_outside:
  fixes a b :: "'a::len word"
  assumes "\<And>i. i < n \<Longrightarrow> k \<le> unat (a + of_nat i - b)" "0 < n" "0 < k"
  shows "apart a n b k"
proof -
  have "n \<le> unat (b - a)"
  proof (rule ccontr)
    assume "\<not> n \<le> unat (b - a)"
    then have "k \<le> unat (a + of_nat (unat (b - a)) - b)" using assms(1) by (meson not_le)
    then show False using assms(3) by simp
  qed
  then show ?thesis using assms(1) [of 0] assms(2) by (simp add: apart_def)
qed

lemma task_word: "rd32 (tset m t f v) (t + 4) = rd32 m (t + 4)"
proof -
  have "load (tset m t f v) (t + of_nat 4) 4 = load m (t + of_nat 4) 4"
    unfolding tset_store using task_offset_bounds [of f] by (intro task_store; simp del: task_offset_bounds)
  then show ?thesis by (simp add: rd32_def)
qed

text \<open>Creation, up to the stores of the fields: all three blocks, or none.\<close>

lemma free_task_index_ok:
  "0 \<in> set ts \<Longrightarrow> length ts + k < 2 ^ 31 \<Longrightarrow>
     \<exists>i < length ts. ts ! i = 0 \<and> (\<forall>j < i. ts ! j \<noteq> 0) \<and> free_task_index ts k = of_nat (k + i)"
proof (induction ts arbitrary: k)
  case (Cons t ts)
  show ?case
  proof (cases "t = 0")
    case False
    then obtain i where "i < length ts" "ts ! i = 0" "\<forall>j < i. ts ! j \<noteq> 0" "free_task_index ts (Suc k) = of_nat (Suc k + i)"
      using Cons.IH [of "Suc k"] Cons.prems by auto
    then show ?thesis using False by (intro exI [of _ "Suc i"]) (auto simp: less_Suc_eq_0_disj nth_Cons')
  qed auto
qed simp

lemma scast_index: "i < 2 ^ 31 \<Longrightarrow> (scast (of_nat i :: u32) :: u64) = of_nat i"
proof -
  assume "i < 2 ^ 31"
  then have "sint (of_nat i :: u32) = int i" by (simp add: signed_of_nat signed_take_bit_int_eq_self)
  then show ?thesis by (simp add: scast_eq)
qed

lemma add_task_ok:
  assumes "task_lock s = 0" "i < TASK_MAX_NUMS" "tget (kmem (kh s)) t Pid = of_nat i"
  shows "add_task s t = Some (s\<lparr>g_tasks := (g_tasks s)[i := t], task_lock := 0\<rparr>)"
proof -
  have "unat (of_nat i :: u64) = i" using assms(2) by (intro unat_of_nat_less) (simp add: TASK_MAX_NUMS_def)
  then show ?thesis using assms by (simp add: add_task_def spin_lock_def spin_unlock_def Let_def)
qed

text \<open>A new task enters the table.\<close>

lemma filter_update:
  assumes "i < length ts" "ts ! i = 0" "t \<noteq> 0"
  shows "\<exists>us vs. filter (\<lambda>t. t \<noteq> 0) ts = us @ vs \<and> filter (\<lambda>t. t \<noteq> 0) (ts[i := t]) = us @ t # vs"
  using assms by (subst (1) id_take_nth_drop [of i ts])
    (auto simp: upd_conv_take_nth_drop)

lemma task_inv_add:
  assumes inv: "task_inv s A" and i: "i < TASK_MAX_NUMS" "g_tasks s ! i = 0" and t: "t \<noteq> 0"
    and pid: "tget (kmem (kh s)) t Pid = of_nat i" and B: "distinct (task_blocks (kmem (kh s)) t)"
    "set (task_blocks (kmem (kh s)) t) \<inter> set (tasks_blocks (kmem (kh s)) (g_tasks s)) = {}"
    "set (task_blocks (kmem (kh s)) t) \<subseteq> A"
  shows "task_inv (s\<lparr>g_tasks := (g_tasks s)[i := t], task_lock := 0\<rparr>) A"
proof -
  let ?m = "kmem (kh s)" and ?ts = "g_tasks s"
  have len: "length ?ts = TASK_MAX_NUMS" using inv by (simp add: task_inv_def)
  obtain us vs where f: "filter (\<lambda>t. t \<noteq> 0) ?ts = us @ vs" "filter (\<lambda>t. t \<noteq> 0) (?ts[i := t]) = us @ t # vs"
    using filter_update [of i ?ts t] i len t by auto
  have "distinct (tasks_blocks ?m (?ts[i := t]))" "set (tasks_blocks ?m (?ts[i := t])) \<subseteq> A"
    using inv B unfolding task_inv_def tasks_blocks_def f by auto
  then show ?thesis using inv i pid len by (auto simp: task_inv_def nth_list_update)
qed

text \<open>The two stacks: a length is stored in the task, a block allocated, its address stored.\<close>

lemma same_blocks_word:
  "same_blocks B m m' \<Longrightarrow> (p, d) \<in> B \<Longrightarrow> heap_inv h A \<Longrightarrow> (p, d) \<in> A \<Longrightarrow> rd32 m' (p + 4) = rd32 m (p + 4)"
  using rd32_part [of m' p "bsize d" m 4] heap_inv_block(1) [of h A p d] bsize_dvd(2) [of d]
  by (simp add: same_blocks_def)

lemma alloc_into_task:
  assumes inv: "heap_inv h A" and tA: "(t, task_class) \<in> A" and ready: "heap_ready (Suc n) h"
    and size: "8 \<le> unat len" "unat len \<le> 4096"
  obtains h2 p m2 where "kzalloc (h\<lparr>kmem := tset (kmem h) t g v\<rparr>) len = Some (h2, p)" "m2 = tset (kmem h2) t f p"
    "same_blocks (A - {(t, task_class)}) (kmem h) m2" "heap_ready n (h2\<lparr>kmem := m2\<rparr>)" "kpm h2 = kpm h"
    "\<And>k. tget m2 t k = (if k = f then p else if k = g then v else tget (kmem h) t k)"
    "rd32 m2 (t + 4) = rd32 (kmem h) (t + 4)" "\<And>x. \<not> heap_owned (kpm h) x \<Longrightarrow> m2 x = kmem h x"
    "if p = 0 then heap_inv (h2\<lparr>kmem := m2\<rparr>) A
     else p \<notin> fst ` A \<and> heap_inv (h2\<lparr>kmem := m2\<rparr>) (insert (p, len_class len) A) \<and> rd32 m2 (p + 4) = 0"
proof -
  let ?m1 = "tset (kmem h) t g v" and ?B = "A - {(t, task_class)}"
  have le: "373 \<le> bsize task_class" by (simp add: task_class_size)
  note W1 = write_same [OF inv tA frames_tset [of _ _ g v] le]
  obtain h2 p where K: "kzalloc (h\<lparr>kmem := ?m1\<rparr>) len = Some (h2, p)" "same_blocks A ?m1 (kmem h2)" "heap_ready n h2"
    "\<And>x. \<not> heap_owned (kpm h) x \<Longrightarrow> kmem h2 x = ?m1 x" "kpm h2 = kpm h"
    "if p = 0 then heap_inv h2 A else p \<notin> fst ` A \<and> heap_inv h2 (insert (p, len_class len) A) \<and>
       load (kmem h2) p (unat len) = replicate (unat len) 0"
    using kzalloc_same [OF W1(1) _ size(2), of n] W1(3) ready by auto
  define A2 where "A2 = (if p = 0 then A else insert (p, len_class len) A)"
  have i2: "heap_inv h2 A2" and t2: "(t, task_class) \<in> A2" and p2: "p \<noteq> 0 \<Longrightarrow> (p, len_class len) \<in> A2 - {(t, task_class)}"
    using K(6) tA by (auto simp: A2_def image_iff split: if_splits)
  let ?m2 = "tset (kmem h2) t f p"
  note W2 = write_same [OF i2 t2 frames_tset [of _ _ f p] le]
  have B: "same_blocks ?B (kmem h2) ?m2" using W2(2) by (rule same_blocks_mono) (auto simp: A2_def)
  have fields: "tget ?m2 t k = (if k = f then p else if k = g then v else tget (kmem h) t k)" for k
    using same_blocks_task(1) [OF K(2) tA] by (simp add: tget_tset)
  have word: "rd32 ?m2 (t + 4) = rd32 (kmem h) (t + 4)"
    using same_blocks_task(4) [OF K(2) tA] by (simp add: task_word)
  have zero: "rd32 ?m2 (p + 4) = 0" if "p \<noteq> 0"
  proof -
    have "rd32 (kmem h2) (p + 4) = 0" using K(6) that size(1) rd32_replicate [of "kmem h2" p "unat len" 4] by simp
    moreover have "load ?m2 p (bsize (len_class len)) = load (kmem h2) p (bsize (len_class len))"
      using W2(2) p2 [OF that] unfolding same_blocks_def by blast
    ultimately show ?thesis
      using rd32_part [of ?m2 p "bsize (len_class len)" "kmem h2" 4] len_class_bound [OF size(2)] size(1) by simp
  qed
  have "same_blocks ?B (kmem h) ?m2"
    using W1(2) same_blocks_mono [OF K(2), of ?B] B by (meson Diff_subset same_blocks_trans)
  then show thesis
    using K W1(4) W2 zero by (intro that [OF K(1) refl _ _ K(5) fields word]) (auto simp: A2_def)
qed

text \<open>The fields of a task after its creation.\<close>

definition created :: "mem \<Rightarrow> u64 \<Rightarrow> u8 list \<Rightarrow> u64 \<Rightarrow> u32 \<Rightarrow> u32 \<Rightarrow> bool" where
  "created m t str function stack_size priority \<longleftrightarrow>
     cstr m (task_name t) str \<and> get_state m t = state_code TASK_READY \<and> get_first_sched_flag m t \<and>
     tget m t Function = function \<and> tget m t Counter = scast priority \<and> tget m t Priority = scast priority \<and>
     tget m t Stack_length = ucast stack_size \<and> tget m t User_stack_length = ucast stack_size \<and>
     tget m t Esp0 = tget m t Stack + ucast stack_size \<and> tget m t Esp3 = tget m t User_stack + ucast stack_size \<and>
     tget m t Cs = 24 \<and> tget m t Ss = 32 \<and> tget m t Ds = 32"

text \<open>The last part of the creation, once the three blocks are there.\<close>

lemma create_finish:
  assumes inv: "task_inv s A" and i: "i < TASK_MAX_NUMS" "g_tasks s ! i = 0" and heap: "heap_inv h (insert (us, c) (insert (st, c) (insert (t, task_class) A)))"
    and new: "t \<noteq> 0" "t \<notin> fst ` A" "st \<notin> fst ` insert (t, task_class) A" "us \<notin> fst ` insert (st, c) (insert (t, task_class) A)"
    and same: "same_blocks A (kmem (kh s)) (kmem h)" and c: "c = len_class stack_size"
    and f: "tget (kmem h) t Stack = st" "tget (kmem h) t User_stack = us" "tget (kmem h) t Stack_length = ucast stack_size"
      "tget (kmem h) t User_stack_length = ucast stack_size"
    and name: "cstr (kmem h) name str" "length str < 64" "\<And>i. i \<le> length str \<Longrightarrow> \<not> heap_owned (kpm h) (name + of_nat i)"
  shows "\<exists>m. fill_task (kmem h) t (of_nat i) name function stack_size priority = Some m \<and>
    (let s' = s\<lparr>kh := h\<lparr>kmem := m\<rparr>, g_tasks := (g_tasks s)[i := t], task_lock := 0\<rparr>; B = set (task_blocks m t) in
      add_task (s\<lparr>kh := h\<lparr>kmem := m\<rparr>\<rparr>) t = Some s' \<and> same_blocks A (kmem (kh s)) m \<and> A \<inter> B = {} \<and>
      task_inv s' (A \<union> B) \<and> created m t str function stack_size priority)"
proof -
  let ?A = "insert (us, c) (insert (st, c) (insert (t, task_class) A))"
  have tA: "(t, task_class) \<in> ?A" by simp
  have "bsize task_class \<le> unat (name + of_nat i - t)" if "i < Suc (length str)" for i
    using block_owned [OF heap tA] name(3) that by (meson less_Suc_eq_le not_less)
  then have ap: "apart name (Suc (length str)) t (bsize task_class)"
    by (rule apart_outside) (simp_all add: task_class_size)
  have "apart (t + of_nat 184) (Suc (length str)) name (Suc (length str))"
    using ap name(2) by (intro apart_offset [of t "bsize task_class"]) (simp_all add: apart_commute task_class_size)
  then have ap': "apart (task_name t) (Suc (length str)) name (Suc (length str))" by (simp add: task_name_def)
  obtain m where m: "fill_task (kmem h) t (of_nat i) name function stack_size priority = Some m" "frames (kmem h) m [(t, 373)]"
    "get_state m t = state_code TASK_READY" "get_first_sched m t = 1" "cstr m (task_name t) str"
    and fm: "\<And>f. tget m t f = (case f of Pid \<Rightarrow> of_nat i | Function \<Rightarrow> function | Counter \<Rightarrow> scast priority | Priority \<Rightarrow> scast priority
       | Esp0 \<Rightarrow> tget (kmem h) t Stack + ucast stack_size | Esp3 \<Rightarrow> tget (kmem h) t User_stack + ucast stack_size
       | Cs \<Rightarrow> 24 | Ss \<Rightarrow> 32 | Ds \<Rightarrow> 32 | _ \<Rightarrow> tget (kmem h) t f)"
    using fill_task_ok [OF name(1,2) ap' apart_mono [OF ap], of "of_nat i" "function" stack_size priority]
    by (auto simp: task_class_size)
  have W: "heap_inv (h\<lparr>kmem := m\<rparr>) ?A" "same_blocks (?A - {(t, task_class)}) (kmem h) m"
    using write_same(1,2) [OF heap tA m(2)] by (simp_all add: task_class_size)
  have same': "same_blocks A (kmem (kh s)) m"
    by (rule same_blocks_trans [OF same same_blocks_mono [OF W(2)]]) (use new(2) in \<open>auto simp: image_iff\<close>)
  let ?s1 = "s\<lparr>kh := h\<lparr>kmem := m\<rparr>\<rparr>"
  have inv1: "task_inv ?s1 ?A" using task_inv_heap [OF inv _ W(1)] same' by auto
  have bl: "task_blocks m t = [(t, task_class), (st, c), (us, c)]"
    using f by (simp add: task_blocks_def fm c)
  have ts: "set (tasks_blocks m (g_tasks s)) \<subseteq> A"
    using inv tasks_blocks_same [OF same', of "g_tasks s"] by (simp add: task_inv_def)
  have "A \<inter> set (task_blocks m t) = {}" "distinct (task_blocks m t)" using new by (auto simp: bl image_iff)
  moreover have "task_inv (?s1\<lparr>g_tasks := (g_tasks ?s1)[i := t], task_lock := 0\<rparr>) ?A"
    using i new(1) calculation ts by (intro task_inv_add [OF inv1]) (auto simp: fm bl)
  moreover have "A \<union> set (task_blocks m t) = ?A" by (auto simp: bl)
  moreover have "add_task ?s1 t = Some (?s1\<lparr>g_tasks := (g_tasks ?s1)[i := t], task_lock := 0\<rparr>)"
    using inv i fm [of Pid] by (intro add_task_ok) (simp_all add: task_inv_def)
  moreover have "created m t str function stack_size priority"
    using m f by (simp add: created_def get_first_sched_flag_def fm)
  ultimately show ?thesis using m(1) same' by (intro exI [of _ m]) simp
qed

text \<open>The first part: the task and its stacks, or nothing.\<close>

definition create_blocks :: "kheap \<Rightarrow> u32 \<Rightarrow> (kheap \<times> u64) option" where
  "create_blocks h stack_size = do {
     (h1, task) \<leftarrow> kzalloc h sizeof_task;
     if task = 0 then Some (h1, 0) else do {
       let m1 = tset (kmem h1) task Stack_length (ucast stack_size);
       (h2, stack) \<leftarrow> kzalloc (h1\<lparr>kmem := m1\<rparr>) stack_size;
       let m2 = tset (kmem h2) task Stack stack;
       if tget m2 task Stack = 0 then do {
         h3 \<leftarrow> kfree_s (h2\<lparr>kmem := m2\<rparr>) task sizeof_task;
         Some (h3, 0)
       } else do {
         let m3 = tset m2 task User_stack_length (ucast stack_size);
         (h4, user_stack) \<leftarrow> kzalloc (h2\<lparr>kmem := m3\<rparr>) stack_size;
         let m4 = tset (kmem h4) task User_stack user_stack;
         if tget m4 task User_stack = 0 then do {
           h5 \<leftarrow> kfree_s (h4\<lparr>kmem := m4\<rparr>) (tget m4 task Stack) stack_size;
           h6 \<leftarrow> kfree_s h5 task sizeof_task;
           Some (h6, 0)
         } else Some (h4\<lparr>kmem := m4\<rparr>, task)
       }
     }
   }"

lemma ktask_create_blocks:
  "ktask_create s name function stack_size priority = do {
     (h, task) \<leftarrow> create_blocks (kh s) stack_size;
     if task = 0 then Some (s\<lparr>kh := h\<rparr>, 0) else do {
       m5 \<leftarrow> fill_task (kmem h) task (scast (get_free_task_index s)) name function stack_size priority;
       s' \<leftarrow> add_task (s\<lparr>kh := h\<lparr>kmem := m5\<rparr>\<rparr>) task;
       Some (s', task)
     }
   }"
  by (auto simp: ktask_create_def create_blocks_def Let_def split: bind_split)

lemma create_blocks_ok:
  assumes heap: "heap_inv h A" and ready: "heap_ready 3 h" and size: "8 \<le> unat stack_size" "unat stack_size \<le> 4096"
    and c: "c = len_class stack_size"
  shows "\<exists>h' t. create_blocks h stack_size = Some (h', t) \<and> same_blocks A (kmem h) (kmem h') \<and>
    (if t = 0 then heap_inv h' A
     else kpm h' = kpm h \<and> (\<forall>x. \<not> heap_owned (kpm h) x \<longrightarrow> kmem h' x = kmem h x) \<and> t \<notin> fst ` A \<and>
       (\<exists>st us. st \<notin> fst ` insert (t, task_class) A \<and> us \<notin> fst ` insert (st, c) (insert (t, task_class) A) \<and>
         heap_inv h' (insert (us, c) (insert (st, c) (insert (t, task_class) A))) \<and>
         tget (kmem h') t Stack = st \<and> tget (kmem h') t User_stack = us \<and>
         tget (kmem h') t Stack_length = ucast stack_size \<and> tget (kmem h') t User_stack_length = ucast stack_size))"
proof -
  have r3: "heap_ready (Suc (Suc (Suc 0))) h" using ready by (simp add: numeral_3_eq_3)
  have sz: "unat sizeof_task \<le> 4096" by (simp add: sizeof_task_def)
  obtain h1 t where K1: "kzalloc h sizeof_task = Some (h1, t)" "same_blocks A (kmem h) (kmem h1)"
    "heap_ready (Suc (Suc 0)) h1" "\<And>x. \<not> heap_owned (kpm h) x \<Longrightarrow> kmem h1 x = kmem h x" "kpm h1 = kpm h"
    "if t = 0 then heap_inv h1 A else t \<notin> fst ` A \<and> heap_inv h1 (insert (t, task_class) A) \<and>
       load (kmem h1) t (unat sizeof_task) = replicate (unat sizeof_task) 0"
    using kzalloc_same [OF heap r3 sz] unfolding task_class_size by blast
  show ?thesis
  proof (cases "t = 0")
    case True
    then show ?thesis using K1 by (simp add: create_blocks_def)
  next
    case t: False
    let ?A1 = "insert (t, task_class) A"
    have tA: "(t, task_class) \<in> ?A1" "t \<notin> fst ` A" "?A1 - {(t, task_class)} = A" and i1: "heap_inv h1 ?A1"
      using K1(6) t by force+
    have z1: "rd32 (kmem h1) (t + 4) = 0"
      using K1(6) t rd32_replicate [of "kmem h1" t "unat sizeof_task" 4] by (simp add: sizeof_task_def)
    obtain h2 st m2 where K2: "kzalloc (h1\<lparr>kmem := tset (kmem h1) t Stack_length (ucast stack_size)\<rparr>) stack_size = Some (h2, st)"
      "m2 = tset (kmem h2) t Stack st" "same_blocks A (kmem h1) m2" "heap_ready (Suc 0) (h2\<lparr>kmem := m2\<rparr>)" "kpm h2 = kpm h1"
      and f2: "\<And>k. tget m2 t k = (if k = Stack then st else if k = Stack_length then ucast stack_size else tget (kmem h1) t k)"
      and z2: "rd32 m2 (t + 4) = rd32 (kmem h1) (t + 4)" "\<And>x. \<not> heap_owned (kpm h1) x \<Longrightarrow> m2 x = kmem h1 x"
      and a2: "if st = 0 then heap_inv (h2\<lparr>kmem := m2\<rparr>) ?A1 else st \<notin> fst ` ?A1 \<and>
        heap_inv (h2\<lparr>kmem := m2\<rparr>) (insert (st, c) ?A1) \<and> rd32 m2 (st + 4) = 0"
      using alloc_into_task [OF i1 tA(1) K1(3) size, of Stack_length "ucast stack_size" Stack] unfolding tA(3) c by blast
    have s2: "same_blocks A (kmem h) m2" using K1(2) K2(3) by (rule same_blocks_trans)
    show ?thesis
    proof (cases "st = 0")
      case True
      have i2: "heap_inv (h2\<lparr>kmem := m2\<rparr>) ?A1" using a2 True by simp
      obtain h3 where F: "kfree_s (h2\<lparr>kmem := m2\<rparr>) t sizeof_task = Some h3" "heap_inv h3 A" "same_blocks A m2 (kmem h3)"
        using kfree_same [OF i2, of t sizeof_task] z2(1) z1 unfolding task_class_size tA(3) by auto
      then show ?thesis
        using K1(1) K2(1,2) t f2 [of Stack] True same_blocks_trans [OF s2 F(3)] by (simp add: create_blocks_def)
    next
      case st: False
      let ?A2 = "insert (st, c) ?A1"
      have sA: "(t, task_class) \<in> ?A2" "st \<notin> fst ` ?A1" "A \<subseteq> ?A2 - {(t, task_class)}" "(st, c) \<in> ?A2 - {(t, task_class)}"
          "?A2 - {(st, c)} = ?A1" and i2: "heap_inv (h2\<lparr>kmem := m2\<rparr>) ?A2" and zs: "rd32 m2 (st + 4) = 0"
        using a2 st tA(2) by (auto simp: image_iff)
      define H2 where "H2 = h2\<lparr>kmem := m2\<rparr>"
      have H2: "kmem H2 = m2" "kpm H2 = kpm h2" "H2\<lparr>kmem := x\<rparr> = h2\<lparr>kmem := x\<rparr>" for x by (simp_all add: H2_def)
      obtain h4 us m4 where K4: "kzalloc (H2\<lparr>kmem := tset (kmem H2) t User_stack_length (ucast stack_size)\<rparr>) stack_size = Some (h4, us)"
        "m4 = tset (kmem h4) t User_stack us" "same_blocks (?A2 - {(t, task_class)}) (kmem H2) m4" "kpm h4 = kpm H2"
        and f4: "\<And>k. tget m4 t k = (if k = User_stack then us else if k = User_stack_length then ucast stack_size else tget (kmem H2) t k)"
        and z4: "rd32 m4 (t + 4) = rd32 (kmem H2) (t + 4)" "\<And>x. \<not> heap_owned (kpm H2) x \<Longrightarrow> m4 x = kmem H2 x"
        and a4: "if us = 0 then heap_inv (h4\<lparr>kmem := m4\<rparr>) ?A2
          else us \<notin> fst ` ?A2 \<and> heap_inv (h4\<lparr>kmem := m4\<rparr>) (insert (us, c) ?A2) \<and> rd32 m4 (us + 4) = 0"
        by (rule alloc_into_task [OF i2 [folded H2_def] sA(1) K2(4) [folded H2_def] size,
              of User_stack_length "ucast stack_size" User_stack, folded c]) (rule that; assumption)
      note K4 = K4 [unfolded H2] and f4 = f4 [unfolded H2] and z4 = z4 [unfolded H2]
      have s4: "same_blocks A (kmem h) m4" using same_blocks_trans [OF s2 same_blocks_mono [OF K4(3) sA(3)]] .
      show ?thesis
      proof (cases "us = 0")
        case True
        have i4: "heap_inv (h4\<lparr>kmem := m4\<rparr>) ?A2" using a4 True by simp
        have w: "rd32 m4 (st + 4) = 0" using same_blocks_word [OF K4(3) sA(4) i2] zs by simp
        obtain h5 where F5: "kfree_s (h4\<lparr>kmem := m4\<rparr>) st stack_size = Some h5" "heap_inv h5 ?A1" "same_blocks ?A1 m4 (kmem h5)"
          using kfree_same [OF i4, of st stack_size] w sA(5) unfolding c by auto
        have "rd32 (kmem h5) (t + 4) = 0" using same_blocks_task(4) [OF F5(3) tA(1)] z4(1) z2(1) z1 by simp
        then obtain h6 where F6: "kfree_s h5 t sizeof_task = Some h6" "heap_inv h6 A" "same_blocks A (kmem h5) (kmem h6)"
          using kfree_same [OF F5(2), of t sizeof_task] unfolding task_class_size tA(3) by auto
        have "same_blocks A (kmem h) (kmem h6)"
          using same_blocks_trans [OF same_blocks_trans [OF s4 same_blocks_mono [OF F5(3)]] F6(3)] by auto
        then show ?thesis
          using K1(1) K2(1,2) K4(1,2) F5(1) F6 t st f4 f2 [of Stack] True by (simp add: create_blocks_def)
      next
        case False
        have o: "kpm h4 = kpm h" "m4 x = kmem h x" if "\<not> heap_owned (kpm h) x" for x
          using z4(2) [of x] z2(2) [of x] K1(4) [of x] that K4(4) K2(5) K1(5) by simp_all
        have "kpm h4 = kpm h" using K4(4) K2(5) K1(5) by simp
        then show ?thesis
          using False o(2) K1(1) K2(1,2) K4 t st f4 f2 z4 a4 s4 sA(2) tA(2) by (auto simp: create_blocks_def)
      qed
    qed
  qed
qed

section \<open>Scheduling and cleaning\<close>

text \<open>Writes inside the tasks of the table that keep all fields but counter and state.\<close>

lemma frames_enlarge:
  "frames m m' rs \<Longrightarrow> (\<And>a n. (a, n) \<in> set rs \<Longrightarrow> \<exists>k \<ge> n. (a, k) \<in> set rs') \<Longrightarrow> frames m m' rs'"
  unfolding frames_def by (metis (mono_tags, lifting) case_prod_conv case_prodI2 order_trans)

lemma task_inv_write:
  assumes inv: "task_inv s A" and us: "set us \<subseteq> set (g_tasks s) - {0}"
    and fr: "frames (kmem (kh s)) m' (map (\<lambda>t. (t, 373)) us)"
    and f: "\<And>t f. t \<in> set (g_tasks s) \<Longrightarrow> t \<noteq> 0 \<Longrightarrow> f \<noteq> Counter \<Longrightarrow> tget m' t f = tget (kmem (kh s)) t f"
  shows "task_inv (s\<lparr>kh := (kh s)\<lparr>kmem := m'\<rparr>\<rparr>) A" "heap_ready n ((kh s)\<lparr>kmem := m'\<rparr>) = heap_ready n (kh s)"
proof -
  let ?m = "kmem (kh s)" and ?ps = "map (\<lambda>t. (t, task_class)) us"
  have heap: "heap_inv (kh s) A" using inv by (simp add: task_inv_def)
  have ps: "set ?ps \<subseteq> A" using us inv task_in_blocks [of _ "g_tasks s" ?m] by (auto simp: task_inv_def)
  have "frames ?m m' (map (\<lambda>(p, d). (p, bsize d)) ?ps)"
    by (rule frames_enlarge [OF fr]) (auto simp: task_class_size image_iff)
  note W = heap_inv_writes [OF heap ps this]
  have "task_blocks m' t = task_blocks ?m t" if "t \<in> set (g_tasks s)" "t \<noteq> 0" for t
    using f [OF that] by (simp add: task_blocks_def)
  then have "tasks_blocks m' (g_tasks s) = tasks_blocks ?m (g_tasks s)"
    unfolding tasks_blocks_def by (intro arg_cong [where f = concat] map_cong) auto
  moreover have "tget m' (g_tasks s ! i) Pid = of_nat i" if "i < TASK_MAX_NUMS" "g_tasks s ! i \<noteq> 0" for i
    using f [of "g_tasks s ! i" Pid] inv that by (simp add: task_inv_def)
  ultimately show "task_inv (s\<lparr>kh := (kh s)\<lparr>kmem := m'\<rparr>\<rparr>) A" using inv W(1) by (simp add: task_inv_def)
  show "heap_ready n ((kh s)\<lparr>kmem := m'\<rparr>) = heap_ready n (kh s)" using W(3) .
qed

lemma get_next_ready_task_inv:
  assumes inv: "task_inv s A" and get: "get_next_ready_task (kmem (kh s)) (g_tasks s) = (m', t)"
  shows "task_inv (s\<lparr>kh := (kh s)\<lparr>kmem := m'\<rparr>\<rparr>) A \<and> heap_ready n ((kh s)\<lparr>kmem := m'\<rparr>) = heap_ready n (kh s) \<and>
    (t \<noteq> 0 \<longrightarrow> t \<in> set (g_tasks s) \<and> get_state m' t = state_code TASK_RUNNING)"
proof -
  let ?m = "kmem (kh s)" and ?ts = "g_tasks s"
  have ap: "tasks_apart ?ts" "?ts \<noteq> []" using task_inv_apart [OF inv] inv by (auto simp: task_inv_def TASK_MAX_NUMS_def)
  note E = get_next_ready_task_eq [OF ap get]
  consider (ready) "in_state ?m TASK_READY ?ts \<noteq> []" | (waiting) "in_state ?m TASK_READY ?ts = []" "in_state ?m TASK_WAITING ?ts \<noteq> []"
    | (none) "in_state ?m TASK_READY ?ts = []" "in_state ?m TASK_WAITING ?ts = []" by blast
  then show ?thesis
  proof cases
    case ready
    then have t: "t \<in> set (in_state ?m TASK_READY ?ts)" "m' = set_state ?m t TASK_RUNNING"
      using E first_max_in [of _ "in_state ?m TASK_READY ?ts" t] by auto
    have "tget m' u f = tget ?m u f" if "u \<in> set ?ts" "u \<noteq> 0" for u f
      using tget_frames(1) [of ?m m' "[t]" u f] frames_set_state [of ?m t TASK_RUNNING] tasks_apart_in [OF ap(1) that(1), of t] that t
      by (cases "u = t") auto
    then show ?thesis using task_inv_write [OF inv, of "[t]" m'] t frames_set_state [of ?m t TASK_RUNNING] by auto
  next
    case waiting
    let ?W = "in_state ?m TASK_WAITING ?ts"
    have W: "frames ?m m' (map (\<lambda>t. (t, 373)) ?W)" "t \<in> set ?W" "get_state m' t = state_code TASK_RUNNING"
      "\<And>x f. x \<in> set ?W \<Longrightarrow> f \<noteq> Counter \<Longrightarrow> tget m' x f = tget ?m x f"
      using E waiting first_max_in [of _ ?W t] by (simp_all, force+)
    have "tget m' u f = tget ?m u f" if u: "u \<in> set ?ts" "u \<noteq> 0" "f \<noteq> Counter" for u f
    proof (cases "u \<in> set ?W")
      case False
      have "\<forall>w \<in> set ?W. apart u 373 w 373" using tasks_apart_in [OF ap(1) u(1)] u False by auto
      then show ?thesis using tget_frames(1) [OF W(1)] by blast
    qed (use W(4) u in blast)
    then show ?thesis using task_inv_write [OF inv _ W(1)] W(2,3) by auto
  next
    case none
    then show ?thesis using E inv by simp
  qed
qed

lemma filter_clear:
  assumes "i < length ts" "ts ! i = t" "t \<noteq> 0"
  shows "\<exists>us vs. filter (\<lambda>t. t \<noteq> 0) ts = us @ t # vs \<and> filter (\<lambda>t. t \<noteq> 0) (ts[i := 0]) = us @ vs"
  using assms by (subst (1) id_take_nth_drop [of i ts]) (auto simp: upd_conv_take_nth_drop)

lemma tget_tail: "load m' (t + of_nat 4) (bsize task_class - 4) = load m (t + of_nat 4) (bsize task_class - 4) \<Longrightarrow>
    tget m' t Pid = tget m t Pid"
  using rd64_part [of m' "t + of_nat 4" "bsize task_class - 4" m 244] by (simp add: tget_def task_class_size add.assoc)

lemma set_state_word: "rd32 (set_state m t st) (t + 4) = rd32 m (t + 4)"
proof -
  have "load (set_state m t st) (t + of_nat 4) 4 = load m (t + of_nat 4) 4"
    unfolding set_state_store by (intro task_store) simp_all
  then show ?thesis by (simp add: rd32_def)
qed

lemma task_clean_ok:
  assumes inv: "task_inv s A" and i: "i < TASK_MAX_NUMS" "g_tasks s ! i = t" "t \<noteq> 0"
    and word: "rd32 (kmem (kh s)) (t + 4) = 0" "rd32 (kmem (kh s)) (tget (kmem (kh s)) t Stack + 4) = 0"
    and bl: "task_blocks (kmem (kh s)) t = [(t, task_class), st, us]"
  shows "\<exists>s'. task_clean s t = Some s' \<and> g_tasks s' = (g_tasks s)[i := 0] \<and> task_inv s' (A - {(t, task_class), st}) \<and>
    us \<in> A - {(t, task_class), st} - set (tasks_blocks (kmem (kh s')) (g_tasks s'))"
proof -
  let ?m = "kmem (kh s)" and ?ts = "g_tasks s" and ?g = "(g_tasks s)[i := 0]"
  define m1 where "m1 = set_state ?m t TASK_DIED"
  have len: "i < length ?ts" using inv i by (simp add: task_inv_def)
  have tin: "t \<in> set ?ts" using i len nth_mem by fastforce
  obtain vs ws where f: "filter (\<lambda>t. t \<noteq> 0) ?ts = vs @ t # ws" "filter (\<lambda>t. t \<noteq> 0) ?g = vs @ ws"
    using filter_clear [OF len i(2,3)] by blast
  have dist: "distinct (tasks_blocks ?m ?ts)" and sub: "set (tasks_blocks ?m ?ts) \<subseteq> A" and heap: "heap_inv (kh s) A"
    and lock: "task_lock s = 0" using inv by (simp_all add: task_inv_def)
  have rest: "distinct (tasks_blocks ?m ?g)" "set (tasks_blocks ?m ?g) \<subseteq> A - {(t, task_class), st, us}"
    "(t, task_class) \<noteq> st" "us \<noteq> st" "us \<noteq> (t, task_class)" "{(t, task_class), st, us} \<subseteq> A"
    using dist sub unfolding tasks_blocks_def f by (auto simp: bl)
  have inA: "(t, task_class) \<in> A" using rest(6) by simp
  have st: "st = (tget ?m t Stack, len_class (ucast (tget ?m t Stack_length)))" using bl by (simp add: task_blocks_def)
  have "frames ?m m1 [(t, 373)]" by (simp add: m1_def frames_set_state)
  note W = write_same(1,2) [OF heap inA this, unfolded task_class_size, simplified]
  let ?A2 = "A - {st}"
  have z1: "rd32 m1 (tget ?m t Stack + 4) = 0"
    using same_blocks_word [OF W(2) _ heap, of "tget ?m t Stack" "snd st"] rest(3,6) word(2) by (auto simp: st)
  obtain h2 where h2: "kfree_s ((kh s)\<lparr>kmem := m1\<rparr>) (tget ?m t Stack) (ucast (tget ?m t Stack_length)) = Some h2"
    "heap_inv h2 ?A2" "same_blocks ?A2 m1 (kmem h2)"
    using kfree_same [OF W(1), of "tget ?m t Stack" "ucast (tget ?m t Stack_length)"] rest(6) z1 by (auto simp: st)
  have inA2: "(t, len_class sizeof_task) \<in> ?A2" using inA rest(3) by (simp add: task_class_size)
  have "rd32 (kmem h2) (t + 4) = 0"
    using same_blocks_task(4) [OF h2(3) inA2 [unfolded task_class_size]] word(1) by (simp add: m1_def set_state_word)
  from kfree_same [OF h2(2) inA2 this] obtain h3 where h3: "kfree_s h2 t sizeof_task = Some h3" "heap_inv h3 (?A2 - {(t, task_class)})"
    "same_blocks (?A2 - {(t, task_class)}) (kmem h2) (kmem h3)"
    "load (kmem h3) (t + of_nat 4) (bsize task_class - 4) = load (kmem h2) (t + of_nat 4) (bsize task_class - 4)"
    unfolding task_class_size by blast
  let ?A3 = "A - {(t, task_class), st}"
  have A3: "?A2 - {(t, task_class)} = ?A3" by blast
  have "tget (kmem h3) t Pid = of_nat i"
    using tget_tail [OF h3(4)] same_blocks_task(1) [OF h2(3) inA2 [unfolded task_class_size], of Pid] inv i
    by (auto simp: m1_def task_inv_def)
  moreover have "unat (of_nat i :: u64) = i" using i(1) by (intro unat_of_nat_less) (simp add: TASK_MAX_NUMS_def)
  ultimately have clean: "task_clean s t = Some (s\<lparr>kh := h3, g_tasks := ?g, task_lock := 0\<rparr>)"
    using h2(1) h3(1) lock i(1) by (simp add: task_clean_def spin_lock_def spin_unlock_def m1_def [symmetric] Let_def)
      (simp add: m1_def Let_def spin_unlock_def)
  have same: "same_blocks ?A3 ?m (kmem h3)"
    by (rule same_blocks_trans [OF same_blocks_trans [OF same_blocks_mono [OF W(2)] same_blocks_mono [OF h2(3)]]
          h3(3) [unfolded A3]]) blast+
  have tb: "tasks_blocks (kmem h3) ?g = tasks_blocks ?m ?g"
    using tasks_blocks_same [OF same, of ?g] rest(2) by blast
  have "tget (kmem h3) (?g ! j) Pid = of_nat j" if j: "j < TASK_MAX_NUMS" "?g ! j \<noteq> 0" for j
  proof -
    have "j \<noteq> i" using j(2) len by auto
    moreover have "j < length ?g" using j(1) inv by (simp add: task_inv_def)
    ultimately have g: "?g ! j = ?ts ! j" "?g ! j \<in> set ?g" using nth_mem [of j ?g] by simp_all
    have "(?g ! j, task_class) \<in> ?A3" using task_in_blocks [OF g(2) j(2), of ?m] rest(2) by blast
    then show ?thesis using same_blocks_task(1) [OF same] g inv j by (auto simp: task_inv_def)
  qed
  then have "task_inv (s\<lparr>kh := h3, g_tasks := ?g, task_lock := 0\<rparr>) ?A3"
    using h3(2) rest(1,2) inv unfolding A3 by (auto simp: task_inv_def tb)
  then show ?thesis using clean rest tb by (intro exI conjI) auto
qed

section \<open>A demonstration state\<close>

lemma not_owned_below:
  assumes "pm_invar (m, pm)" "pm_layout pm" "unat (bm_bits (pm_map pm)) + unat (bm_length (pm_map pm)) \<le> unat x"
    "unat x < unat (pm_start pm)"
  shows "\<not> heap_owned pm x"
proof -
  have "4096 \<le> unat (x - p)" if "p \<in> pm_pages (\<lambda>_. 0, pm)" for p
  proof -
    have "p \<in> pm_pages (m, pm)" using that pm_pages_mem by blast
    from page_aligned [OF assms(1,2) this] have p: "unat p + 4096 \<le> 2 ^ 32" "unat x < unat p" using assms(4) by auto
    then have "unat (x - p) = unat x + 2 ^ 64 - unat p" by (simp add: unat_sub_if' )
    then show ?thesis using p by simp
  qed
  moreover have "unat (bm_length (pm_map pm)) \<le> unat (x - bm_bits (pm_map pm))"
    using assms(3) by (simp add: unat_sub word_le_nat_alt)
  ultimately show ?thesis by (fastforce simp: heap_owned_def pm_range_def not_less [symmetric])
qed

definition no_tasks :: task_ctx_t where
  "no_tasks = \<lparr>kh = demo_heap, g_tasks = replicate TASK_MAX_NUMS 0, task_lock = 0\<rparr>"

lemma no_tasks_inv: "task_inv no_tasks {}"
  using demo_heap_inv(1) by (simp add: task_inv_def no_tasks_def tasks_blocks_def)

lemma no_tasks_name: "\<not> heap_owned (kpm (kh no_tasks)) 0x1000" "cstr (kmem (kh no_tasks)) 0x1000 []"
  using not_owned_below [OF demo_pm_invar demo_layout, of "0x1000"]
  by (simp_all add: no_tasks_def demo_heap_def demo_pm_def bitmap_make_def)

text \<open>Two READY tasks of priorities 3 and 5.\<close>

definition two_tasks :: mem where
  "two_tasks = (\<lambda>_. 0)(0x1158 := 3, 0x1160 := 2, 0x2158 := 5, 0x2160 := 2)"

lemma two_tasks_facts:
  "tasks_apart [0x1000, 0, 0x2000]" "in_state two_tasks TASK_READY [0x1000, 0, 0x2000] = [0x1000, 0x2000]"
  "tget two_tasks 0x1000 Priority = 3" "tget two_tasks 0x2000 Priority = 5"
proof -
  show "tasks_apart [0x1000, 0, 0x2000]"
    by (simp add: tasks_apart_Cons apart_def) (simp add: tasks_apart_def)
qed (simp_all add: two_tasks_def get_state_def tget_def rd32_def rd64_def load_def upt_rec)

text \<open>One task, in a bucket of eight blocks of 512 bytes; its stacks are the next two blocks.\<close>

definition one_task :: task_ctx_t where
  "one_task = \<lparr>kh = demo_heap\<lparr>
     kmem := (\<lambda>_. 0)(0x500 := 3, 0x300001 := 0x10, 0x300002 := 0x30, 0x300018 := 8, 0x30001D := 2,
       0x301131 := 0x12, 0x301132 := 0x30, 0x301139 := 2, 0x301141 := 0x14, 0x301142 := 0x30, 0x301149 := 2),
     bucket_dir := g_bucket_dir[5 := (512, 0x300000)]\<rparr>,
     g_tasks = (replicate TASK_MAX_NUMS 0)[0 := 0x301000], task_lock = 0\<rparr>"

lemma task_class_5: "task_class = 5" "len_class 512 = 5"
  by (simp_all add: task_class_def len_class_def sizeof_task_def g_bucket_dir_def)

lemma one_task_heap: "heap_inv (kh one_task) (set (blocks 0x301000 (bsize 5)) \<times> {5})"
proof (rule full_bucket_ok(2))
  show "kpm (kh one_task) = demo_pm" "free_bucket_chain (kh one_task) = 0" "heap_lock (kh one_task) = 0"
    "bucket_dir (kh one_task) = g_bucket_dir[5 := (of_nat (bsize 5), 0x300000)]" "desc_next (kmem (kh one_task)) 0x300000 = 0"
    "bucket_ok (kmem (kh one_task)) (bsize 5) (0x300000, 0x301000, [])"
    by (simp_all add: one_task_def demo_heap_def bsize_def bucket_ok_def rd64_def rd32_def load_def upt_rec)
  have "bitv (kmem (kh one_task)) (pm_map demo_pm) 0" "bitv (kmem (kh one_task)) (pm_map demo_pm) 1"
    by (simp_all add: bitv_def one_task_def demo_pm_def bitmap_make_def bit_1_iff)
  moreover have "0 < bm_nbits (pm_map demo_pm)" "1 < bm_nbits (pm_map demo_pm)"
    by (simp_all add: demo_pm_def bitmap_make_def bm_nbits_def)
  ultimately have "page_addr demo_pm 0 \<in> pm_used (kmem (kh one_task), demo_pm)"
    "page_addr demo_pm 1 \<in> pm_used (kmem (kh one_task), demo_pm)"
    unfolding pm_used_def fst_conv snd_conv by blast+
  then show "{0x300000, 0x301000} \<subseteq> pm_used (kmem (kh one_task), demo_pm)" by (simp add: page_addr_def demo_pm_def)
qed simp

lemma one_task_fields:
  "tget (kmem (kh one_task)) 0x301000 Pid = 0" "tget (kmem (kh one_task)) 0x301000 Stack = 0x301200"
  "tget (kmem (kh one_task)) 0x301000 Stack_length = 512" "tget (kmem (kh one_task)) 0x301000 User_stack = 0x301400"
  "tget (kmem (kh one_task)) 0x301000 User_stack_length = 512" "rd32 (kmem (kh one_task)) 0x301004 = 0"
  "rd32 (kmem (kh one_task)) 0x301204 = 0"
  by (simp_all add: one_task_def tget_def rd32_def rd64_def load_def upt_rec)

lemma one_task_blocks: "task_blocks (kmem (kh one_task)) 0x301000 = [(0x301000, task_class), (0x301200, 5), (0x301400, 5)]"
  by (simp add: task_blocks_def one_task_fields task_class_5)

lemma one_task_inv: "task_inv one_task (set (blocks 0x301000 (bsize 5)) \<times> {5})"
proof -
  have g: "g_tasks one_task = 0x301000 # replicate 99 0" "task_lock one_task = 0"
    by (simp_all add: one_task_def TASK_MAX_NUMS_def eval_nat_numeral)
  have "tasks_blocks (kmem (kh one_task)) (g_tasks one_task) = [(0x301000, 5), (0x301200, 5), (0x301400, 5)]"
    by (simp add: tasks_blocks_def g one_task_blocks task_class_5)
  moreover have "{0x301000, 0x301200, 0x301400} \<subseteq> set (blocks 0x301000 (bsize 5))"
    by (simp add: blocks_def block_def bsize_def upt_rec)
  moreover have "g_tasks one_task ! i \<noteq> 0 \<longrightarrow> tget (kmem (kh one_task)) (g_tasks one_task ! i) Pid = of_nat i"
    if "i < TASK_MAX_NUMS" for i
    using that by (cases i) (simp_all add: g TASK_MAX_NUMS_def one_task_fields)
  ultimately show ?thesis using one_task_heap g(2) by (auto simp: task_inv_def) (simp add: g TASK_MAX_NUMS_def)
qed

section \<open>Properties\<close>

text \<open>C1. ktask_create with a free slot in the table and a stack of 8 to 4096 bytes: it returns
  the null pointer and nothing stays allocated and the table is as before, or it
  returns a task, with two stacks of its own, that stands in the first free slot,
  is READY and has the fields of a first run at the top of its stacks. The
  contents of every other allocated block, the other tasks included, are kept.\<close>

theorem ktask_create_correct:
  assumes inv: "task_inv s A" and ready: "heap_ready 3 (kh s)" and size: "8 \<le> unat stack_size" "unat stack_size \<le> 4096"
    and slot: "0 \<in> set (g_tasks s)" and name: "cstr (kmem (kh s)) name str" "length str < 64"
    and out: "\<And>i. i \<le> length str \<Longrightarrow> \<not> heap_owned (kpm (kh s)) (name + of_nat i)"
  shows "\<exists>s' t. ktask_create s name function stack_size priority = Some (s', t) \<and>
    same_blocks A (kmem (kh s)) (kmem (kh s')) \<and>
    (if t = 0 then task_inv s' A \<and> g_tasks s' = g_tasks s
     else \<exists>i B. i < TASK_MAX_NUMS \<and> g_tasks s ! i = 0 \<and> (\<forall>j < i. g_tasks s ! j \<noteq> 0) \<and>
       g_tasks s' = (g_tasks s)[i := t] \<and> B = set (task_blocks (kmem (kh s')) t) \<and> A \<inter> B = {} \<and>
       task_inv s' (A \<union> B) \<and> created (kmem (kh s')) t str function stack_size priority)"
proof -
  have heap: "heap_inv (kh s) A" and len: "length (g_tasks s) = TASK_MAX_NUMS" using inv by (simp_all add: task_inv_def)
  obtain h t where C: "create_blocks (kh s) stack_size = Some (h, t)" "same_blocks A (kmem (kh s)) (kmem h)"
    and r: "if t = 0 then heap_inv h A
     else kpm h = kpm (kh s) \<and> (\<forall>x. \<not> heap_owned (kpm (kh s)) x \<longrightarrow> kmem h x = kmem (kh s) x) \<and> t \<notin> fst ` A \<and>
       (\<exists>st us. st \<notin> fst ` insert (t, task_class) A \<and> us \<notin> fst ` insert (st, len_class stack_size) (insert (t, task_class) A) \<and>
         heap_inv h (insert (us, len_class stack_size) (insert (st, len_class stack_size) (insert (t, task_class) A))) \<and>
         tget (kmem h) t Stack = st \<and> tget (kmem h) t User_stack = us \<and>
         tget (kmem h) t Stack_length = ucast stack_size \<and> tget (kmem h) t User_stack_length = ucast stack_size)"
    using create_blocks_ok [OF heap ready size refl] by blast
  show ?thesis
  proof (cases "t = 0")
    case True
    then have "ktask_create s name function stack_size priority = Some (s\<lparr>kh := h\<rparr>, 0)"
      using C(1) by (simp add: ktask_create_blocks)
    then show ?thesis using task_inv_heap [OF inv C(2), of A] r C(2) True by simp
  next
    case t: False
    obtain i where i: "i < TASK_MAX_NUMS" "g_tasks s ! i = 0" "\<forall>j < i. g_tasks s ! j \<noteq> 0"
      and idx: "(scast (get_free_task_index s) :: u64) = of_nat i"
      using free_task_index_ok [OF slot, of 0] scast_index len
      by (auto simp: get_free_task_index_def TASK_MAX_NUMS_def)
    have "load (kmem h) name (Suc (length str)) = load (kmem (kh s)) name (Suc (length str))"
      using r t out by (intro load_cong) simp
    then have name': "cstr (kmem h) name str" using name(1) by (simp add: cstr_load)
    have out': "\<And>i. i \<le> length str \<Longrightarrow> \<not> heap_owned (kpm h) (name + of_nat i)" using out r t by simp
    obtain st us where b: "st \<notin> fst ` insert (t, task_class) A" "us \<notin> fst ` insert (st, len_class stack_size) (insert (t, task_class) A)"
      "heap_inv h (insert (us, len_class stack_size) (insert (st, len_class stack_size) (insert (t, task_class) A)))"
      "tget (kmem h) t Stack = st" "tget (kmem h) t User_stack = us"
      "tget (kmem h) t Stack_length = ucast stack_size" "tget (kmem h) t User_stack_length = ucast stack_size"
      and tA: "t \<notin> fst ` A" using r t by auto
    obtain m where m: "fill_task (kmem h) t (of_nat i) name function stack_size priority = Some m"
      "add_task (s\<lparr>kh := h\<lparr>kmem := m\<rparr>\<rparr>) t = Some (s\<lparr>kh := h\<lparr>kmem := m\<rparr>, g_tasks := (g_tasks s)[i := t], task_lock := 0\<rparr>)"
      "same_blocks A (kmem (kh s)) m" "A \<inter> set (task_blocks m t) = {}"
      "task_inv (s\<lparr>kh := h\<lparr>kmem := m\<rparr>, g_tasks := (g_tasks s)[i := t], task_lock := 0\<rparr>) (A \<union> set (task_blocks m t))"
      "created m t str function stack_size priority"
      using create_finish [OF inv i(1,2) b(3) t tA b(1,2) C(2) refl b(4-7) name' name(2) out', of "function" priority]
      unfolding Let_def by blast
    have "ktask_create s name function stack_size priority =
        Some (s\<lparr>kh := h\<lparr>kmem := m\<rparr>, g_tasks := (g_tasks s)[i := t], task_lock := 0\<rparr>, t)"
      using C(1) t m(1,2) idx by (simp add: ktask_create_blocks)
    then show ?thesis using m(3-6) i t by (simp, intro exI [of _ i], simp)
  qed
qed

theorem ktask_create_correct_witness:
  "\<exists>s' t. ktask_create no_tasks 0x1000 0x200000 4096 3 = Some (s', t) \<and> (t \<noteq> 0 \<longrightarrow> g_tasks s' ! 0 = t)"
proof -
  have r: "heap_ready 3 (kh no_tasks)" using demo_heap_inv(2) [of 3] by (simp add: no_tasks_def)
  have g: "g_tasks no_tasks = replicate TASK_MAX_NUMS 0" "0 < TASK_MAX_NUMS" by (simp_all add: no_tasks_def TASK_MAX_NUMS_def)
  have "\<exists>s' t. ktask_create no_tasks 0x1000 0x200000 4096 3 = Some (s', t) \<and>
      (if t = 0 then task_inv s' {} \<and> g_tasks s' = g_tasks no_tasks
       else \<exists>i. (\<forall>j < i. g_tasks no_tasks ! j \<noteq> 0) \<and> g_tasks s' = (g_tasks no_tasks)[i := t] \<and> i < TASK_MAX_NUMS)"
    using ktask_create_correct [OF no_tasks_inv r, of 4096 "0x1000" "[]" "0x200000" 3] no_tasks_name g by (simp, metis)
  then show ?thesis
    using g by (elim exE conjE) (auto split: if_splits, metis gr_zeroI length_replicate nth_list_update_eq)
qed

text \<open>C2. get_next_ready_task: among the READY tasks the first of the greatest priority is
  chosen and becomes RUNNING, nothing else changes. If none is READY but some are
  WAITING, all of these get their priority as the new time slice and become READY,
  and the first of the greatest priority becomes RUNNING; nothing is written outside
  them. Otherwise there is no task and nothing changes.\<close>

theorem get_next_ready_task_correct:
  assumes "tasks_apart ts" "ts \<noteq> []" "get_next_ready_task m ts = (m', t)"
  shows "if in_state m TASK_READY ts \<noteq> [] then
      first_max (\<lambda>t. tget m t Priority) (in_state m TASK_READY ts) t \<and> m' = set_state m t TASK_RUNNING
    else if in_state m TASK_WAITING ts \<noteq> [] then
      first_max (\<lambda>t. tget m t Priority) (in_state m TASK_WAITING ts) t \<and>
      frames m m' (map (\<lambda>t. (t, 373)) (in_state m TASK_WAITING ts)) \<and>
      (\<forall>x \<in> set (in_state m TASK_WAITING ts).
        tget m' x Counter = tget m x Priority \<and> (\<forall>f. f \<noteq> Counter \<longrightarrow> tget m' x f = tget m x f) \<and>
        get_state m' x = state_code (if x = t then TASK_RUNNING else TASK_READY))
    else t = 0 \<and> m' = m"
  using get_next_ready_task_eq [OF assms] .

theorem get_next_ready_task_correct_witness: "snd (get_next_ready_task two_tasks [0x1000, 0, 0x2000]) = 0x2000"
proof -
  obtain m' t where g: "get_next_ready_task two_tasks [0x1000, 0, 0x2000] = (m', t)" by fastforce
  have "first_max (\<lambda>t. tget two_tasks t Priority) [0x1000, 0x2000] t"
    using get_next_ready_task_correct [OF two_tasks_facts(1) _ g] unfolding two_tasks_facts(2) by simp
  then have "t = 0x2000"
    using two_tasks_facts(3,4) by (auto simp: first_max_def Cons_eq_append_conv)
  then show ?thesis using g by simp
qed

text \<open>C4. get_next_ready_task writes only inside live tasks: the allocator stays able to
  serve the same requests, no block changes hands, every task stays at its pid with
  its own stacks, and the task returned is one of the table and RUNNING.\<close>

theorem scheduler_keeps_invariant:
  assumes "task_inv s A" "get_next_ready_task (kmem (kh s)) (g_tasks s) = (m', t)"
  shows "task_inv (s\<lparr>kh := (kh s)\<lparr>kmem := m'\<rparr>\<rparr>) A \<and> heap_ready n ((kh s)\<lparr>kmem := m'\<rparr>) = heap_ready n (kh s) \<and>
    (t \<noteq> 0 \<longrightarrow> t \<in> set (g_tasks s) \<and> get_state m' t = state_code TASK_RUNNING)"
  using get_next_ready_task_inv [OF assms] .

theorem scheduler_keeps_invariant_witness:
  "\<exists>m' t. get_next_ready_task (kmem (kh no_tasks)) (g_tasks no_tasks) = (m', t) \<and>
     task_inv (no_tasks\<lparr>kh := (kh no_tasks)\<lparr>kmem := m'\<rparr>\<rparr>) {}"
proof -
  obtain m' t where "get_next_ready_task (kmem (kh no_tasks)) (g_tasks no_tasks) = (m', t)" by fastforce
  then show ?thesis using scheduler_keeps_invariant [OF no_tasks_inv] by blast
qed

text \<open>C3. task_clean of a task of the table returns, with the lock released, the slot
  free and the task and its kernel stack returned to the allocator, although it reads
  the pid from the freed task; the user stack stays allocated and belongs to no task.\<close>

theorem task_clean_correct:
  assumes "task_inv s A" "i < TASK_MAX_NUMS" "g_tasks s ! i = t" "t \<noteq> 0"
    "rd32 (kmem (kh s)) (t + 4) = 0" "rd32 (kmem (kh s)) (tget (kmem (kh s)) t Stack + 4) = 0"
    "task_blocks (kmem (kh s)) t = [(t, task_class), st, us]"
  shows "\<exists>s'. task_clean s t = Some s' \<and> g_tasks s' = (g_tasks s)[i := 0] \<and> task_inv s' (A - {(t, task_class), st}) \<and>
    us \<in> A - {(t, task_class), st} - set (tasks_blocks (kmem (kh s')) (g_tasks s'))"
  using task_clean_ok [OF assms] .

theorem task_clean_correct_witness: "\<exists>s'. task_clean one_task 0x301000 = Some s' \<and> g_tasks s' = replicate TASK_MAX_NUMS 0"
proof -
  have g: "0 < TASK_MAX_NUMS" "g_tasks one_task ! 0 = 0x301000" "(g_tasks one_task)[0 := 0] = replicate TASK_MAX_NUMS 0"
    by (simp_all add: one_task_def TASK_MAX_NUMS_def eval_nat_numeral)
  have w: "rd32 (kmem (kh one_task)) (0x301000 + 4) = 0"
    "rd32 (kmem (kh one_task)) (tget (kmem (kh one_task)) 0x301000 Stack + 4) = 0"
    using one_task_fields by simp_all
  show ?thesis using task_clean_correct [OF one_task_inv g(1,2) _ w one_task_blocks] unfolding g(3) by auto
qed

end
