(* ===== verification/Vsprintf.thy ===== *)
theory Vsprintf
  imports CString "HOL-Library.Monad_Syntax"
begin

text \<open>
  The formatter of the two kernels (x64_kenerl/libs/vsprintf.c, the same text in
  x86_kernel/kernel/vsprintf.c) over byte memory. What differs is the pointer
  width and va_arg (libs/stdarg.h and x86_kernel/include/lib/stdarg.h), which are
  parameters of the shared definitions: \<open>va_here\<close> is the address of the argument
  va_arg reads, \<open>va_next\<close> the argument pointer afterwards and \<open>rd_ptr\<close> reads a
  char pointer. An unsigned long argument is converted to the int parameter of
  number: its low four bytes are read. The int variables are mathematical
  integers (their overflow is undefined in C). \<open>None\<close> is a format or a string
  without a terminator.
\<close>

section \<open>Definitions\<close>

definition is_digit :: "u8 \<Rightarrow> bool" where
  "is_digit c \<longleftrightarrow> sint c \<ge> 48 \<and> sint c \<le> 57"

partial_function (option) skip_atoi :: "'a::len cmem \<Rightarrow> 'a word \<Rightarrow> int \<Rightarrow> ('a word \<times> int) option" where
  "skip_atoi m s i = (if is_digit (m s) then skip_atoi m (s + 1) (i * 10 + sint (m s) - 48) else Some (s, i))"

definition ZEROPAD :: u32 where "ZEROPAD = 1"
definition SIGN :: u32 where "SIGN = 2"
definition PLUS :: u32 where "PLUS = 4"
definition SPACE :: u32 where "SPACE = 8"
definition LEFT :: u32 where "LEFT = 16"
definition SPECIAL :: u32 where "SPECIAL = 32"
definition SMALL :: u32 where "SMALL = 64"

abbreviation has :: "u32 \<Rightarrow> u32 \<Rightarrow> bool" where "has type flag \<equiv> type AND flag \<noteq> 0"

definition upper_digits :: "u8 list" where
  "upper_digits = map of_nat ([48..<58] @ [65..<91])"

definition lower_digits :: "u8 list" where
  "lower_digits = map of_nat ([48..<58] @ [97..<123])"

text \<open>The digits, least significant first: do_div is the unsigned division of 32 bits.\<close>

fun digit_loop :: "u8 list \<Rightarrow> nat \<Rightarrow> nat \<Rightarrow> u8 list" where
  "digit_loop digits num base =
     (if num = 0 \<or> base < 2 then [] else digits ! (num mod base) # digit_loop digits (num div base) base)"

declare digit_loop.simps [simp del]

text \<open>
  The second half of number: the fill on the left, the sign, the prefix, the fill
  of a right-justified field, the zeros of the precision, the digits, the fill on
  the right. After a loop \<open>while (field-- > 0)\<close> the width is negative.
\<close>

definition layout :: "int \<Rightarrow> int \<Rightarrow> u32 \<Rightarrow> u8 \<Rightarrow> u8 list \<Rightarrow> u8 list \<Rightarrow> u8 list \<Rightarrow> u8 list" where
  "layout field precision type c signs prefix tmp =
     (let i = int (length tmp);
          precision = (if i > precision then i else precision);
          field = field - precision;
          (pad1, field) =
            (if \<not> has type (ZEROPAD + LEFT) then (replicate (nat field) 32, min field 0 - 1) else ([], field));
          (pad2, field) =
            (if \<not> has type LEFT then (replicate (nat field) c, min field 0 - 1) else ([], field));
          zeros = replicate (nat (precision - i)) 48;
          pad3 = replicate (nat field) 32
      in pad1 @ signs @ prefix @ pad2 @ zeros @ rev tmp @ pad3)"

definition number :: "u32 \<Rightarrow> u32 \<Rightarrow> int \<Rightarrow> int \<Rightarrow> u32 \<Rightarrow> u8 list option" where
  "number num base field precision type =
     (let digits = (if has type SMALL then lower_digits else upper_digits);
          type = (if has type LEFT then type AND NOT ZEROPAD else type)
      in if sint base < 2 \<or> sint base > 36 then None
         else
           (let c = (if has type ZEROPAD then 48 else 32);
                (sign, num) =
                  (if has type SIGN \<and> sint num < 0 then (45, - num)
                   else (if has type PLUS then 43 else if has type SPACE then 32 else 0, num));
                field = (if sign \<noteq> 0 then field - 1 else field);
                field = (if has type SPECIAL then if base = 16 then field - 2 else if base = 8 then field - 1 else field
                         else field);
                tmp = (if num = 0 then [48] else digit_loop digits (unat num) (unat base));
                signs = (if sign \<noteq> 0 then [sign] else []);
                prefix =
                  (if has type SPECIAL then if base = 8 then [48] else if base = 16 then [48, digits ! 33] else []
                   else [])
            in Some (layout field precision type c signs prefix tmp)))"

text \<open>Writing at \<open>str\<close>, with \<open>*str++ = c\<close> for each byte.\<close>

definition emit :: "'a::len cmem \<Rightarrow> 'a word \<Rightarrow> u8 list \<Rightarrow> 'a cmem \<times> 'a word" where
  "emit m str bs = (store m str bs, str + of_nat (length bs))"

record 'p va =
  va_here :: "'p \<Rightarrow> 'p"
  va_next :: "'p \<Rightarrow> 'p"
  rd_ptr :: "('p \<Rightarrow> u8) \<Rightarrow> 'p \<Rightarrow> 'p"

text \<open>The flags: \<open>fmt\<close> is at the per cent sign or at the last flag.\<close>

partial_function (option) scan_flags :: "'a::len cmem \<Rightarrow> 'a word \<Rightarrow> u32 \<Rightarrow> ('a word \<times> u32) option" where
  "scan_flags m fmt flags =
     (let fmt = fmt + 1
      in if m fmt = 45 then scan_flags m fmt (flags OR LEFT)
         else if m fmt = 43 then scan_flags m fmt (flags OR PLUS)
         else if m fmt = 32 then scan_flags m fmt (flags OR SPACE)
         else if m fmt = 35 then scan_flags m fmt (flags OR SPECIAL)
         else if m fmt = 48 then scan_flags m fmt (flags OR ZEROPAD)
         else Some (fmt, flags))"

text \<open>The field width. After \<open>*\<close> the source does not step over the star.\<close>

definition scan_width ::
    "'a::len word va \<Rightarrow> 'a cmem \<Rightarrow> 'a word \<Rightarrow> 'a word \<Rightarrow> u32 \<Rightarrow> ('a word \<times> 'a word \<times> u32 \<times> int) option" where
  "scan_width va m fmt args flags =
     (if is_digit (m fmt) then do { (fmt, w) \<leftarrow> skip_atoi m fmt 0; Some (fmt, args, flags, w) }
      else if m fmt = 42 then
        (let w = sint (rd32 m (va_here va args))
         in Some (fmt, va_next va args, if w < 0 then flags OR LEFT else flags, \<bar>w\<bar>))
      else Some (fmt, args, flags, - 1))"

definition scan_precision ::
    "'a::len word va \<Rightarrow> 'a cmem \<Rightarrow> 'a word \<Rightarrow> 'a word \<Rightarrow> ('a word \<times> 'a word \<times> int) option" where
  "scan_precision va m fmt args =
     (if m fmt = 46 then
        (let fmt = fmt + 1
         in if is_digit (m fmt) then do { (fmt, p) \<leftarrow> skip_atoi m fmt 0; Some (fmt, args, max p 0) }
            else if m fmt = 42 then Some (fmt, va_next va args, max (sint (rd32 m (va_here va args))) 0)
            else Some (fmt, args, 0))
      else Some (fmt, args, - 1))"

definition skip_qualifier :: "'a::len cmem \<Rightarrow> 'a word \<Rightarrow> 'a word" where
  "skip_qualifier m fmt = (if m fmt = 104 \<or> m fmt = 108 \<or> m fmt = 76 then fmt + 1 else fmt)"

text \<open>The conversion of one integer argument; the base is never out of range here.\<close>

definition put_number ::
    "'a::len word va \<Rightarrow> 'a cmem \<Rightarrow> 'a word \<Rightarrow> 'a word \<Rightarrow> u32 \<Rightarrow> int \<Rightarrow> int \<Rightarrow> u32 \<Rightarrow>
       ('a cmem \<times> 'a word \<times> 'a word) option" where
  "put_number va m str args base width precision flags = do {
     bs \<leftarrow> number (rd32 m (va_here va args)) base width precision flags;
     let (m, str) = emit m str bs;
     Some (m, str, va_next va args)
   }"

text \<open>The switch on the conversion character: memory, output, format and argument pointers.\<close>

definition convert ::
    "'a::len word va \<Rightarrow> 'a cmem \<Rightarrow> 'a word \<Rightarrow> 'a word \<Rightarrow> 'a word \<Rightarrow> 'a word \<Rightarrow> u32 \<Rightarrow> int \<Rightarrow> int \<Rightarrow>
       ('a cmem \<times> 'a word \<times> 'a word \<times> 'a word) option" where
  "convert va m buf str fmt args flags width precision =
     (let ch = m fmt;
          num = (\<lambda>base width flags. do {
            (m, str, args) \<leftarrow> put_number va m str args base width precision flags;
            Some (m, str, fmt, args) })
      in if ch = 99 then
           (let (pad, width) =
                  (if \<not> has flags LEFT then (replicate (nat (width - 1)) 32, min width 1 - 1) else ([], width));
                c = ucast (rd32 m (va_here va args));
                (m, str) = emit m str (pad @ [c] @ replicate (nat (width - 1)) 32)
            in Some (m, str, fmt, va_next va args))
         else if ch = 115 then do {
           let s = rd_ptr va m (va_here va args);
           n \<leftarrow> strlen m s;
           let len = (if precision < 0 then sint n else min (sint n) precision);
           let (pad, width) =
             (if \<not> has flags LEFT then (replicate (nat (width - len)) 32, min width len - 1) else ([], width));
           let (m, str) = emit m str pad;
           let m = memcpy_loop m str s (nat len);
           let (m, str) = emit m (str + of_nat (nat len)) (replicate (nat (width - len)) 32);
           Some (m, str, fmt, va_next va args) }
         else if ch = 111 then num 8 width flags
         else if ch = 112 then (if width = - 1 then num 16 8 (flags OR ZEROPAD) else num 16 width flags)
         else if ch = 120 then num 16 width (flags OR SMALL)
         else if ch = 88 then num 16 width flags
         else if ch = 100 \<or> ch = 105 then num 10 width (flags OR SIGN)
         else if ch = 117 then num 10 width flags
         else if ch = 110 then
           Some (wr32 m (rd_ptr va m (va_here va args)) (ucast (str - buf)), str, fmt, va_next va args)
         else
           (let (m, str) = (if ch \<noteq> 37 then emit m str [37] else (m, str))
            in if m fmt \<noteq> 0 then (let (m, str) = emit m str [m fmt] in Some (m, str, fmt, args))
               else Some (m, str, fmt - 1, args)))"

definition directive ::
    "'a::len word va \<Rightarrow> 'a cmem \<Rightarrow> 'a word \<Rightarrow> 'a word \<Rightarrow> 'a word \<Rightarrow> 'a word \<Rightarrow>
       ('a cmem \<times> 'a word \<times> 'a word \<times> 'a word) option" where
  "directive va m buf str fmt args = do {
     (fmt, flags) \<leftarrow> scan_flags m fmt 0;
     (fmt, args, flags, width) \<leftarrow> scan_width va m fmt args flags;
     (fmt, args, precision) \<leftarrow> scan_precision va m fmt args;
     convert va m buf str (skip_qualifier m fmt) args flags width precision
   }"

partial_function (option) vsprintf_loop ::
    "'a::len word va \<Rightarrow> 'a cmem \<Rightarrow> 'a word \<Rightarrow> 'a word \<Rightarrow> 'a word \<Rightarrow> 'a word \<Rightarrow> ('a cmem \<times> 'a word) option" where
  "vsprintf_loop va m buf str fmt args =
     (if m fmt = 0 then Some (m(str := 0), str)
      else if m fmt \<noteq> 37 then vsprintf_loop va (m(str := m fmt)) buf (str + 1) (fmt + 1) args
      else Option.bind (directive va m buf str fmt args)
        (\<lambda>(m, str, fmt, args). vsprintf_loop va m buf str (fmt + 1) args))"

definition vsprintf_gen :: "'a::len word va \<Rightarrow> 'a cmem \<Rightarrow> 'a word \<Rightarrow> 'a word \<Rightarrow> 'a word \<Rightarrow> ('a cmem \<times> u32) option" where
  "vsprintf_gen va m buf fmt args = do {
     (m, str) \<leftarrow> vsprintf_loop va m buf buf fmt args;
     Some (m, ucast (str - buf))
   }"

text \<open>
  64 bits: \<open>(pArg += sizeof(va_list)) - sizeof(va_list)\<close>, so each argument takes eight
  bytes. 32 bits: \<open>p += DELIVER_TYPE_SIZE(sizeof(t)) - sizeof(va_list)\<close>, which is
  \<open>p += 0\<close> for the types of four bytes.
\<close>

definition va64 :: "u64 va" where
  "va64 = \<lparr>va_here = (\<lambda>p. p), va_next = (\<lambda>p. p + 8), rd_ptr = rd64\<rparr>"

definition DELIVER_TYPE_SIZE :: "u32 \<Rightarrow> u32" where
  "DELIVER_TYPE_SIZE s = (if s < 4 then 4 else s)"

definition va32 :: "u32 va" where
  "va32 = \<lparr>va_here = (\<lambda>p. p + (DELIVER_TYPE_SIZE 4 - 4)), va_next = (\<lambda>p. p + (DELIVER_TYPE_SIZE 4 - 4)), rd_ptr = rd32\<rparr>"

definition vsprintf :: "mem \<Rightarrow> u64 \<Rightarrow> u64 \<Rightarrow> u64 \<Rightarrow> (mem \<times> u32) option" where
  "vsprintf m buf fmt args = vsprintf_gen va64 m buf fmt args"

definition x86_vsprintf :: "mem32 \<Rightarrow> u32 \<Rightarrow> u32 \<Rightarrow> u32 \<Rightarrow> (mem32 \<times> u32) option" where
  "x86_vsprintf m buf fmt args = vsprintf_gen va32 m buf fmt args"

text \<open>The helpers of the 32-bit kernel's vsprintf.c.\<close>

definition x86_skip_atoi :: "mem32 \<Rightarrow> u32 \<Rightarrow> int \<Rightarrow> (u32 \<times> int) option" where "x86_skip_atoi = skip_atoi"
definition x86_number :: "u32 \<Rightarrow> u32 \<Rightarrow> int \<Rightarrow> int \<Rightarrow> u32 \<Rightarrow> u8 list option" where "x86_number = number"

text \<open>va_num (x64_kenerl/kernel/printk.c): the number of per cent signs.\<close>

partial_function (option) va_num_loop :: "'a::len cmem \<Rightarrow> 'a word \<Rightarrow> u32 \<Rightarrow> u32 option" where
  "va_num_loop m p num =
     (if m p \<noteq> 0 then va_num_loop m (p + 1) (if m p = 37 then num + 1 else num) else Some num)"

definition va_num :: "mem \<Rightarrow> u64 \<Rightarrow> u32 option" where
  "va_num m format = va_num_loop m format 0"

end
