(* ===== verification/VsprintfProps.thy ===== *)
theory VsprintfProps
  imports Vsprintf
begin

text \<open>
  The digits printed by number read back to the number, and the formats made of
  literal characters and plain integer conversions; the 32-bit va_arg gives every
  conversion the first argument.
\<close>

section \<open>Digits\<close>

definition digit_val :: "u8 \<Rightarrow> nat" where
  "digit_val c = (if unat c < 58 then unat c - 48 else if unat c < 91 then unat c - 55 else unat c - 87)"

definition parse_digits :: "nat \<Rightarrow> u8 list \<Rightarrow> nat" where
  "parse_digits b ds = foldl (\<lambda>v c. v * b + digit_val c) 0 ds"

lemma parse_snoc: "parse_digits b (ds @ [c]) = parse_digits b ds * b + digit_val c"
  by (simp add: parse_digits_def)

definition digit_table :: "u8 list \<Rightarrow> bool" where
  "digit_table digits \<longleftrightarrow> (\<forall>d < 36. digit_val (digits ! d) = d)"

lemma digit_tables: "digit_table upper_digits" "digit_table lower_digits"
proof -
  have "\<forall>d \<in> set [0..<36]. digit_val (upper_digits ! d) = d" "\<forall>d \<in> set [0..<36]. digit_val (lower_digits ! d) = d"
    by code_simp+
  then show "digit_table upper_digits" "digit_table lower_digits" by (auto simp: digit_table_def)
qed

lemma parse_digit_loop:
  assumes "digit_table digits" "b \<le> 36" "2 \<le> b"
  shows "parse_digits b (rev (digit_loop digits n b)) = n"
proof (induction n rule: less_induct)
  case (less n)
  show ?case
  proof (cases "n = 0")
    case True
    then show ?thesis by (subst digit_loop.simps) (simp add: parse_digits_def)
  next
    case False
    have "digit_val (digits ! (n mod b)) = n mod b"
      using assms by (simp add: digit_table_def order_less_le_trans [OF mod_less_divisor])
    moreover have "n div b < n" using False assms by simp
    ultimately show ?thesis using less.IH [of "n div b"] False assms
      by (subst digit_loop.simps) (simp add: parse_snoc)
  qed
qed

definition magnitude :: "u32 \<Rightarrow> u32 \<Rightarrow> nat" where
  "magnitude num type = unat (if has type SIGN \<and> sint num < 0 then - num else num)"

lemma has_clear [simp]: "(type AND NOT ZEROPAD) AND SIGN = type AND SIGN" "(type AND NOT ZEROPAD) AND PLUS = type AND PLUS"
  "(type AND NOT ZEROPAD) AND SPACE = type AND SPACE" "(type AND NOT ZEROPAD) AND SPECIAL = type AND SPECIAL"
  "(type AND NOT ZEROPAD) AND LEFT = type AND LEFT" "(type AND NOT ZEROPAD) AND SMALL = type AND SMALL"
  "(type AND NOT ZEROPAD) AND ZEROPAD = 0"
  by (simp_all add: SIGN_def PLUS_def SPACE_def SPECIAL_def LEFT_def ZEROPAD_def SMALL_def and.assoc)

lemma has_either: "has type (ZEROPAD + LEFT) \<longleftrightarrow> has type ZEROPAD \<or> has type LEFT"
proof -
  have "ZEROPAD + LEFT = ZEROPAD OR LEFT" by (simp add: ZEROPAD_def LEFT_def)
  then show ?thesis by (simp add: bit.conj_disj_distrib or_eq_0_iff)
qed

text \<open>The text of number: the fill, the sign, the prefix, the zeros and the digits.\<close>

definition sign_text :: "u32 \<Rightarrow> u32 \<Rightarrow> u8 list" where
  "sign_text num type =
     (if has type SIGN \<and> sint num < 0 then [45] else if has type PLUS then [43] else if has type SPACE then [32] else [])"

definition prefix_text :: "u32 \<Rightarrow> u32 \<Rightarrow> u8 list" where
  "prefix_text base type =
     (if has type SPECIAL then if base = 8 then [48]
        else if base = 16 then [48, if has type SMALL then 120 else 88] else [] else [])"

definition digits_text :: "u32 \<Rightarrow> u32 \<Rightarrow> u32 \<Rightarrow> u8 list" where
  "digits_text num base type =
     (let n = magnitude num type
      in if n = 0 then [48] else rev (digit_loop (if has type SMALL then lower_digits else upper_digits) n (unat base)))"

lemma digits_33: "upper_digits ! 33 = 88" "lower_digits ! 33 = 120"
  by (simp_all add: upper_digits_def lower_digits_def)

lemma parse_digits_text:
  assumes "2 \<le> unat base" "unat base \<le> 36"
  shows "parse_digits (unat base) (digits_text num base type) = magnitude num type"
proof -
  have "parse_digits (unat base) (rev (digit_loop (if has type SMALL then lower_digits else upper_digits) n (unat base))) = n" for n
    using digit_tables assms by (intro parse_digit_loop) auto
  then show ?thesis by (simp add: digits_text_def Let_def parse_digits_def digit_val_def)
qed

lemma layout_text:
  fixes tmp :: "u8 list" and precision :: int
  assumes c: "c = (if has type ZEROPAD then 48 else 32)" and nz: "has type LEFT \<Longrightarrow> \<not> has type ZEROPAD"
  defines "p \<equiv> max precision (int (length tmp))"
  shows "\<exists>a b c'. layout field precision type c signs prefix tmp =
      replicate a 32 @ signs @ prefix @ replicate b 48 @ rev tmp @ replicate c' 32 \<and>
    a + b + c' = nat (field - p) + (nat p - length tmp) \<and>
    (has type LEFT \<longrightarrow> a = 0) \<and> (\<not> has type LEFT \<longrightarrow> c' = 0)"
proof -
  have p: "(if int (length tmp) > precision then int (length tmp) else precision) = p"
    "nat (p - int (length tmp)) = nat p - length tmp" by (auto simp: p_def)
  consider (left) "has type LEFT" "\<not> has type ZEROPAD" | (zero) "\<not> has type LEFT" "has type ZEROPAD"
    | (space) "\<not> has type LEFT" "\<not> has type ZEROPAD" using nz by blast
  then show ?thesis
  proof cases
    case left
    have "layout field precision type c signs prefix tmp =
        replicate 0 32 @ signs @ prefix @ replicate (nat p - length tmp) 48 @ rev tmp @ replicate (nat (field - p)) 32"
      using left has_either [of type] unfolding layout_def Let_def p by simp
    then show ?thesis using left(1) by (intro exI conjI) (assumption | simp)+
  next
    case zero
    have "layout field precision type c signs prefix tmp =
        replicate 0 32 @ signs @ prefix @ replicate (nat (field - p) + (nat p - length tmp)) 48 @ rev tmp @ replicate 0 32"
      using zero has_either [of type] unfolding layout_def Let_def p by (simp add: c replicate_add)
    then show ?thesis using zero(1) by (intro exI conjI) (assumption | simp)+
  next
    case space
    have "layout field precision type c signs prefix tmp =
        replicate (nat (field - p)) 32 @ signs @ prefix @ replicate (nat p - length tmp) 48 @ rev tmp @ replicate 0 32"
      using space has_either [of type] unfolding layout_def Let_def p by simp
    then show ?thesis using space(1) by (intro exI conjI) (assumption | simp)+
  qed
qed

lemma number_layout:
  fixes type :: u32
  assumes "2 \<le> sint base" "sint base \<le> 36"
  defines "type' \<equiv> if has type LEFT then type AND NOT ZEROPAD else type"
  shows "number num base field precision type = Some (layout
      (field - int (length (sign_text num type)) - int (length (prefix_text base type))) precision type'
      (if has type' ZEROPAD then 48 else 32) (sign_text num type) (prefix_text base type) (rev (digits_text num base type)))"
proof -
  have t: "type' AND SIGN = type AND SIGN" "type' AND PLUS = type AND PLUS" "type' AND SPACE = type AND SPACE"
    "type' AND SPECIAL = type AND SPECIAL" by (simp_all add: type'_def)
  show ?thesis
    unfolding number_def Let_def type'_def [symmetric] t
    using assms(1,2) by (simp add: digits_33 sign_text_def prefix_text_def digits_text_def magnitude_def unat_eq_0)
qed

text \<open>Writing the output: the memory is \<open>m\<close> with \<open>out\<close> stored at \<open>buf\<close>.\<close>

datatype piece = Lit u8 | Conv u8

primrec piece_text :: "piece \<Rightarrow> u8 list" where
  "piece_text (Lit c) = [c]"
| "piece_text (Conv c) = [37, c]"

definition piece_ok :: "piece \<Rightarrow> bool" where
  "piece_ok x \<longleftrightarrow> (case x of Lit c \<Rightarrow> c \<noteq> 0 \<and> c \<noteq> 37 | Conv c \<Rightarrow> c \<in> {100, 105, 117, 120, 88, 111})"

text \<open>What a plain conversion prints for an argument.\<close>

definition conv_text :: "u8 \<Rightarrow> u32 \<Rightarrow> u8 list" where
  "conv_text c v =
     (if c = 100 \<or> c = 105 then sign_text v SIGN @ digits_text v 10 SIGN
      else if c = 117 then digits_text v 10 0
      else if c = 120 then digits_text v 16 SMALL
      else if c = 88 then digits_text v 16 0
      else digits_text v 8 0)"

fun render :: "'a::len word va \<Rightarrow> 'a cmem \<Rightarrow> 'a word \<Rightarrow> piece list \<Rightarrow> u8 list" where
  "render va m args [] = []"
| "render va m args (Lit c # ps) = c # render va m args ps"
| "render va m args (Conv c # ps) = conv_text c (rd32 m (va_here va args)) @ render va m (va_next va args) ps"

lemma sint_nonneg: "0 \<le> sint (x :: u32) \<Longrightarrow> sint x < 2 ^ 32 \<Longrightarrow> unat x = nat (sint x)"
  by (simp add: unat_eq_nat_uint uint_sint take_bit_int_eq_self)

lemma plain_number:
  assumes "2 \<le> sint base" "sint base \<le> 36" "type = 0 \<or> type = SIGN \<or> type = SMALL"
  shows "number num base (- 1) (- 1) type = Some (sign_text num type @ digits_text num base type)"
proof -
  have f: "\<not> has type LEFT" "\<not> has type SPECIAL" "\<not> has type ZEROPAD"
    using assms(3) by (auto simp: LEFT_def SPECIAL_def ZEROPAD_def SIGN_def SMALL_def)
  have "digits_text num base type \<noteq> []"
    by (subst digits_text_def, subst digit_loop.simps) (use assms sint_nonneg [of base] in \<open>auto simp: Let_def\<close>)
  then show ?thesis
    using f has_either [of type] unfolding number_layout [OF assms(1,2)]
    by (simp add: layout_def prefix_text_def Let_def)
qed

lemma scan_plain:
  assumes "m (fmt + 1) = c" "c \<in> {100, 105, 117, 120, 88, 111}" "m fmt = 37"
  shows "directive va m buf str fmt args = do {
    bs \<leftarrow> Some (conv_text c (rd32 m (va_here va args)));
    let (m, str) = emit m str bs;
    Some (m, str, fmt + 1, va_next va args) }"
proof -
  have "scan_flags m fmt 0 = Some (fmt + 1, 0)" using assms by (subst scan_flags.simps) (auto simp: Let_def)
  moreover have "\<not> is_digit c" using assms(2) by (auto simp: is_digit_def)
  ultimately have d: "directive va m buf str fmt args = convert va m buf str (fmt + 1) args 0 (- 1) (- 1)"
    using assms(1,2) by (auto simp: directive_def scan_width_def scan_precision_def skip_qualifier_def)
  have n: "number v 10 (- 1) (- 1) SIGN = Some (sign_text v SIGN @ digits_text v 10 SIGN)"
    "number v 10 (- 1) (- 1) 0 = Some (digits_text v 10 0)" "number v 16 (- 1) (- 1) 0 = Some (digits_text v 16 0)"
    "number v 8 (- 1) (- 1) 0 = Some (digits_text v 8 0)" "number v 16 (- 1) (- 1) SMALL = Some (digits_text v 16 SMALL)" for v
    by (subst plain_number; simp add: sign_text_def SMALL_def SIGN_def PLUS_def SPACE_def)+
  show ?thesis unfolding d
    using assms(2) by (auto simp: convert_def put_number_def n assms(1) conv_text_def emit_def Let_def)
qed

text \<open>An address that the output does not reach.\<close>

lemma store_keep: "length bs \<le> n \<Longrightarrow> n \<le> unat (x - buf) \<Longrightarrow> store m buf bs x = m x"
  by (simp add: store_apply_out)

lemma store_snoc:
  fixes m :: "'a::len cmem"
  assumes "length bs + length cs \<le> 2 ^ LENGTH('a)"
  shows "emit (store m buf bs) (buf + of_nat (length bs)) cs =
     (store m buf (bs @ cs), buf + of_nat (length (bs @ cs)))"
  using assms by (simp add: emit_def store_append add.assoc)

lemma fun_upd_emit: "m(a := c) = fst (emit m a [c])" for m :: "'a::len cmem"
  using store_Cons [of "[]" m a c] by (simp add: emit_def)

fun arg_addrs :: "'a::len word va \<Rightarrow> 'a word \<Rightarrow> piece list \<Rightarrow> 'a word list" where
  "arg_addrs va args [] = []"
| "arg_addrs va args (Lit c # ps) = arg_addrs va args ps"
| "arg_addrs va args (Conv c # ps) = va_here va args # arg_addrs va (va_next va args) ps"

lemma loop_pieces:
  fixes m :: "'a::len cmem"
  assumes "cstr m fmt (concat (map piece_text ps))" "\<forall>x \<in> set ps. piece_ok x"
    "length out + length (render va m args ps) < n" "n \<le> 2 ^ LENGTH('a)"
    "\<And>i. i \<le> length (concat (map piece_text ps)) \<Longrightarrow> n \<le> unat (fmt + of_nat i - buf)"
    "\<And>a i. a \<in> set (arg_addrs va args ps) \<Longrightarrow> i < 4 \<Longrightarrow> n \<le> unat (a + of_nat i - buf)"
  shows "vsprintf_loop va (store m buf out) buf (buf + of_nat (length out)) fmt args =
    Some (store m buf (out @ render va m args ps @ [0]), buf + of_nat (length (out @ render va m args ps)))"
  using assms
proof (induction ps arbitrary: fmt args out)
  case Nil
  have "store m buf out fmt = 0" using Nil.prems(1,3) Nil.prems(5) [of 0] by (simp add: store_apply_out)
  moreover have "(store m buf out)(buf + of_nat (length out) := 0) = store m buf (out @ [0])"
    unfolding fun_upd_emit using Nil.prems(3,4) by (subst store_snoc) auto
  ultimately show ?case by (subst vsprintf_loop.simps) simp
next
  case (Cons x ps)
  let ?m = "store m buf out" and ?str = "buf + of_nat (length out)"
  have keep: "?m (fmt + of_nat i) = m (fmt + of_nat i)" if "i \<le> length (concat (map piece_text (x # ps)))" for i
    using Cons.prems(3) Cons.prems(5) [OF that] by (intro store_keep) auto
  show ?case
  proof (cases x)
    case (Lit c)
    have c: "m fmt = c" "c \<noteq> 0" "c \<noteq> 37" "cstr m (fmt + 1) (concat (map piece_text ps))"
      using Cons.prems(1,2) Lit by (auto simp: piece_ok_def)
    have u1: "?m(?str := c) = store m buf (out @ [c])"
      unfolding fun_upd_emit using Cons.prems(3,4) Lit by (subst store_snoc) simp_all
    have u: "?m(?str := c) = store m buf (out @ [c])" "?str + 1 = buf + of_nat (length (out @ [c]))"
      using u1 by (simp_all add: ac_simps)
    have "vsprintf_loop va (store m buf (out @ [c])) buf (buf + of_nat (length (out @ [c]))) (fmt + 1) args =
        Some (store m buf ((out @ [c]) @ render va m args ps @ [0]), buf + of_nat (length ((out @ [c]) @ render va m args ps)))"
    proof (rule Cons.IH [OF c(4)])
      show "i \<le> length (concat (map piece_text ps)) \<Longrightarrow> n \<le> unat (fmt + 1 + of_nat i - buf)" for i
        using Cons.prems(5) [of "Suc i"] Lit by (simp add: ac_simps)
    qed (use Cons.prems Lit in auto)
    moreover have "vsprintf_loop va ?m buf ?str fmt args =
        vsprintf_loop va (store m buf (out @ [c])) buf (buf + of_nat (length (out @ [c]))) (fmt + 1) args"
      using keep [of 0] c u1 u(2) by (subst vsprintf_loop.simps) (simp add: ac_simps)
    ultimately show ?thesis using Lit by simp
  next
    case (Conv c)
    have c: "m fmt = 37" "m (fmt + 1) = c" "c \<in> {100, 105, 117, 120, 88, 111}"
      "cstr m (fmt + 2) (concat (map piece_text ps))"
      using Cons.prems(1,2) Conv by (auto simp: piece_ok_def add.assoc)
    let ?v = "rd32 m (va_here va args)" and ?args = "va_next va args"
    have "load ?m (va_here va args) 4 = load m (va_here va args) 4"
    proof (intro load_cong store_keep [where n = n])
      show "length out \<le> n" using Cons.prems(3) by simp
      show "i < 4 \<Longrightarrow> n \<le> unat (va_here va args + of_nat i - buf)" for i using Cons.prems(6) Conv by simp
    qed
    then have v: "rd32 ?m (va_here va args) = ?v" by (simp add: rd32_def)
    let ?out = "out @ conv_text c ?v"
    have "vsprintf_loop va (store m buf ?out) buf (buf + of_nat (length ?out)) (fmt + 2) ?args =
        Some (store m buf (?out @ render va m ?args ps @ [0]), buf + of_nat (length (?out @ render va m ?args ps)))"
    proof (rule Cons.IH [OF c(4)])
      show "i \<le> length (concat (map piece_text ps)) \<Longrightarrow> n \<le> unat (fmt + 2 + of_nat i - buf)" for i
        using Cons.prems(5) [of "Suc (Suc i)"] Conv by (simp add: ac_simps)
    qed (use Cons.prems Conv in auto)
    moreover have "vsprintf_loop va ?m buf ?str fmt args =
        vsprintf_loop va (store m buf ?out) buf (buf + of_nat (length ?out)) (fmt + 2) ?args"
      using keep [of 0] keep [of 1] c Conv Cons.prems(3,4) v
      by (subst vsprintf_loop.simps, subst scan_plain [where c = c]) (auto simp: store_snoc add.assoc)
    ultimately show ?thesis using Conv by simp
  qed
qed

lemma ucast_of_nat_u32: "ucast (of_nat n :: u64) = (of_nat n :: u32)"
  by (simp add: unsigned_of_nat word_of_nat_eq_iff take_bit_take_bit)

lemma fill_length:
  "(t :: nat) = nat (f - int s - int p - max pr (int l)) + (nat (max pr (int l)) - l) \<Longrightarrow>
     t + (s + p) + l = max (nat f) (s + p + max (nat pr) l)"
  by (cases "pr \<le> int l") (auto simp: max_def)

text \<open>The format \<open>x=%d\<close> at 0x1000 with the argument 42 at 0x2000.\<close>

definition demo_format :: mem where
  "demo_format = (\<lambda>_. 0)(0x1000 := 120, 0x1001 := 61, 0x1002 := 37, 0x1003 := 100, 0x2000 := 42)"

lemma conv_text_42: "conv_text 100 42 = [52, 50]"
  by code_simp

lemma demo_rd: "rd32 demo_format 0x2000 = 42"
  by (simp add: demo_format_def rd32_def load_def upt_rec)

lemma upto_4: "i \<le> 4 \<Longrightarrow> i = 0 \<or> i = 1 \<or> i = 2 \<or> i = 3 \<or> i = (4 :: nat)"
  by linarith

section \<open>Properties\<close>

text \<open>C30. number with a base from 2 to 36 prints fill, sign, prefix, zeros and digits in this
  order; the digits read back, in that base, to the magnitude of the number, and the
  field is filled up to its width, on the left or, with the flag LEFT, on the right.\<close>

theorem number_roundtrip:
  assumes "2 \<le> sint base" "sint base \<le> 36"
  shows "\<exists>a b c. number num base field precision type =
      Some (replicate a 32 @ sign_text num type @ prefix_text base type @ replicate b 48 @
        digits_text num base type @ replicate c 32) \<and>
    parse_digits (unat base) (digits_text num base type) = magnitude num type \<and>
    a + length (sign_text num type @ prefix_text base type) + b + length (digits_text num base type) + c =
      max (nat field) (length (sign_text num type @ prefix_text base type) + max (nat precision) (length (digits_text num base type))) \<and>
    (has type LEFT \<longrightarrow> a = 0) \<and> (\<not> has type LEFT \<longrightarrow> c = 0)"
proof -
  let ?type = "if has type LEFT then type AND NOT ZEROPAD else type" and ?d = "digits_text num base type"
  let ?f = "field - int (length (sign_text num type)) - int (length (prefix_text base type))"
  have base: "2 \<le> unat base" "unat base \<le> 36" using assms sint_nonneg [of base] by simp_all
  have "\<exists>a b c'. layout ?f precision ?type (if has ?type ZEROPAD then 48 else 32) (sign_text num type)
      (prefix_text base type) (rev ?d) =
      replicate a 32 @ sign_text num type @ prefix_text base type @ replicate b 48 @ rev (rev ?d) @ replicate c' 32 \<and>
    a + b + c' = nat (?f - max precision (int (length (rev ?d)))) + (nat (max precision (int (length (rev ?d)))) - length (rev ?d)) \<and>
    (has ?type LEFT \<longrightarrow> a = 0) \<and> (\<not> has ?type LEFT \<longrightarrow> c' = 0)"
    by (rule layout_text) (auto split: if_splits)
  moreover have "has ?type LEFT = has type LEFT" by simp
  ultimately obtain a b c where
    l: "layout ?f precision ?type (if has ?type ZEROPAD then 48 else 32) (sign_text num type) (prefix_text base type) (rev ?d) =
      replicate a 32 @ sign_text num type @ prefix_text base type @ replicate b 48 @ ?d @ replicate c 32"
    and abc: "a + b + c = nat (?f - max precision (int (length ?d))) + (nat (max precision (int (length ?d))) - length ?d)"
    and lr: "has type LEFT \<longrightarrow> a = 0" "\<not> has type LEFT \<longrightarrow> c = 0" by (simp only: rev_rev_ident length_rev) blast
  have "a + length (sign_text num type @ prefix_text base type) + b + length ?d + c =
      max (nat field) (length (sign_text num type @ prefix_text base type) + max (nat precision) (length ?d))"
    using fill_length [OF abc] by (simp only: length_append ac_simps)
  then show ?thesis
    using number_layout [OF assms, of num field precision type, unfolded l] parse_digits_text [OF base, of num type] lr
    by (intro exI [of _ a] exI [of _ b] exI [of _ c] conjI) assumption+
qed

theorem number_roundtrip_witness: "\<exists>s. number 255 16 4 (- 1) ZEROPAD = Some s \<and> length s = 4"
proof -
  have d: "digits_text 255 16 ZEROPAD = [70, 70]" by code_simp
  have f: "sign_text 255 ZEROPAD = []" "prefix_text 16 ZEROPAD = []" by (code_simp, code_simp)
  show ?thesis using number_roundtrip [of 16 255 4 "- 1" ZEROPAD] unfolding d f by (auto simp: eval_nat_numeral)
qed

text \<open>C31. vsprintf on a format of literal characters and plain integer conversions (%d %i
  %u %x %X %o) that the output buffer does not overlap: it terminates, the buffer
  holds the characters and the printed arguments in order, with a terminator, and
  the result is their number.\<close>

theorem vsprintf_correct:
  fixes m :: mem
  assumes "cstr m fmt (concat (map piece_text ps))" "\<forall>x \<in> set ps. piece_ok x" "length (render va64 m args ps) < n" "n \<le> 2 ^ 64"
    "\<And>i. i \<le> length (concat (map piece_text ps)) \<Longrightarrow> n \<le> unat (fmt + of_nat i - buf)"
    "\<And>a i. a \<in> set (arg_addrs va64 args ps) \<Longrightarrow> i < 4 \<Longrightarrow> n \<le> unat (a + of_nat i - buf)"
  shows "\<exists>m'. vsprintf m buf fmt args = Some (m', of_nat (length (render va64 m args ps))) \<and>
    load m' buf (Suc (length (render va64 m args ps))) = render va64 m args ps @ [0] \<and> frames m m' [(buf, n)]"
proof -
  let ?out = "render va64 m args ps"
  have "vsprintf_loop va64 (store m buf []) buf (buf + of_nat (length ([] :: u8 list))) fmt args =
      Some (store m buf ([] @ ?out @ [0]), buf + of_nat (length ([] @ ?out)))"
    using assms by (intro loop_pieces [where n = n]) simp_all
  then have "vsprintf m buf fmt args = Some (store m buf (?out @ [0]), of_nat (length ?out))"
    by (simp add: vsprintf_def vsprintf_gen_def ucast_of_nat_u32)
  moreover have "load (store m buf (?out @ [0])) buf (Suc (length ?out)) = ?out @ [0]"
    using assms(3,4) by (intro load_store_same) simp_all
  moreover have "frames m (store m buf (?out @ [0])) [(buf, n)]"
    using frames_inside [of m "store m buf (?out @ [0])" buf 0 "Suc (length ?out)" n] frames_store [of m buf "?out @ [0]"] assms(3)
    by simp
  ultimately show ?thesis by blast
qed

theorem vsprintf_correct_witness: "\<exists>m'. vsprintf demo_format 0x3000 0x1000 0x2000 = Some (m', 4)"
proof -
  let ?ps = "[Lit 120, Lit 61, Conv 100]"
  have r: "render va64 demo_format 0x2000 ?ps = [120, 61, 52, 50]" "arg_addrs va64 0x2000 ?ps = [0x2000]"
    by (simp_all add: va64_def demo_rd conv_text_42)
  have c: "cstr demo_format 0x1000 (concat (map piece_text ?ps))" "\<forall>x \<in> set ?ps. piece_ok x"
    by (simp_all add: demo_format_def piece_ok_def)
  have f: "100 \<le> unat (0x1000 + of_nat i - 0x3000 :: u64)" if "i \<le> length (concat (map piece_text ?ps))" for i
    using upto_4 [of i] that by auto
  have a: "100 \<le> unat (a + of_nat i - 0x3000 :: u64)" if "a \<in> set (arg_addrs va64 0x2000 ?ps)" "i < 4" for a i
    using upto_4 [of i] that unfolding r by auto
  have "length (render va64 demo_format 0x2000 ?ps) < 100" "(100 :: nat) \<le> 2 ^ 64" unfolding r by simp_all
  from vsprintf_correct [OF c this f a] show ?thesis unfolding r by auto
qed

text \<open>In the 32-bit kernel va_arg does not advance: every plain conversion of a format
  prints the first argument.\<close>

lemma x86_vsprintf_first_argument:
  fixes m :: mem32
  assumes "cstr m fmt [37, c, 37, c]" "c \<in> {100, 105, 117, 120, 88, 111}" "n \<le> 2 ^ 32"
    "2 * length (conv_text c (rd32 m args)) < n" "\<And>i. i \<le> 4 \<Longrightarrow> n \<le> unat (fmt + of_nat i - buf)"
    "\<And>i. i < 4 \<Longrightarrow> n \<le> unat (args + of_nat i - buf)"
  shows "\<exists>m'. x86_vsprintf m buf fmt args = Some (m', of_nat (2 * length (conv_text c (rd32 m args)))) \<and>
    load m' buf (2 * length (conv_text c (rd32 m args))) = conv_text c (rd32 m args) @ conv_text c (rd32 m args)"
proof -
  let ?t = "conv_text c (rd32 m args)" and ?ps = "[Conv c, Conv c]"
  have r: "render va32 m args ?ps = ?t @ ?t" "arg_addrs va32 args ?ps = [args, args]"
    by (simp_all add: va32_def DELIVER_TYPE_SIZE_def)
  have "vsprintf_loop va32 (store m buf []) buf (buf + of_nat (length ([] :: u8 list))) fmt args =
      Some (store m buf ([] @ render va32 m args ?ps @ [0]), buf + of_nat (length ([] @ render va32 m args ?ps)))"
    unfolding r using assms by (intro loop_pieces [where n = n, of m fmt ?ps "[]" va32 args buf, unfolded r]) (auto simp: piece_ok_def)
  then have v: "x86_vsprintf m buf fmt args = Some (store m buf ((?t @ ?t) @ [0]), of_nat (length (?t @ ?t)))"
    unfolding r by (simp add: x86_vsprintf_def vsprintf_gen_def)
  have "load (store m buf ((?t @ ?t) @ [0])) buf (Suc (length (?t @ ?t))) = (?t @ ?t) @ [0]"
    using assms(3,4) by (intro load_store_same) simp_all
  then have "load (store m buf ((?t @ ?t) @ [0])) buf (length (?t @ ?t)) = ?t @ ?t"
    unfolding load_snoc by (rule append1_eq_conv [THEN iffD1, THEN conjunct1])
  moreover have "length (?t @ ?t) = 2 * length ?t" by simp
  ultimately show ?thesis using v by metis
qed

end
