(* ===== verification/Console.thy ===== *)
theory Console
  imports CString
begin

text \<open>
  The text consoles (x64_kenerl/driver/console.c and
  x86_kernel/kernel/chr_drv/console.c, the same text up to the pointer width) and
  the serial port (x64_kenerl/driver/serial.c). The state of a console is the
  memory with the video memory in it, the four static variables and the trace of
  the bytes written to I/O ports.
\<close>

section \<open>Definitions\<close>

definition CRT_ADDR_REG :: u32 where "CRT_ADDR_REG = 0x3D4"
definition CRT_DATA_REG :: u32 where "CRT_DATA_REG = 0x3D5"
definition CRT_START_ADDR_H :: u32 where "CRT_START_ADDR_H = 0xC"
definition CRT_START_ADDR_L :: u32 where "CRT_START_ADDR_L = 0xD"
definition CRT_CURSOR_H :: u32 where "CRT_CURSOR_H = 0xE"
definition CRT_CURSOR_L :: u32 where "CRT_CURSOR_L = 0xF"
definition MEM_BASE :: u32 where "MEM_BASE = 0xB8000"
definition MEM_SIZE :: u32 where "MEM_SIZE = 0x4000"
definition MEM_END :: u32 where "MEM_END = MEM_BASE + MEM_SIZE"
definition WIDTH :: u32 where "WIDTH = 80"
definition HEIGHT :: u32 where "HEIGHT = 25"
definition ROW_SIZE :: u32 where "ROW_SIZE = WIDTH * 2"
definition SCR_SIZE :: u32 where "SCR_SIZE = ROW_SIZE * HEIGHT"

lemmas console_consts = MEM_BASE_def MEM_SIZE_def MEM_END_def WIDTH_def HEIGHT_def ROW_SIZE_def SCR_SIZE_def

record 'p console =
  con_mem :: "'p \<Rightarrow> u8"
  screen :: u32
  cpos :: u32
  cx :: u32
  cy :: u32
  ports :: "(u32 \<times> u32) list"

definition outByte :: "u32 \<Rightarrow> u32 \<Rightarrow> 'p console \<Rightarrow> 'p console" where
  "outByte port v s = s\<lparr>ports := ports s @ [(port, v AND 0xff)]\<rparr>"

definition set_screen :: "'p console \<Rightarrow> 'p console" where
  "set_screen s =
     outByte CRT_DATA_REG (drop_bit 1 (screen s - MEM_BASE) AND 0xff) (outByte CRT_ADDR_REG CRT_START_ADDR_L
       (outByte CRT_DATA_REG (drop_bit 9 (screen s - MEM_BASE) AND 0xff) (outByte CRT_ADDR_REG CRT_START_ADDR_H s)))"

definition set_cursor :: "'p console \<Rightarrow> 'p console" where
  "set_cursor s =
     outByte CRT_DATA_REG (drop_bit 1 (cpos s - MEM_BASE) AND 0xff) (outByte CRT_ADDR_REG CRT_CURSOR_L
       (outByte CRT_DATA_REG (drop_bit 9 (cpos s - MEM_BASE) AND 0xff) (outByte CRT_ADDR_REG CRT_CURSOR_H s)))"

text \<open>\<open>n\<close> cells of two bytes, \<open>n\<close> words of four bytes.\<close>

fun fill16 :: "'a::len cmem \<Rightarrow> 'a word \<Rightarrow> u16 \<Rightarrow> nat \<Rightarrow> 'a cmem" where
  "fill16 m ptr v 0 = m"
| "fill16 m ptr v (Suc n) = fill16 (wr16 m ptr v) (ptr + 2) v n"

fun fill32 :: "'a::len cmem \<Rightarrow> 'a word \<Rightarrow> u32 \<Rightarrow> nat \<Rightarrow> 'a cmem" where
  "fill32 m ptr v 0 = m"
| "fill32 m ptr v (Suc n) = fill32 (wr32 m ptr v) (ptr + 4) v n"

definition console_clear :: "'a::len word console \<Rightarrow> 'a word console" where
  "console_clear s =
     (let s = set_screen (set_cursor (s\<lparr>screen := MEM_BASE, cpos := MEM_BASE, cx := 0, cy := 0\<rparr>))
      in s\<lparr>con_mem := fill16 (con_mem s) (ucast MEM_BASE) 0x0720 (unat ((MEM_END - MEM_BASE) div 2))\<rparr>)"

definition scroll_up :: "'a::len word console \<Rightarrow> 'a word console" where
  "scroll_up s =
     set_screen
       (if screen s + SCR_SIZE + ROW_SIZE < MEM_END
        then s\<lparr>con_mem := fill32 (con_mem s) (ucast (screen s + SCR_SIZE)) 0x0720 (unat WIDTH),
               screen := screen s + ROW_SIZE, cpos := cpos s + ROW_SIZE\<rparr>
        else s\<lparr>con_mem := memcpy (con_mem s) (ucast MEM_BASE) (ucast (screen s)) SCR_SIZE,
               cpos := cpos s - (screen s - MEM_BASE), screen := MEM_BASE\<rparr>)"

definition command_lf :: "'a::len word console \<Rightarrow> 'a word console" where
  "command_lf s = (if cy s + 1 < HEIGHT then s\<lparr>cy := cy s + 1, cpos := cpos s + ROW_SIZE\<rparr> else scroll_up s)"

definition command_cr :: "'a::len word console \<Rightarrow> 'a word console" where
  "command_cr s = s\<lparr>cpos := cpos s - push_bit 1 (cx s), cx := 0\<rparr>"

definition command_bs :: "'a::len word console \<Rightarrow> 'a word console" where
  "command_bs s =
     (if cx s \<noteq> 0
      then s\<lparr>cx := cx s - 1, cpos := cpos s - 2, con_mem := wr16 (con_mem s) (ucast (cpos s - 2)) 0x0720\<rparr>
      else s)"

definition command_del :: "'a::len word console \<Rightarrow> 'a word console" where
  "command_del s = s\<lparr>con_mem := wr16 (con_mem s) (ucast (cpos s)) 0x0720\<rparr>"

text \<open>One character; \<open>ptr\<close> is the local variable set once, before the loop, from pos.\<close>

definition put_char :: "'a::len word console \<Rightarrow> 'a word \<Rightarrow> u8 \<Rightarrow> 'a word console \<times> 'a word" where
  "put_char s ptr ch =
     (if ch = 0x00 \<or> ch = 0x07 \<or> ch = 0x09 \<or> ch = 0x0B then (s, ptr)
      else if ch = 0x08 then (command_bs s, ptr)
      else if ch = 0x0A then (command_cr (command_lf s), ptr)
      else if ch = 0x0C then (command_lf s, ptr)
      else if ch = 0x0D then (command_cr s, ptr)
      else if ch = 0x7F then (command_del s, ptr)
      else
        (let s = (if cx s \<ge> WIDTH then command_lf (s\<lparr>cx := cx s - WIDTH, cpos := cpos s - ROW_SIZE\<rparr>) else s);
             m = (con_mem s)(ptr := ch);
             m = m(ptr + 1 := 0x07)
         in (s\<lparr>con_mem := m, cpos := cpos s + 2, cx := cx s + 1\<rparr>, ptr + 2)))"

fun write_loop :: "'a::len word console \<Rightarrow> 'a word \<Rightarrow> 'a word \<Rightarrow> nat \<Rightarrow> 'a word console \<times> 'a word" where
  "write_loop s ptr buf 0 = (s, ptr)"
| "write_loop s ptr buf (Suc n) = (let (s', ptr') = put_char s ptr (con_mem s buf) in write_loop s' ptr' (buf + 1) n)"

definition console_write :: "'a::len word console \<Rightarrow> 'a word \<Rightarrow> u32 \<Rightarrow> 'a word console" where
  "console_write s buf count = set_cursor (fst (write_loop s (ucast (cpos s)) buf (unat count)))"

definition console_init :: "'a::len word console \<Rightarrow> 'a word console" where
  "console_init s = console_clear s"

text \<open>The 32-bit kernel's console is the instance at 32-bit pointers.\<close>

definition x86_set_screen :: "u32 console \<Rightarrow> u32 console" where "x86_set_screen = set_screen"
definition x86_set_cursor :: "u32 console \<Rightarrow> u32 console" where "x86_set_cursor = set_cursor"
definition x86_console_clear :: "u32 console \<Rightarrow> u32 console" where "x86_console_clear = console_clear"
definition x86_scroll_up :: "u32 console \<Rightarrow> u32 console" where "x86_scroll_up = scroll_up"
definition x86_command_lf :: "u32 console \<Rightarrow> u32 console" where "x86_command_lf = command_lf"
definition x86_command_cr :: "u32 console \<Rightarrow> u32 console" where "x86_command_cr = command_cr"
definition x86_command_bs :: "u32 console \<Rightarrow> u32 console" where "x86_command_bs = command_bs"
definition x86_command_del :: "u32 console \<Rightarrow> u32 console" where "x86_command_del = command_del"
definition x86_console_write :: "u32 console \<Rightarrow> u32 \<Rightarrow> u32 \<Rightarrow> u32 console" where "x86_console_write = console_write"
definition x86_console_init :: "u32 console \<Rightarrow> u32 console" where "x86_console_init = console_init"

section \<open>The cursor\<close>

text \<open>
  The screen starts at a row of the video memory and fits in it; the position of
  the cursor is given by its coordinates.
\<close>

definition cursor_ok :: "'p console \<Rightarrow> bool" where
  "cursor_ok s \<longleftrightarrow> (\<exists>r. screen s = MEM_BASE + of_nat r * ROW_SIZE \<and> r + 25 \<le> 102) \<and>
     cpos s = screen s + cy s * ROW_SIZE + cx s * 2 \<and> cx s \<le> WIDTH \<and> cy s < HEIGHT"

lemma cursor_ports [simp]:
  "cursor_ok (set_screen s) = cursor_ok s" "cursor_ok (set_cursor s) = cursor_ok s"
  by (simp_all add: cursor_ok_def set_screen_def set_cursor_def outByte_def)

lemma cursor_ok_clear: "cursor_ok (console_clear s)"
proof -
  have "cursor_ok (s\<lparr>screen := MEM_BASE, cpos := MEM_BASE, cx := 0, cy := 0, con_mem := m\<rparr>)" for m
    unfolding cursor_ok_def by (auto simp: console_consts intro: exI [of _ 0])
  then show ?thesis
    by (simp add: console_clear_def Let_def cursor_ok_def set_screen_def set_cursor_def outByte_def)
qed

lemmas cursor_defs = cursor_ok_def command_lf_def command_cr_def command_bs_def command_del_def scroll_up_def
  set_screen_def set_cursor_def outByte_def

lemma scroll_rows:
  fixes p :: u32
  assumes "p = MEM_BASE + of_nat r * ROW_SIZE" "r + 25 \<le> 102"
  shows "p + SCR_SIZE + ROW_SIZE < MEM_END \<longleftrightarrow> r < 77"
proof -
  have "unat (of_nat r * 160 :: u32) = r * 160"
    using assms unat_of_nat_less [of "r * 160", where 'a=32] by simp
  then have "unat (p + SCR_SIZE + ROW_SIZE) = 753664 + r * 160 + 4160"
    using assms by (simp add: console_consts unat_word_ariths)
  then show ?thesis by (simp add: word_less_nat_alt console_consts) linarith
qed

lemma cursor_ok_scroll_up: "cursor_ok s \<Longrightarrow> cursor_ok (scroll_up s)"
proof -
  assume s: "cursor_ok s"
  then obtain r where r: "screen s = MEM_BASE + of_nat r * ROW_SIZE" "r + 25 \<le> 102"
    by (auto simp: cursor_ok_def)
  show ?thesis
  proof (cases "r < 77")
    case True
    then have "screen s + ROW_SIZE = MEM_BASE + of_nat (Suc r) * ROW_SIZE" "Suc r + 25 \<le> 102"
      using r by (simp_all add: algebra_simps)
    then have "\<exists>r. screen s + ROW_SIZE = MEM_BASE + of_nat r * ROW_SIZE \<and> r + 25 \<le> 102" by blast
    then show ?thesis
      using s True scroll_rows [OF r] by (simp add: cursor_defs algebra_simps)
  next
    case False
    have "\<exists>r. MEM_BASE = MEM_BASE + of_nat r * ROW_SIZE \<and> r + 25 \<le> 102" by (rule exI [of _ 0]) simp
    then show ?thesis
      using s False scroll_rows [OF r] by (simp add: cursor_defs algebra_simps)
  qed
qed

lemma cursor_ok_lf: "cursor_ok s \<Longrightarrow> cursor_ok (command_lf s)"
proof -
  assume s: "cursor_ok s"
  show ?thesis
  proof (cases "cy s + 1 < HEIGHT")
    case True
    then show ?thesis using s by (simp add: cursor_ok_def command_lf_def algebra_simps)
  next
    case False
    then show ?thesis using cursor_ok_scroll_up [OF s] by (simp add: command_lf_def)
  qed
qed

lemma cursor_ok_cr: "cursor_ok s \<Longrightarrow> cursor_ok (command_cr s)"
  by (simp add: cursor_ok_def command_cr_def push_bit_eq_mult)

lemma cursor_ok_bs: "cursor_ok s \<Longrightarrow> cursor_ok (command_bs s)"
proof -
  assume s: "cursor_ok s"
  have "x - 1 \<le> WIDTH" if "x \<noteq> 0" "x \<le> WIDTH" for x
    using that by (simp add: word_le_nat_alt unat_minus_one)
  then show ?thesis
    using s by (simp add: cursor_ok_def command_bs_def algebra_simps)
qed

lemma cursor_ok_del: "cursor_ok s \<Longrightarrow> cursor_ok (command_del s)"
  by (simp add: cursor_ok_def command_del_def)

lemma lf_x [simp]: "cx (command_lf s) = cx s"
  by (simp add: command_lf_def scroll_up_def set_screen_def outByte_def)

lemma cursor_ok_printed:
  assumes "cursor_ok s" "cx s < WIDTH"
  shows "cursor_ok (s\<lparr>con_mem := m, cpos := cpos s + 2, cx := cx s + 1\<rparr>)"
proof -
  have "cx s + 1 \<le> WIDTH" using assms(2) by (simp add: inc_le)
  then show ?thesis using assms(1) by (simp add: cursor_ok_def algebra_simps)
qed

lemma cursor_ok_wrap:
  assumes "cursor_ok s" "cx s \<ge> WIDTH"
  shows "cursor_ok (s\<lparr>cx := cx s - WIDTH, cpos := cpos s - ROW_SIZE\<rparr>)" and "cx s - WIDTH = 0"
proof -
  show *: "cx s - WIDTH = 0" using assms by (auto simp: cursor_ok_def)
  then show "cursor_ok (s\<lparr>cx := cx s - WIDTH, cpos := cpos s - ROW_SIZE\<rparr>)"
    using assms by (simp add: cursor_ok_def console_consts algebra_simps)
qed

lemma cursor_ok_put_char: "cursor_ok s \<Longrightarrow> cursor_ok (fst (put_char s ptr ch))"
proof -
  assume s: "cursor_ok s"
  define s' where "s' = (if cx s \<ge> WIDTH then command_lf (s\<lparr>cx := cx s - WIDTH, cpos := cpos s - ROW_SIZE\<rparr>) else s)"
  have "cursor_ok s' \<and> cx s' < WIDTH"
    using s cursor_ok_wrap [OF s] unfolding s'_def by (auto intro: cursor_ok_lf simp: WIDTH_def)
  then have "cursor_ok (s'\<lparr>con_mem := m, cpos := cpos s' + 2, cx := cx s' + 1\<rparr>)" for m
    by (simp add: cursor_ok_printed)
  then show ?thesis
    using s by (auto simp: put_char_def Let_def s'_def [symmetric] intro: cursor_ok_lf cursor_ok_cr cursor_ok_bs cursor_ok_del)
qed

lemma cursor_ok_write_loop: "cursor_ok s \<Longrightarrow> cursor_ok (fst (write_loop s ptr buf n))"
proof (induction n arbitrary: s ptr buf)
  case (Suc n)
  then show ?case
    using cursor_ok_put_char [of s ptr "con_mem s buf"] by (auto simp: Let_def split: prod.split)
qed simp

text \<open>The number of the cell the cursor is on, counted from the start of the video memory.\<close>

definition cursor_cell :: "'p console \<Rightarrow> nat" where
  "cursor_cell s = 80 * (unat (screen s - MEM_BASE) div 160 + unat (cy s)) + unat (cx s)"

lemma cursor_cell:
  assumes "cursor_ok s"
  shows "unat (cpos s - MEM_BASE) = 2 * cursor_cell s" and "cursor_cell s \<le> 8160"
proof -
  obtain r where r: "screen s = MEM_BASE + of_nat r * ROW_SIZE" "r \<le> 77"
    and c: "cpos s = screen s + cy s * ROW_SIZE + cx s * 2" "cx s \<le> WIDTH" "cy s < HEIGHT"
    using assms by (auto simp: cursor_ok_def)
  have b: "unat (cx s) \<le> 80" "unat (cy s) \<le> 24"
    using c by (simp_all add: WIDTH_def HEIGHT_def word_le_nat_alt word_less_nat_alt)
  have row: "unat (screen s - MEM_BASE) = 160 * r"
    using r unat_of_nat_less [of r, where 'a=32] by (simp add: ROW_SIZE_def WIDTH_def unat_word_ariths)
  then have cell: "cursor_cell s = 80 * (r + unat (cy s)) + unat (cx s)" by (simp add: cursor_cell_def)
  then show "cursor_cell s \<le> 8160" using r b by simp
  have "cpos s - MEM_BASE = of_nat (160 * r + unat (cy s) * 160 + unat (cx s) * 2)"
    using c r by (simp add: ROW_SIZE_def WIDTH_def)
  moreover have "160 * r + unat (cy s) * 160 + unat (cx s) * 2 = 2 * cursor_cell s" using cell by simp
  ultimately show "unat (cpos s - MEM_BASE) = 2 * cursor_cell s"
    using \<open>cursor_cell s \<le> 8160\<close> unat_of_nat_less [of "2 * cursor_cell s", where 'a=32] by simp
qed

text \<open>The cursor's cell against the cells of the displayed screen.\<close>

lemma cursor_cell_screen:
  fixes s :: "'p console"
  defines "first \<equiv> unat (screen s - MEM_BASE) div 2"
  assumes "cursor_ok s"
  shows "first \<le> cursor_cell s \<and> (cursor_cell s < first + 2000 \<or> cursor_cell s = first + 2000 \<and> cx s = WIDTH \<and> cy s = HEIGHT - 1)"
proof -
  obtain r where r: "screen s = MEM_BASE + of_nat r * ROW_SIZE" "r \<le> 77" and c: "cx s \<le> WIDTH" "cy s < HEIGHT"
    using assms(2) by (auto simp: cursor_ok_def)
  have b: "unat (cx s) \<le> 80" "unat (cy s) \<le> 24"
    using c by (simp_all add: WIDTH_def HEIGHT_def word_le_nat_alt word_less_nat_alt)
  have row: "unat (screen s - MEM_BASE) = 160 * r"
    using r unat_of_nat_less [of r, where 'a=32] by (simp add: ROW_SIZE_def WIDTH_def unat_word_ariths)
  then have cell: "first = 80 * r" "cursor_cell s = 80 * (r + unat (cy s)) + unat (cx s)" by (simp_all add: cursor_cell_def first_def)
  show ?thesis
  proof (cases "unat (cy s) = 24 \<and> unat (cx s) = 80")
    case True
    then have "cx s = WIDTH" "cy s = HEIGHT - 1" by (simp_all add: WIDTH_def HEIGHT_def word_unat_eq_iff)
    then show ?thesis using True cell by simp
  next
    case False
    then have "80 * unat (cy s) + unat (cx s) < 2000" using b by presburger
    then show ?thesis using cell by simp
  qed
qed

lemma set_cursor_ports:
  assumes "unat (cpos s - MEM_BASE) = 2 * c" and "c < 65536"
  shows "ports (set_cursor s) = ports s @ [(CRT_ADDR_REG, CRT_CURSOR_H), (CRT_DATA_REG, of_nat (c div 256)),
    (CRT_ADDR_REG, CRT_CURSOR_L), (CRT_DATA_REG, of_nat (c mod 256))]"
proof -
  have d: "drop_bit k (cpos s - MEM_BASE) AND 0xff = (of_nat (2 * c div 2 ^ k mod 256) :: u32)" for k
    using assms unat_of_nat_less [of "2 * c div 2 ^ k mod 256", where 'a=32]
    by (simp add: word_unat_eq_iff unat_and_255 unat_drop_bit)
  have a: "(of_nat i :: u32) AND 0xff = of_nat i" if "i < 256" for i
    using that unat_of_nat_less [of i, where 'a=32] by (simp add: word_unat_eq_iff unat_and_255)
  show ?thesis
    using d [of 9] d [of 1] assms(2) a [of "c div 256"] a [of "c mod 256"]
    by (simp add: set_cursor_def outByte_def CRT_CURSOR_H_def CRT_CURSOR_L_def)
qed

subsection \<open>What the text becomes in the video memory\<close>

text \<open>The characters that are not commands, and the cells of a text.\<close>

definition printable :: "u8 \<Rightarrow> bool" where
  "printable ch \<longleftrightarrow> ch \<notin> {0x00, 0x07, 0x08, 0x09, 0x0A, 0x0B, 0x0C, 0x0D, 0x7F}"

definition cells :: "u8 list \<Rightarrow> u8 list" where
  "cells xs = concat (map (\<lambda>c. [c, 0x07]) xs)"

lemma cells_simps [simp]:
  "cells [] = []" "cells (c # xs) = c # 0x07 # cells xs" "cells (xs @ ys) = cells xs @ cells ys"
  "length (cells xs) = 2 * length xs"
  by (induction xs) (simp_all add: cells_def)

lemma write_loop_add:
  "write_loop s ptr buf (n + k) =
     (let (s', ptr') = write_loop s ptr buf n in write_loop s' ptr' (buf + of_nat n) k)"
  by (induction n arbitrary: s ptr buf) (auto simp: Let_def add.assoc split: prod.split)

lemma put_char_printable:
  assumes "printable ch" "cx s < WIDTH"
  shows "put_char s ptr ch =
    (s\<lparr>con_mem := (con_mem s)(ptr := ch, ptr + 1 := 0x07), cpos := cpos s + 2, cx := cx s + 1\<rparr>, ptr + 2)"
  using assms by (auto simp: put_char_def printable_def Let_def)

lemma put_char_lf: "put_char s ptr 0x0A = (command_cr (command_lf s), ptr)"
  by (simp add: put_char_def)

lemma write_loop_text:
  fixes ptr :: "'a::len word"
  assumes "load (con_mem s) buf (length xs) = xs" "apart buf (length xs) ptr (2 * length xs)"
    and "list_all printable xs" "unat (cx s) + length xs \<le> 80" "(320::nat) < 2 ^ LENGTH('a)"
  shows "write_loop s ptr buf (length xs) =
    (s\<lparr>con_mem := store (con_mem s) ptr (cells xs), cpos := cpos s + 2 * of_nat (length xs),
       cx := cx s + of_nat (length xs)\<rparr>, ptr + 2 * of_nat (length xs))"
  using assms(1-4)
proof (induction xs arbitrary: s ptr buf)
  case Nil
  then show ?case by simp
next
  case (Cons c xs)
  let ?s = "s\<lparr>con_mem := (con_mem s)(ptr := c, ptr + 1 := 0x07), cpos := cpos s + 2, cx := cx s + 1\<rparr>"
  have cx: "unat (cx s) < 80" "cx s < WIDTH" using Cons.prems by (simp_all add: WIDTH_def word_less_nat_alt)
  then have put: "put_char s ptr (con_mem s buf) = (?s, ptr + 2)"
    using Cons.prems by (simp add: put_char_printable load_Suc)
  have cx': "unat (cx s + 1) = Suc (unat (cx s))" using cx by (simp add: unat_word_ariths)
  have st: "store (con_mem s) ptr (cells (c # xs)) =
    store ((con_mem s)(ptr := c, ptr + 1 := 0x07)) (ptr + 2) (cells xs)"
    using Cons.prems(4) assms(5) by (simp add: store_Cons add.assoc)
  show ?case
  proof (cases xs)
    case Nil
    then show ?thesis using put st by (simp add: fun_upd_def)
  next
    case (Cons d ys)
    have "apart (buf + 1) (length xs) (ptr + 2) (2 * length xs)"
      using apart_within [OF Cons.prems(2), of 1 "length xs" 2 "2 * length xs"] Cons by simp
    moreover have "apart (buf + 1) (length xs) ptr 2"
      using apart_within [OF Cons.prems(2), of 1 "length xs" 0 2] Cons by simp
    then have "load (store (con_mem s) ptr [c, 7]) (buf + 1) (length xs) = load (con_mem s) (buf + 1) (length xs)"
      by (intro load_store_apart) (simp add: numeral_2_eq_2)
    then have "load (con_mem ?s) (buf + 1) (length xs) = xs"
      using Cons.prems(1) assms(5) by (simp add: load_Suc store_Cons)
    ultimately have "write_loop ?s (ptr + 2) (buf + 1) (length xs) =
      (?s\<lparr>con_mem := store (con_mem ?s) (ptr + 2) (cells xs), cpos := cpos ?s + 2 * of_nat (length xs),
         cx := cx ?s + of_nat (length xs)\<rparr>, ptr + 2 + 2 * of_nat (length xs))"
      using Cons.prems(3,4) cx' by (intro Cons.IH) (simp_all add: fun_upd_def)
    then show ?thesis using put st by (simp add: algebra_simps)
  qed
qed

subsection \<open>Properties\<close>

text \<open>C32.
  Whatever is written, the position of the cursor stays the one its coordinates
  give, the displayed screen starts at a row of the video memory and lies in it, and the
  last four port writes tell the CRT controller the number of the cursor's cell,
  high byte first. The cursor's cell is one of the 2000 of the displayed screen, but for one
  case: behind the 80th character of the last row it is the first cell past the screen,
  which for the last screen is past the video memory.
\<close>

theorem console_write_cursor:
  assumes "cursor_ok s" and "s' = console_write s buf n"
  shows "cursor_ok s' \<and> cursor_cell s' \<le> 8160 \<and>
    (let first = unat (screen s' - MEM_BASE) div 2
     in first \<le> cursor_cell s' \<and> (cursor_cell s' < first + 2000 \<or> cursor_cell s' = first + 2000 \<and> cx s' = WIDTH \<and> cy s' = HEIGHT - 1)) \<and>
    drop (length (ports s') - 4) (ports s') =
      [(0x3D4, 0xE), (0x3D5, of_nat (cursor_cell s' div 256)), (0x3D4, 0xF), (0x3D5, of_nat (cursor_cell s' mod 256))]"
proof -
  let ?t = "fst (write_loop s (ucast (cpos s)) buf (unat n))"
  have ok: "cursor_ok ?t" using assms(1) by (rule cursor_ok_write_loop)
  have s': "s' = set_cursor ?t" using assms(2) by (simp add: console_write_def)
  have "cursor_cell s' = cursor_cell ?t" by (simp add: s' cursor_cell_def set_cursor_def outByte_def)
  moreover have "cursor_ok s'" using ok by (simp add: s')
  ultimately show ?thesis
    unfolding Let_def using ok cursor_cell_screen [of s'] cursor_cell [OF ok] set_cursor_ports [of ?t "cursor_cell ?t"]
    by (simp add: s' CRT_ADDR_REG_def CRT_DATA_REG_def CRT_CURSOR_H_def CRT_CURSOR_L_def)
qed

definition blank_console :: "u64 console" where
  "blank_console = \<lparr>con_mem = (\<lambda>a. if a = 0x1001 then 0x0A else 0x41), screen = MEM_BASE, cpos = MEM_BASE,
     cx = 0, cy = 0, ports = []\<rparr>"

lemma blank_console_ok: "cursor_ok blank_console"
  unfolding cursor_ok_def blank_console_def by (auto simp: console_consts intro: exI [of _ 0])

theorem console_write_cursor_witness: "cursor_ok (console_write blank_console 0x1000 3)"
  using console_write_cursor [OF blank_console_ok refl, of "0x1000" 3] by blast

text \<open>A text that fits on the row of the cursor is written as cells of attribute 7
  from the cursor on and moves the cursor past it. A line feed after it moves the
  cursor to the start of the next row, but the pointer to the next cell is set
  only once, before the loop: the cells of a text that follows the line feed in
  the same call come right after the first text, on the old row, and not where
  the cursor is.
\<close>

lemma console_newline:
  fixes buf :: "'a::len word"
  assumes "cy s + 1 < HEIGHT" "unat (cx s) + length xs \<le> 80" "length ys \<le> 80"
    and "list_all printable (xs @ ys)" "load (con_mem s) buf (length xs + Suc (length ys)) = xs @ 0x0A # ys"
    and "apart buf (length xs + Suc (length ys)) (ucast (cpos s)) (2 * (length xs + Suc (length ys)))"
    and "(320::nat) < 2 ^ LENGTH('a)"
  shows "let t = console_write s buf (of_nat (length xs)); u = console_write s buf (of_nat (length xs + Suc (length ys)))
    in con_mem t = store (con_mem s) (ucast (cpos s)) (cells xs) \<and>
      cx t = cx s + of_nat (length xs) \<and> cy t = cy s \<and> cpos t = cpos s + 2 * of_nat (length xs) \<and>
      con_mem u = store (con_mem s) (ucast (cpos s)) (cells xs @ cells ys) \<and>
      cx u = of_nat (length ys) \<and> cy u = cy s + 1 \<and>
      cpos u = cpos s - 2 * cx s + ROW_SIZE + 2 * of_nat (length ys)"
proof -
  let ?n = "length xs" and ?k = "length ys" and ?p = "ucast (cpos s) :: 'a word"
  define s1 where "s1 = s\<lparr>con_mem := store (con_mem s) ?p (cells xs), cpos := cpos s + 2 * of_nat ?n,
    cx := cx s + of_nat ?n\<rparr>"
  define s2 where "s2 = s1\<lparr>cy := cy s + 1, cpos := cpos s - 2 * cx s + ROW_SIZE, cx := 0\<rparr>"
  have un: "unat (of_nat ?n :: u32) = ?n" "unat (of_nat (?n + Suc ?k) :: u32) = ?n + Suc ?k"
    using assms(2,3) by (intro unat_of_nat_less; simp)+
  have ld: "load (con_mem s) buf ?n = xs" "con_mem s (buf + of_nat ?n) = 0x0A"
    "load (con_mem s) (buf + of_nat (Suc ?n)) ?k = ys"
    using assms(5) unfolding load_add by (simp_all add: load_Suc [of _ _ ?k] ac_simps)
  have w1: "write_loop s ?p buf ?n = (s1, ?p + 2 * of_nat ?n)"
    using assms(2,4,6,7) ld(1) unfolding s1_def by (intro write_loop_text) (auto elim: apart_mono)
  have ap: "apart (buf + of_nat i) j ?p (2 * ?n)" if "i + j \<le> ?n + Suc ?k" "0 < j" "0 < ?n" for i j
    using apart_within [OF assms(6), of i j 0 "2 * ?n"] that by simp
  have "load (con_mem s1) (buf + of_nat i) j = load (con_mem s) (buf + of_nat i) j" if "i + j \<le> ?n + Suc ?k" for i j
  proof (cases "j = 0 \<or> ?n = 0")
    case True
    then show ?thesis by (auto simp: s1_def)
  next
    case False
    then show ?thesis using ap [OF that] by (simp add: s1_def load_store_apart)
  qed
  from this [of ?n 1] this [of "Suc ?n" ?k] have ld1: "con_mem s1 (buf + of_nat ?n) = 0x0A"
    "load (con_mem s1) (buf + of_nat (Suc ?n)) ?k = ys" using ld by (simp_all add: load_Suc)
  then have put: "put_char s1 (?p + 2 * of_nat ?n) (con_mem s1 (buf + of_nat ?n)) = (s2, ?p + 2 * of_nat ?n)"
    using assms(1) by (simp add: put_char_lf command_lf_def command_cr_def s1_def s2_def push_bit_eq_mult algebra_simps)
  have "write_loop s2 (?p + 2 * of_nat ?n) (buf + of_nat (Suc ?n)) ?k =
    (s2\<lparr>con_mem := store (con_mem s2) (?p + 2 * of_nat ?n) (cells ys), cpos := cpos s2 + 2 * of_nat ?k,
       cx := cx s2 + of_nat ?k\<rparr>, ?p + 2 * of_nat ?n + 2 * of_nat ?k)" (is "_ = (?s3, ?q)")
  proof (cases "?k = 0")
    case False
    have "apart (buf + of_nat (Suc ?n)) ?k (?p + of_nat (2 * ?n)) (2 * ?k)"
      using False by (intro apart_within [OF assms(6)]) simp_all
    then show ?thesis
      using assms(3,4,7) ld1(2) by (intro write_loop_text) (simp_all add: s2_def)
  qed simp
  then have "write_loop s ?p buf (?n + Suc ?k) = (?s3, ?q)"
    using w1 put by (subst write_loop_add) (simp add: ac_simps)
  moreover have "store (con_mem s) ?p (cells xs @ cells ys) = store (con_mem s1) (?p + 2 * of_nat ?n) (cells ys)"
    using assms(2,3,7) by (subst store_append) (simp_all add: s1_def)
  ultimately show ?thesis
    using w1 un
    by (simp add: console_write_def Let_def set_cursor_def outByte_def s1_def s2_def)
qed

text \<open>The words \<open>fill32\<close> writes.\<close>

lemma fill32_store:
  "4 * n < 2 ^ LENGTH('a) \<Longrightarrow> fill32 m (p :: 'a::len word) v n = store m p (concat (replicate n (le_bytes 4 v)))"
proof (induction n arbitrary: m p)
  case (Suc n)
  have "length (concat (replicate n (le_bytes 4 v))) = 4 * n" by (simp add: length_concat sum_list_replicate)
  then show ?case using Suc by (simp add: store_append wr32_def)
qed simp

lemma blank_word: "le_bytes 4 (0x0720 :: u32) = [0x20, 0x07, 0, 0]"
  by (simp add: le_bytes_def upt_rec)

lemma nth_concat_replicate:
  "i < n * length xs \<Longrightarrow> concat (replicate n xs) ! i = xs ! (i mod length xs)"
proof (induction n arbitrary: i)
  case (Suc n)
  then show ?case by (cases "i < length xs") (auto simp: nth_append le_mod_geq)
qed simp

text \<open>C33.
  When the screen can move down one row, \<open>scroll_up\<close> fills 320 bytes, two rows and
  not one, with the word 0x0720 of four bytes: every second cell of the new row
  is a NUL cell and not a blank one, and with the screen at row 76 the fill goes
  96 bytes past the end of the video memory. When the screen is at row 77, the
  last one, the screen is copied to the start of the video memory as it is: the
  row the text goes on with is not cleared and the same 25 rows stay displayed.
\<close>

theorem scroll_up_overruns:
  fixes s :: "'a::len word console"
  assumes "cursor_ok s" and "32 \<le> LENGTH('a)"
  shows "(screen s + SCR_SIZE + ROW_SIZE < MEM_END \<longrightarrow>
      con_mem (scroll_up s) = store (con_mem s) (ucast (screen s + SCR_SIZE)) (concat (replicate 80 [0x20, 0x07, 0, 0]))) \<and>
    (screen s = MEM_BASE + 76 * ROW_SIZE \<longrightarrow> con_mem (scroll_up s) (ucast MEM_END + 95) = 0) \<and>
    (\<not> screen s + SCR_SIZE + ROW_SIZE < MEM_END \<longrightarrow>
      screen s = MEM_BASE + 77 * ROW_SIZE \<and> screen (scroll_up s) = MEM_BASE \<and>
      load (con_mem (scroll_up s)) (ucast MEM_BASE) 4000 = load (con_mem s) (ucast (screen s)) 4000)"
proof -
  obtain r where r: "screen s = MEM_BASE + of_nat r * ROW_SIZE" "r + 25 \<le> 102"
    using assms(1) by (auto simp: cursor_ok_def)
  have big: "(2 :: nat) ^ 32 \<le> 2 ^ LENGTH('a)" using assms(2) by (rule power_increasing) simp
  have mem: "con_mem (scroll_up s) = (if screen s + SCR_SIZE + ROW_SIZE < MEM_END
      then fill32 (con_mem s) (ucast (screen s + SCR_SIZE)) 0x0720 80
      else memcpy (con_mem s) (ucast MEM_BASE) (ucast (screen s)) SCR_SIZE)"
    by (simp add: scroll_up_def set_screen_def outByte_def WIDTH_def)
  have fill: "con_mem (scroll_up s) = store (con_mem s) (ucast (screen s + SCR_SIZE)) (concat (replicate 80 [0x20, 0x07, 0, 0]))"
    if "screen s + SCR_SIZE + ROW_SIZE < MEM_END"
    using that big fill32_store [of 80, where 'a='a] unfolding mem blank_word [symmetric] by simp
  have past: "con_mem (scroll_up s) (ucast MEM_END + 95) = 0" if scr: "screen s = MEM_BASE + 76 * ROW_SIZE"
  proof -
    have less: "screen s + SCR_SIZE + ROW_SIZE < MEM_END" using scr by (simp add: console_consts)
    have "ucast MEM_END + 95 - ucast (screen s + SCR_SIZE) = (of_nat 319 :: 'a word)"
      using scr by (simp add: console_consts)
    moreover have "unat (of_nat 319 :: 'a word) = 319" using big by (intro unat_of_nat_less) simp
    moreover have "concat (replicate 80 [0x20, 0x07, 0, 0 :: u8]) ! 319 = 0"
      by (subst nth_concat_replicate) simp_all
    moreover have "length (concat (replicate 80 [0x20, 0x07, 0, 0 :: u8])) = 320"
      by (simp add: length_concat sum_list_replicate)
    ultimately show ?thesis unfolding fill [OF less] by (simp only: store_def) simp
  qed
  have wrap: "screen s = MEM_BASE + 77 * ROW_SIZE \<and> screen (scroll_up s) = MEM_BASE \<and>
      load (con_mem (scroll_up s)) (ucast MEM_BASE) 4000 = load (con_mem s) (ucast (screen s)) 4000"
    if last: "\<not> screen s + SCR_SIZE + ROW_SIZE < MEM_END"
  proof -
    have "r = 77" using scroll_rows [OF r] r(2) last by simp
    then have scr: "screen s = MEM_BASE + 77 * ROW_SIZE" using r(1) by simp
    have "ucast (screen s) = ucast MEM_BASE + (of_nat 12320 :: 'a word)" using scr by (simp add: console_consts)
    then have "apart (ucast MEM_BASE) 4000 (ucast (screen s) :: 'a word) 4000"
      using apart_offset_same(1) [of 0 4000 12320 4000 "ucast MEM_BASE :: 'a word"] big by simp
    then have "con_mem (scroll_up s) = store (con_mem s) (ucast MEM_BASE) (load (con_mem s) (ucast (screen s)) 4000)"
      using last memcpy_eq_store [of "ucast MEM_BASE" SCR_SIZE "ucast (screen s) :: 'a word"]
      unfolding mem by (simp add: console_consts)
    then show ?thesis
      using scr last big by (simp add: load_store_same) (simp add: scroll_up_def set_screen_def outByte_def)
  qed
  show ?thesis using fill past wrap by blast
qed

definition low_console :: "u32 console" where
  "low_console = \<lparr>con_mem = (\<lambda>a. 0x41), screen = MEM_BASE + 76 * ROW_SIZE, cpos = MEM_BASE + 76 * ROW_SIZE,
     cx = 0, cy = 0, ports = []\<rparr>"

theorem scroll_up_overruns_witness: "con_mem low_console 0xBC05F = 0x41 \<and> con_mem (scroll_up low_console) 0xBC05F = 0"
proof -
  have ok: "cursor_ok low_console"
    unfolding cursor_ok_def low_console_def by (auto simp: console_consts intro: exI [of _ 76])
  have "screen low_console = MEM_BASE + 76 * ROW_SIZE" by (simp add: low_console_def)
  moreover have "32 \<le> LENGTH(32)" by simp
  ultimately have "con_mem (scroll_up low_console) (ucast MEM_END + 95) = 0"
    using scroll_up_overruns [OF ok] by blast
  then show ?thesis by (simp add: low_console_def console_consts)
qed

end
