(* ===== verification/Serial.thy ===== *)
theory Serial
  imports Console
begin

text \<open>
  The serial port (x64_kenerl/driver/serial.c) and data_out of
  x64_kenerl/kernel/printk.c, which sends the text of printk to it. The device is
  a parameter \<open>dev\<close>: \<open>dev port k\<close> is the byte the \<open>k\<close>-th read of a port returns when
  that read is from \<open>port\<close>. The state counts the reads and keeps the bytes written
  to the ports. The polling loops may wait for ever, hence the option type.
\<close>

section \<open>Definitions\<close>

definition SERIAL_PORT :: u32 where "SERIAL_PORT = 0x3F8"

record serial =
  s_reads :: nat
  s_out :: "(u32 \<times> u8) list"

type_synonym device = "u32 \<Rightarrow> nat \<Rightarrow> u8"

definition in_port :: "device \<Rightarrow> u32 \<Rightarrow> serial \<Rightarrow> u8 \<times> serial" where
  "in_port dev port s = (dev port (s_reads s), s\<lparr>s_reads := Suc (s_reads s)\<rparr>)"

definition out_port :: "u32 \<Rightarrow> u8 \<Rightarrow> serial \<Rightarrow> serial" where
  "out_port port b s = s\<lparr>s_out := s_out s @ [(port, b)]\<rparr>"

definition init_serial :: "serial \<Rightarrow> serial" where
  "init_serial s =
    (let s = out_port (SERIAL_PORT + 1) 0x00 s;
         s = out_port (SERIAL_PORT + 3) 0x80 s;
         s = out_port (SERIAL_PORT + 0) 0x03 s;
         s = out_port (SERIAL_PORT + 1) 0x00 s;
         s = out_port (SERIAL_PORT + 3) 0x03 s;
         s = out_port (SERIAL_PORT + 2) 0xC7 s
     in out_port (SERIAL_PORT + 4) 0x0B s)"

definition serial_received :: "device \<Rightarrow> serial \<Rightarrow> u8 \<times> serial" where
  "serial_received dev s = (let (v, s) = in_port dev (SERIAL_PORT + 5) s in (v AND 1, s))"

partial_function (option) wait_received :: "device \<Rightarrow> serial \<Rightarrow> serial option" where
  "wait_received dev s = (let (v, s') = serial_received dev s in if v = 0 then wait_received dev s' else Some s')"

definition read_serial :: "device \<Rightarrow> serial \<Rightarrow> (u8 \<times> serial) option" where
  "read_serial dev s = map_option (in_port dev SERIAL_PORT) (wait_received dev s)"

definition is_transmit_empty :: "device \<Rightarrow> serial \<Rightarrow> u8 \<times> serial" where
  "is_transmit_empty dev s = (let (v, s) = in_port dev (SERIAL_PORT + 5) s in (v AND 0x20, s))"

partial_function (option) wait_transmit :: "device \<Rightarrow> serial \<Rightarrow> serial option" where
  "wait_transmit dev s = (let (v, s') = is_transmit_empty dev s in if v = 0 then wait_transmit dev s' else Some s')"

definition write_serial :: "device \<Rightarrow> u8 \<Rightarrow> serial \<Rightarrow> serial option" where
  "write_serial dev a s = map_option (out_port SERIAL_PORT a) (wait_transmit dev s)"

fun printk_loop :: "device \<Rightarrow> 'a::len cmem \<Rightarrow> 'a word \<Rightarrow> nat \<Rightarrow> serial \<Rightarrow> serial option" where
  "printk_loop dev m str 0 s = Some s"
| "printk_loop dev m str (Suc n) s = Option.bind (write_serial dev (m str) s) (printk_loop dev m (str + 1) n)"

definition serial_printk :: "device \<Rightarrow> 'a::len cmem \<Rightarrow> 'a word \<Rightarrow> u32 \<Rightarrow> serial \<Rightarrow> serial option" where
  "serial_printk dev m str count s = printk_loop dev m str (unat count) s"

definition data_out :: "device \<Rightarrow> 'a::len cmem \<Rightarrow> 'a word \<Rightarrow> u32 \<Rightarrow> serial \<Rightarrow> serial option" where
  "data_out dev m data sz s = serial_printk dev m data sz s"

section \<open>Polling\<close>

text \<open>The line status register shows bit \<open>b\<close> again and again.\<close>

definition line_status :: "device \<Rightarrow> u8 \<Rightarrow> bool" where
  "line_status dev b \<longleftrightarrow> (\<forall>k. \<exists>j\<ge>k. dev (SERIAL_PORT + 5) j AND b \<noteq> 0)"

text \<open>A polling loop stops at the first read that shows the bit.\<close>

lemma poll_ready:
  assumes "\<And>s. loop s = (let v = dev (SERIAL_PORT + 5) (s_reads s) AND b; s' = s\<lparr>s_reads := Suc (s_reads s)\<rparr>
      in if v = 0 then loop s' else Some s')"
    and "line_status dev b"
  obtains k where "s_reads s < k" "loop s = Some (s\<lparr>s_reads := k\<rparr>)"
    "dev (SERIAL_PORT + 5) (k - 1) AND b \<noteq> 0"
    "\<And>i. s_reads s \<le> i \<Longrightarrow> i < k - 1 \<Longrightarrow> dev (SERIAL_PORT + 5) i AND b = 0"
proof -
  obtain j0 where "j0 \<ge> s_reads s" "dev (SERIAL_PORT + 5) j0 AND b \<noteq> 0"
    using assms(2) by (auto simp: line_status_def)
  then obtain j where j: "j \<ge> s_reads s" "dev (SERIAL_PORT + 5) j AND b \<noteq> 0"
    "\<And>i. i < j \<Longrightarrow> i \<ge> s_reads s \<Longrightarrow> dev (SERIAL_PORT + 5) i AND b = 0"
    using exists_least_iff [of "\<lambda>j. j \<ge> s_reads s \<and> dev (SERIAL_PORT + 5) j AND b \<noteq> 0"] by blast
  have "loop t = Some (t\<lparr>s_reads := Suc j\<rparr>)"
    if "s_reads t \<le> j" "s_reads s \<le> s_reads t" for t
    using that
  proof (induction "j - s_reads t" arbitrary: t)
    case 0
    then have "s_reads t = j" by simp
    then show ?case using j(2) by (subst assms(1)) (simp add: Let_def)
  next
    case (Suc n)
    then have "dev (SERIAL_PORT + 5) (s_reads t) AND b = 0" by (intro j(3)) simp_all
    moreover have "loop (t\<lparr>s_reads := Suc (s_reads t)\<rparr>) = Some (t\<lparr>s_reads := Suc j\<rparr>)"
      using Suc.hyps(2) Suc.prems Suc.hyps(1) [of "t\<lparr>s_reads := Suc (s_reads t)\<rparr>"] by simp
    ultimately show ?case by (subst assms(1)) (simp add: Let_def)
  qed
  from this [of s] j show thesis by (intro that [of "Suc j"]) auto
qed

lemma wait_transmit_unfold:
  "wait_transmit dev s = (let v = dev (SERIAL_PORT + 5) (s_reads s) AND 0x20; s' = s\<lparr>s_reads := Suc (s_reads s)\<rparr>
    in if v = 0 then wait_transmit dev s' else Some s')"
  by (subst wait_transmit.simps) (simp add: is_transmit_empty_def in_port_def)

text \<open>A device that is never ready: the loop does not end.\<close>

lemma wait_transmit_stuck:
  assumes "\<forall>j\<ge>s_reads s. dev (SERIAL_PORT + 5) j AND 0x20 = 0"
  shows "wait_transmit dev s = None"
proof -
  have "wait_transmit dev s = Some s' \<Longrightarrow> \<not> (\<forall>j\<ge>s_reads s. dev (SERIAL_PORT + 5) j AND 0x20 = 0)" for s'
  proof (induction rule: wait_transmit.raw_induct [rotated, consumes 1, case_names step])
    case (step loop dev s s')
    show ?case
    proof (cases "dev (SERIAL_PORT + 5) (s_reads s) AND 0x20 = 0")
      case True
      then have "loop dev (s\<lparr>s_reads := Suc (s_reads s)\<rparr>) = Some s'"
        using step.hyps by (simp add: is_transmit_empty_def in_port_def)
      from step.IH [OF this] show ?thesis by (auto dest: Suc_leD)
    qed auto
  qed
  then show ?thesis using assms by (cases "wait_transmit dev s") auto
qed

lemma write_serial_ready:
  assumes "line_status dev 0x20"
  obtains k where "s_reads s < k" "write_serial dev a s = Some (s\<lparr>s_reads := k, s_out := s_out s @ [(SERIAL_PORT, a)]\<rparr>)"
    "dev (SERIAL_PORT + 5) (k - 1) AND 0x20 \<noteq> 0"
proof -
  from poll_ready [of "wait_transmit dev" dev "0x20", OF wait_transmit_unfold assms, of s] obtain k where
    "s_reads s < k" "wait_transmit dev s = Some (s\<lparr>s_reads := k\<rparr>)" "dev (SERIAL_PORT + 5) (k - 1) AND 0x20 \<noteq> 0"
    by metis
  then show thesis by (intro that [of k]) (simp_all add: write_serial_def out_port_def)
qed

lemma printk_loop_ready:
  assumes "line_status dev 0x20"
  shows "\<exists>k\<ge>s_reads s + n. printk_loop dev m str n s =
    Some (s\<lparr>s_reads := k, s_out := s_out s @ map (\<lambda>b. (SERIAL_PORT, b)) (load m str n)\<rparr>)"
proof (induction n arbitrary: str s)
  case 0
  then show ?case by (intro exI [of _ "s_reads s"]) simp
next
  case (Suc n)
  from write_serial_ready [OF assms, of s "m str"] obtain k where k: "s_reads s < k"
    "write_serial dev (m str) s = Some (s\<lparr>s_reads := k, s_out := s_out s @ [(SERIAL_PORT, m str)]\<rparr>)" by metis
  let ?t = "s\<lparr>s_reads := k, s_out := s_out s @ [(SERIAL_PORT, m str)]\<rparr>"
  from Suc.IH [of ?t "str + 1"] obtain j where "j \<ge> k + n"
    "printk_loop dev m (str + 1) n ?t = Some (?t\<lparr>s_reads := j, s_out := s_out ?t @ map (\<lambda>b. (SERIAL_PORT, b)) (load m (str + 1) n)\<rparr>)"
    by auto
  then show ?case using k by (intro exI [of _ j]) (simp add: load_Suc)
qed

section \<open>Properties\<close>

text \<open>C34.
  If the line status register shows an empty transmitter again and again,
  serial_printk returns and has sent exactly the bytes of the text, in order, to
  the data port, with at least one read of the status before each. If the
  register never shows it, a text that is not empty is never sent: the call does
  not return.
\<close>

theorem serial_printk_sends:
  "(line_status dev 0x20 \<longrightarrow> (\<exists>k. s_reads s + unat n \<le> k \<and>
      data_out dev m str n s =
        Some (s\<lparr>s_reads := k, s_out := s_out s @ map (\<lambda>b. (0x3F8, b)) (load m str (unat n))\<rparr>))) \<and>
   (n \<noteq> 0 \<and> (\<forall>j\<ge>s_reads s. dev 0x3FD j AND 0x20 = 0) \<longrightarrow> data_out dev m str n s = None)"
proof -
  have "data_out dev m str n s = None" if "n \<noteq> 0" "\<forall>j\<ge>s_reads s. dev 0x3FD j AND 0x20 = 0"
  proof -
    from that(1) have "unat n \<noteq> 0" by (simp add: unat_eq_zero)
    then obtain k where "unat n = Suc k" using not0_implies_Suc by blast
    then show ?thesis
      using that(2) wait_transmit_stuck [of s dev]
      by (simp add: data_out_def serial_printk_def write_serial_def SERIAL_PORT_def)
  qed
  moreover have "\<exists>k. s_reads s + unat n \<le> k \<and> data_out dev m str n s =
      Some (s\<lparr>s_reads := k, s_out := s_out s @ map (\<lambda>b. (0x3F8, b)) (load m str (unat n))\<rparr>)"
    if "line_status dev 0x20"
    using printk_loop_ready [OF that, of s "unat n" m str]
    unfolding data_out_def serial_printk_def SERIAL_PORT_def by blast
  ultimately show ?thesis by blast
qed

definition slow_line :: device where
  "slow_line port k = (if port = 0x3FD \<and> k mod 3 = 2 then 0x60 else 0)"

theorem serial_printk_sends_witness:
  "(\<exists>k s. data_out slow_line (\<lambda>a :: u64. 0x41) 0x1000 2 \<lparr>s_reads = 0, s_out = []\<rparr> = Some s \<and>
     s_out s = [(0x3F8, 0x41), (0x3F8, 0x41)])"
proof -
  have "slow_line (SERIAL_PORT + 5) (3 * k + 2) AND 0x20 \<noteq> 0" for k
    by (simp add: slow_line_def SERIAL_PORT_def mod_mult_self4 del: add_2_eq_Suc')
  moreover have "3 * k + 2 \<ge> k" for k :: nat by simp
  ultimately have "line_status slow_line 0x20" unfolding line_status_def by blast
  then obtain k where "data_out slow_line (\<lambda>a :: u64. 0x41) 0x1000 2 \<lparr>s_reads = 0, s_out = []\<rparr> =
    Some \<lparr>s_reads = k, s_out = map (\<lambda>b. (0x3F8, b)) (load (\<lambda>a :: u64. 0x41) 0x1000 2)\<rparr>"
    using serial_printk_sends [of slow_line "\<lparr>s_reads = 0, s_out = []\<rparr>" 2 "\<lambda>a :: u64. 0x41" "0x1000"]
    by auto
  then show ?thesis by (simp add: load_def upt_rec)
qed

end
