(* ===== verification/Smp.thy ===== *)
theory Smp
  imports Task64Props
begin

text \<open>
  The scheduling interrupts of several processors
  (x64_kenerl/asm/apic_interrupts.asm, asm/sched64.asm) as steps of one machine:
  the timer interrupt lapic_timer_entry, the broadcast interrupt
  lapic_sched_broadcast_entry and the end of a task, task_exit. A step is one
  access to what the processors share: the lock taskspinlock, the table of tasks
  and the tasks; get_next_ready_task is two steps, the choice and the store that
  makes the task RUNNING. The current task of a processor is its word at gs:32
  (kpcr_t.task). The saving and restoring of registers, the switch of stacks and
  the end-of-interrupt messages are left out.
\<close>

section \<open>Definitions\<close>

text \<open>get_next_ready_task up to its last store.\<close>

definition choose_task :: "mem \<Rightarrow> u64 list \<Rightarrow> mem \<times> u64" where
  "choose_task m tasks =
     (let (high, hasWait) = sched_scan m tasks 0 False
      in if high = 0 then
           (if hasWait then sched_reset m tasks high
            else if get_state m (tasks ! 0) = state_code TASK_READY then (m, tasks ! 0) else (m, 0))
         else (m, high))"

lemma get_next_ready_task_choose:
  "get_next_ready_task m ts =
     (let (m1, t) = choose_task m ts in if t \<noteq> 0 then (set_state m1 t TASK_RUNNING, t) else (m1, t))"
  by (auto simp: get_next_ready_task_def choose_task_def Let_def split: prod.split)

datatype irq = Timer | Broadcast

text \<open>
  Where a processor is: outside of the handlers, in spin_lock, at the check of the
  current task, after its time slice, before and after the choice, at the flag of
  the first schedule, before spin_unlock (with the broadcast handler's flag still
  to come), and the two places of task_exit.
\<close>

datatype pc =
  Outside | Spin irq | Check | Expired | Choose irq | Take irq u64 | First | Release bool | Late_first |
  Exit_choose | Exit_take u64

record smp =
  ctx :: task_ctx_t
  sched_lock :: u32
  cur :: "nat \<Rightarrow> u64"
  pc :: "nat \<Rightarrow> pc"

definition tmem :: "smp \<Rightarrow> mem" where
  "tmem s = kmem (kh (ctx s))"

definition set_tmem :: "mem \<Rightarrow> smp \<Rightarrow> smp" where
  "set_tmem m s = s\<lparr>ctx := (ctx s)\<lparr>kh := (kh (ctx s))\<lparr>kmem := m\<rparr>\<rparr>\<rparr>"

definition tasks :: "smp \<Rightarrow> u64 list" where
  "tasks s = g_tasks (ctx s)"

definition goto :: "nat \<Rightarrow> pc \<Rightarrow> smp \<Rightarrow> smp" where
  "goto c l s = s\<lparr>pc := (pc s)(c := l)\<rparr>"

definition set_cur :: "nat \<Rightarrow> u64 \<Rightarrow> smp \<Rightarrow> smp" where
  "set_cur c t s = s\<lparr>cur := (cur s)(c := t)\<rparr>"

text \<open>The flag of a task that runs for the first time.\<close>

definition first_flag :: "mem \<Rightarrow> u64 \<Rightarrow> mem" where
  "first_flag m t = (if get_first_sched_flag m t then reset_first_sched_flag m t else m)"

inductive handler_step :: "smp \<Rightarrow> smp \<Rightarrow> bool" where
  timer: "pc s c = Outside \<Longrightarrow> handler_step s (goto c (Spin Timer) s)"
| broadcast: "pc s c = Outside \<Longrightarrow> cur s c = 0 \<Longrightarrow> handler_step s (goto c (Spin Broadcast) s)"
| xchg: "pc s c = Spin i \<Longrightarrow>
    l = (if sched_lock s \<noteq> 0 then Spin i else case i of Timer \<Rightarrow> Check | Broadcast \<Rightarrow> Choose Broadcast) \<Longrightarrow>
    handler_step s (goto c l (s\<lparr>sched_lock := 1\<rparr>))"
| check_idle: "pc s c = Check \<Longrightarrow> cur s c = 0 \<Longrightarrow> handler_step s (goto c (Choose Timer) s)"
| check_task: "pc s c = Check \<Longrightarrow> cur s c \<noteq> 0 \<Longrightarrow> decrease_task_couter (tmem s) (cur s c) = (m, v) \<Longrightarrow>
    handler_step s (goto c (if v > 0 then Release False else Expired) (set_tmem m s))"
| expired: "pc s c = Expired \<Longrightarrow>
    m = set_task_esp0 (set_task_waiting (tmem s) (cur s c)) (cur s c) rsp \<Longrightarrow>
    handler_step s (goto c (Choose Timer) (set_tmem m s))"
| choose: "pc s c = Choose i \<Longrightarrow> choose_task (tmem s) (tasks s) = (m, t) \<Longrightarrow>
    handler_step s (goto c (Take i t) (set_tmem m s))"
| take_none: "pc s c = Take i 0 \<Longrightarrow> handler_step s (goto c (Release False) s)"
| take: "pc s c = Take i t \<Longrightarrow> t \<noteq> 0 \<Longrightarrow>
    m = set_task_running (set_state (tmem s) t TASK_RUNNING) t \<Longrightarrow>
    l = (case i of Timer \<Rightarrow> First | Broadcast \<Rightarrow> Release True) \<Longrightarrow>
    handler_step s (goto c l (set_cur c t (set_tmem m s)))"
| first: "pc s c = First \<Longrightarrow> handler_step s (goto c (Release False) (set_tmem (first_flag (tmem s) (cur s c)) s))"
| release: "pc s c = Release b \<Longrightarrow>
    handler_step s (goto c (if b then Late_first else Outside) (s\<lparr>sched_lock := spin_unlock (sched_lock s)\<rparr>))"
| late_first: "pc s c = Late_first \<Longrightarrow> handler_step s (goto c Outside (set_tmem (first_flag (tmem s) (cur s c)) s))"

text \<open>task_exit takes no lock around the choice.\<close>

inductive exit_step :: "smp \<Rightarrow> smp \<Rightarrow> bool" where
  exit_clean: "pc s c = Outside \<Longrightarrow> cur s c \<noteq> 0 \<Longrightarrow> task_clean (ctx s) (cur s c) = Some x \<Longrightarrow>
    exit_step s (goto c Exit_choose (set_cur c 0 (s\<lparr>ctx := x\<rparr>)))"
| exit_choose: "pc s c = Exit_choose \<Longrightarrow> choose_task (tmem s) (tasks s) = (m, t) \<Longrightarrow>
    exit_step s (goto c (Exit_take t) (set_tmem m s))"
| exit_none: "pc s c = Exit_take 0 \<Longrightarrow> exit_step s (goto c Outside s)"
| exit_take: "pc s c = Exit_take t \<Longrightarrow> t \<noteq> 0 \<Longrightarrow> m = first_flag (set_state (tmem s) t TASK_RUNNING) t \<Longrightarrow>
    exit_step s (goto c Outside (set_cur c t (set_tmem m s)))"

lemmas smp_defs = goto_def set_cur_def set_tmem_def tmem_def tasks_def

section \<open>The states of the tasks under the steps\<close>

lemma choose_task_states:
  assumes ap: "tasks_apart ts" and ne: "ts \<noteq> []" and ch: "choose_task m ts = (m1, t)"
  shows "\<forall>x \<in> set ts. x \<noteq> 0 \<longrightarrow> get_state m1 x = get_state m x \<or>
      get_state m x = state_code TASK_WAITING \<and> get_state m1 x = state_code TASK_READY"
    and "t \<noteq> 0 \<Longrightarrow> t \<in> set ts \<and> get_state m1 t = state_code TASK_READY"
    and "t = 0 \<Longrightarrow> x \<in> set ts \<Longrightarrow> x \<noteq> 0 \<Longrightarrow> get_state m x \<noteq> state_code TASK_WAITING \<and> get_state m x \<noteq> state_code TASK_READY"
proof -
  let ?R = "in_state m TASK_READY ts" and ?W = "in_state m TASK_WAITING ts" and ?p = "\<lambda>t. tget m t Priority"
  have scan: "sched_scan m ts 0 False = (best ?p ?R 0, ?W \<noteq> [])" by (simp add: sched_scan_eq)
  have nz: "first_max ?p (in_state m st ts) x \<Longrightarrow> x \<noteq> 0 \<and> x \<in> set ts \<and> get_state m x = state_code st" for x st
    using first_max_in [of ?p "in_state m st ts" x] by auto
  have "(\<forall>x \<in> set ts. x \<noteq> 0 \<longrightarrow> get_state m1 x = get_state m x \<or>
      get_state m x = state_code TASK_WAITING \<and> get_state m1 x = state_code TASK_READY) \<and>
    (t \<noteq> 0 \<longrightarrow> t \<in> set ts \<and> get_state m1 t = state_code TASK_READY) \<and>
    (t = 0 \<longrightarrow> ?R = [] \<and> ?W = [])"
  proof (cases "?R = []")
    case False
    then have b: "first_max ?p ?R (best ?p ?R 0)" by (intro best_max) auto
    then show ?thesis using ch scan nz [OF b] by (auto simp: choose_task_def)
  next
    case R: True
    show ?thesis
    proof (cases "?W = []")
      case False
      have r: "sched_reset m ts 0 = (m1, t)" using ch scan R False by (simp add: choose_task_def)
      have E: "t = best ?p ?W 0"
        "\<And>x. x \<in> set ts \<Longrightarrow> x \<noteq> 0 \<Longrightarrow>
           get_state m1 x = (if get_state m x = state_code TASK_WAITING then state_code TASK_READY else get_state m x)"
        using sched_reset_eq [OF ap r] by (auto simp del: state_code.simps)
      have b: "first_max ?p ?W (best ?p ?W 0)" using False by (intro best_max) auto
      show ?thesis using E(2) nz [OF b] unfolding E(1) by (auto simp del: state_code.simps)
    next
      case True
      have "get_state m (ts ! 0) = state_code TASK_READY \<longrightarrow> ts ! 0 = 0"
        using R ne by (cases ts) (auto split: if_splits)
      then show ?thesis using ch scan R True by (auto simp: choose_task_def split: if_splits)
    qed
  qed
  then show "\<forall>x \<in> set ts. x \<noteq> 0 \<longrightarrow> get_state m1 x = get_state m x \<or>
      get_state m x = state_code TASK_WAITING \<and> get_state m1 x = state_code TASK_READY"
    and "t \<noteq> 0 \<Longrightarrow> t \<in> set ts \<and> get_state m1 t = state_code TASK_READY"
    and "t = 0 \<Longrightarrow> x \<in> set ts \<Longrightarrow> x \<noteq> 0 \<Longrightarrow> get_state m x \<noteq> state_code TASK_WAITING \<and> get_state m x \<noteq> state_code TASK_READY"
    by (auto simp: filter_empty_conv)
qed

text \<open>A store inside one task of the table leaves the states of the others.\<close>

lemma state_frame:
  assumes "tasks_apart ts" "t \<in> set ts" "t \<noteq> 0" "frames m m' [(t, 373)]" "get_state m' t = st" "x \<in> set ts" "x \<noteq> 0"
  shows "get_state m' x = (if x = t then st else get_state m x)"
  using tget_frames(2) [of m m' "[t]" x] tasks_apart_in [OF assms(1,6,2,7,3)] assms(4,5) by auto

section \<open>The invariant\<close>

fun holder :: "pc \<Rightarrow> bool" where
  "holder Outside = False" | "holder (Spin i) = False" | "holder Late_first = False"
| "holder Exit_choose = False" | "holder (Exit_take t) = False"
| "holder Check = True" | "holder Expired = True" | "holder (Choose i) = True" | "holder (Take i t) = True"
| "holder First = True" | "holder (Release b) = True"

text \<open>The places where the old task of the processor no longer runs.\<close>

fun switching :: "pc \<Rightarrow> bool" where
  "switching (Choose i) = True" | "switching (Take i t) = True" | "switching p = False"

abbreviation running :: "mem \<Rightarrow> u64 \<Rightarrow> bool" where
  "running m t \<equiv> get_state m t = state_code TASK_RUNNING"

abbreviation runnable :: "mem \<Rightarrow> u64 \<Rightarrow> bool" where
  "runnable m t \<equiv> get_state m t = state_code TASK_WAITING \<or> get_state m t = state_code TASK_READY"

fun place_ok :: "mem \<Rightarrow> u64 list \<Rightarrow> pc \<Rightarrow> u64 \<Rightarrow> bool" where
  "place_ok m ts (Spin i) t \<longleftrightarrow> (i = Broadcast \<longrightarrow> t = 0)"
| "place_ok m ts (Choose i) t \<longleftrightarrow> (i = Broadcast \<longrightarrow> t = 0)"
| "place_ok m ts (Take i u) t \<longleftrightarrow> (i = Broadcast \<longrightarrow> t = 0) \<and> (u = 0 \<longrightarrow> t = 0) \<and>
    (u \<noteq> 0 \<longrightarrow> u \<in> set ts \<and> get_state m u = state_code TASK_READY)"
| "place_ok m ts Expired t \<longleftrightarrow> t \<noteq> 0"
| "place_ok m ts First t \<longleftrightarrow> t \<noteq> 0"
| "place_ok m ts Late_first t \<longleftrightarrow> t \<noteq> 0"
| "place_ok m ts (Release b) t \<longleftrightarrow> (b \<longrightarrow> t \<noteq> 0)"
| "place_ok m ts Exit_choose t \<longleftrightarrow> False"
| "place_ok m ts (Exit_take u) t \<longleftrightarrow> False"
| "place_ok m ts Outside t \<longleftrightarrow> True"
| "place_ok m ts Check t \<longleftrightarrow> True"

definition cpu_ok :: "mem \<Rightarrow> u64 list \<Rightarrow> pc \<Rightarrow> u64 \<Rightarrow> bool" where
  "cpu_ok m ts p t \<longleftrightarrow> place_ok m ts p t \<and>
     (t \<noteq> 0 \<longrightarrow> t \<in> set ts \<and> (if switching p then runnable m t else running m t))"

definition lock_ok :: "smp \<Rightarrow> bool" where
  "lock_ok s \<longleftrightarrow> (\<forall>c d. holder (pc s c) \<longrightarrow> holder (pc s d) \<longrightarrow> c = d) \<and> (sched_lock s \<noteq> 0 \<longleftrightarrow> (\<exists>c. holder (pc s c)))"

definition smp_inv :: "smp \<Rightarrow> bool" where
  "smp_inv s \<longleftrightarrow> tasks_apart (tasks s) \<and> tasks s \<noteq> [] \<and> lock_ok s \<and>
     (\<forall>c. cpu_ok (tmem s) (tasks s) (pc s c) (cur s c)) \<and>
     (\<forall>c d. cur s c \<noteq> 0 \<longrightarrow> cur s c = cur s d \<longrightarrow> c = d) \<and>
     (\<forall>x \<in> set (tasks s). x \<noteq> 0 \<longrightarrow> running (tmem s) x \<longrightarrow> (\<exists>c. cur s c = x))"

lemma cpu_ok_other:
  assumes "cpu_ok m ts p t" "\<not> holder p" "t \<noteq> 0 \<Longrightarrow> get_state m' t = get_state m t"
  shows "cpu_ok m' ts p t"
  using assms by (cases p) (auto simp: cpu_ok_def)

text \<open>What a step of the processor \<open>c\<close> has to respect.\<close>

lemma smp_inv_stepI:
  assumes inv: "smp_inv s" and same: "tasks s' = tasks s" "\<And>d. d \<noteq> c \<Longrightarrow> pc s' d = pc s d" "\<And>d. d \<noteq> c \<Longrightarrow> cur s' d = cur s d"
    and lock: "lock_ok s'"
    and cpu: "cpu_ok (tmem s') (tasks s) (pc s' c) (cur s' c)"
    and states: "\<And>x. x \<in> set (tasks s) \<Longrightarrow> x \<noteq> 0 \<Longrightarrow> get_state (tmem s') x \<noteq> get_state (tmem s) x \<Longrightarrow>
      holder (pc s c) \<and> (x = cur s c \<or> \<not> running (tmem s) x)"
    and holders: "holder (pc s' c) \<Longrightarrow> \<not> holder (pc s c) \<Longrightarrow> sched_lock s = 0"
    and new: "cur s' c \<noteq> 0 \<Longrightarrow> cur s' c \<noteq> cur s c \<Longrightarrow> holder (pc s c) \<and> \<not> running (tmem s) (cur s' c)"
    and run: "\<And>x. x \<in> set (tasks s) \<Longrightarrow> x \<noteq> 0 \<Longrightarrow> running (tmem s') x \<Longrightarrow>
      x = cur s' c \<or> running (tmem s) x \<and> (x \<noteq> cur s c)"
  shows "smp_inv s'"
proof -
  have I: "tasks_apart (tasks s)" "tasks s \<noteq> []" "lock_ok s"
    and ok: "\<And>c. cpu_ok (tmem s) (tasks s) (pc s c) (cur s c)"
    and dist: "\<And>c d. cur s c \<noteq> 0 \<Longrightarrow> cur s c = cur s d \<Longrightarrow> c = d"
    and surj: "\<And>x. x \<in> set (tasks s) \<Longrightarrow> x \<noteq> 0 \<Longrightarrow> running (tmem s) x \<Longrightarrow> \<exists>c. cur s c = x"
    using inv by (auto simp: smp_inv_def)
  have nh: "\<not> holder (pc s d)" if "d \<noteq> c" "holder (pc s c)" for d
    using that I(3) by (auto simp: lock_ok_def)
  have run_other: "running (tmem s) (cur s d)" if "d \<noteq> c" "holder (pc s c)" "cur s d \<noteq> 0" for d
    using ok [of d] nh [OF that(1,2)] that(3) by (cases "pc s d") (auto simp: cpu_ok_def)
  have others: "cpu_ok (tmem s') (tasks s) (pc s d) (cur s d)" if d: "d \<noteq> c" for d
  proof (cases "holder (pc s d)")
    case True
    then have "\<not> holder (pc s c)" using d nh by blast
    then have "get_state (tmem s') x = get_state (tmem s) x" if "x \<in> set (tasks s)" "x \<noteq> 0" for x
      using states that by blast
    then show ?thesis using ok [of d] by (cases "pc s d") (auto simp: cpu_ok_def)
  next
    case False
    have "get_state (tmem s') (cur s d) = get_state (tmem s) (cur s d)" if "cur s d \<noteq> 0"
    proof (rule ccontr)
      assume ne: "get_state (tmem s') (cur s d) \<noteq> get_state (tmem s) (cur s d)"
      have "cur s d \<in> set (tasks s)" using ok [of d] that by (simp add: cpu_ok_def)
      then have "holder (pc s c)" "cur s d = cur s c \<or> \<not> running (tmem s) (cur s d)" using states ne that by blast+
      then show False using run_other [OF d _ that] dist [OF that, of c] d by blast
    qed
    then show ?thesis using cpu_ok_other [OF ok False] by blast
  qed
  have "cpu_ok (tmem s') (tasks s) (pc s' d) (cur s' d)" for d
    using others [of d] cpu same by (cases "d = c") simp_all
  moreover have "d = e" if "cur s' d \<noteq> 0" "cur s' d = cur s' e" for d e
  proof -
    have *: False if e: "e \<noteq> c" "cur s' c = cur s e" "cur s' c \<noteq> 0" for e
    proof (cases "cur s' c = cur s c")
      case True
      then show ?thesis using dist [of e c] e by simp
    next
      case False
      then show ?thesis using new run_other [OF e(1)] e by force
    qed
    show ?thesis
    proof (rule ccontr)
      assume "d \<noteq> e"
      then show False using * [of d] * [of e] dist [of d e] that same(3) by (cases "d = c"; cases "e = c") auto
    qed
  qed
  moreover have "\<exists>d. cur s' d = x" if x: "x \<in> set (tasks s)" "x \<noteq> 0" "running (tmem s') x" for x
  proof (cases "x = cur s' c")
    case False
    then have r: "running (tmem s) x" "x \<noteq> cur s c" using run [OF x] by simp_all
    then obtain d where "cur s d = x" using surj x by blast
    then show ?thesis using r(2) same(3) [of d] by (intro exI [of _ d]) (cases "d = c"; simp)
  qed auto
  ultimately show ?thesis using I(1,2) lock same(1) by (simp add: smp_inv_def)
qed

text \<open>The fields of the machine after a step.\<close>

lemma smp_fields [simp]:
  "pc (goto c l s) = (pc s)(c := l)" "cur (goto c l s) = cur s" "sched_lock (goto c l s) = sched_lock s"
  "tmem (goto c l s) = tmem s" "tasks (goto c l s) = tasks s"
  "pc (set_cur c t s) = pc s" "cur (set_cur c t s) = (cur s)(c := t)" "sched_lock (set_cur c t s) = sched_lock s"
  "tmem (set_cur c t s) = tmem s" "tasks (set_cur c t s) = tasks s"
  "pc (set_tmem m s) = pc s" "cur (set_tmem m s) = cur s" "sched_lock (set_tmem m s) = sched_lock s"
  "tmem (set_tmem m s) = m" "tasks (set_tmem m s) = tasks s"
  "tmem (s\<lparr>sched_lock := v\<rparr>) = tmem s" "tasks (s\<lparr>sched_lock := v\<rparr>) = tasks s"
  by (simp_all add: smp_defs)

text \<open>The lock under a step of the processor \<open>c\<close>.\<close>

lemma lock_ok_keep:
  assumes "lock_ok s" "holder l = holder (pc s c)"
  shows "lock_ok (goto c l s)"
proof -
  have "holder (((pc s)(c := l)) d) = holder (pc s d)" for d using assms(2) by simp
  then show ?thesis using assms(1) by (simp add: lock_ok_def)
qed

lemma lock_ok_sets [simp]:
  "lock_ok (goto c l (set_tmem m s)) = lock_ok (goto c l s)" "lock_ok (goto c l (set_cur d t s)) = lock_ok (goto c l s)"
  by (simp_all add: lock_ok_def)

lemma lock_ok_xchg:
  assumes "lock_ok s" "pc s c = Spin i" "holder l = (sched_lock s = 0)"
  shows "lock_ok (goto c l (s\<lparr>sched_lock := 1\<rparr>))"
proof (cases "sched_lock s = 0")
  case True
  then show ?thesis using assms unfolding lock_ok_def by auto
next
  case False
  then obtain d where d: "holder (pc s d)" using assms(1) by (auto simp: lock_ok_def)
  then have "d \<noteq> c" using assms(2) by auto
  then have "holder (((pc s)(c := l)) d)" using d by simp
  then have "\<exists>d. holder (((pc s)(c := l)) d)" by blast
  then show ?thesis using False assms unfolding lock_ok_def by (simp del: fun_upd_apply) auto
qed

lemma lock_ok_release:
  assumes "lock_ok s" "holder (pc s c)" "\<not> holder l"
  shows "lock_ok (goto c l (s\<lparr>sched_lock := spin_unlock v\<rparr>))"
  using assms unfolding lock_ok_def by (auto simp: spin_unlock_def)

text \<open>Stores into the fields of the current task keep all states.\<close>

lemma frames_decrease: "decrease_task_couter m t = (m', v) \<Longrightarrow> frames m m' [(t, 373)] \<and> get_state m' t = get_state m t"
  using frames_tset [of m t Counter] by (auto simp: decrease_task_couter_def Let_def)

lemma frames_first_flag: "frames m (first_flag m t) [(t, 373)] \<and> get_state (first_flag m t) t = get_state m t"
  using frames_first_sched [of m t 0] by (simp add: first_flag_def reset_first_sched_flag_def)

lemma smp_invD:
  assumes "smp_inv s"
  shows "tasks_apart (tasks s)" "tasks s \<noteq> []" "lock_ok s" "cpu_ok (tmem s) (tasks s) (pc s c) (cur s c)"
  using assms by (auto simp: smp_inv_def)

text \<open>A step that changes no current task and no state.\<close>

lemma smp_inv_quiet:
  assumes inv: "smp_inv s" and lock: "lock_ok (goto c l (s\<lparr>sched_lock := v\<rparr>))"
    and m: "\<And>x. x \<in> set (tasks s) \<Longrightarrow> x \<noteq> 0 \<Longrightarrow> get_state m x = get_state (tmem s) x"
    and h: "holder l \<Longrightarrow> \<not> holder (pc s c) \<Longrightarrow> sched_lock s = 0"
    and p: "place_ok m (tasks s) l (cur s c)" and sw: "cur s c \<noteq> 0 \<Longrightarrow> \<not> switching l \<and> \<not> switching (pc s c)"
  shows "smp_inv (goto c l (set_tmem m (s\<lparr>sched_lock := v\<rparr>)))"
proof (rule smp_inv_stepI [OF inv, of _ c])
  have ok: "cpu_ok (tmem s) (tasks s) (pc s c) (cur s c)" using smp_invD [OF inv] by blast
  have c: "cur s c \<noteq> 0 \<Longrightarrow> cur s c \<in> set (tasks s) \<and> running (tmem s) (cur s c)" using ok sw by (simp add: cpu_ok_def)
  then show "cpu_ok (tmem (goto c l (set_tmem m (s\<lparr>sched_lock := v\<rparr>)))) (tasks s)
      (pc (goto c l (set_tmem m (s\<lparr>sched_lock := v\<rparr>))) c) (cur (goto c l (set_tmem m (s\<lparr>sched_lock := v\<rparr>))) c)"
    using p sw m by (simp add: cpu_ok_def)
qed (use lock m h in auto)

lemma set_tmem_id [simp]: "set_tmem (tmem s) s = s"
  by (simp add: smp_defs)

lemma lock_id [simp]: "s\<lparr>sched_lock := sched_lock s\<rparr> = s"
  by simp

text \<open>The stores of the handlers into the current task.\<close>

lemma frame_states:
  assumes "tasks_apart ts" "t \<in> set ts" "t \<noteq> 0" "frames m m' [(t, 373)] \<and> get_state m' t = get_state m t" "x \<in> set ts" "x \<noteq> 0"
  shows "get_state m' x = get_state m x"
  using state_frame [OF assms(1-3) _ refl assms(5,6), of m m'] assms(4) by auto

lemma cur_in_tasks: "smp_inv s \<Longrightarrow> cur s c \<noteq> 0 \<Longrightarrow> cur s c \<in> set (tasks s)"
  by (simp add: smp_inv_def cpu_ok_def)

lemma smp_inv_store:
  assumes inv: "smp_inv s" and fr: "frames (tmem s) m [(cur s c, 373)] \<and> get_state m (cur s c) = get_state (tmem s) (cur s c)"
    and cur: "cur s c \<noteq> 0" and h: "holder l = holder (pc s c)" and sw: "\<not> switching l" "\<not> switching (pc s c)"
    and p: "place_ok m (tasks s) l (cur s c)"
  shows "smp_inv (goto c l (set_tmem m s))"
proof -
  note t = cur_in_tasks [OF inv cur]
  have m: "get_state m x = get_state (tmem s) x" if "x \<in> set (tasks s)" "x \<noteq> 0" for x
    using frame_states [OF smp_invD(1) [OF inv] t cur fr that] .
  have "lock_ok (goto c l s)" using smp_invD(3) [OF inv] h by (intro lock_ok_keep)
  then show ?thesis
    using smp_inv_quiet [OF inv, of c l "sched_lock s" m] m h sw p by auto
qed

lemma smp_inv_expired:
  assumes inv: "smp_inv s" and pc: "pc s c = Expired" and m: "m = set_task_esp0 (set_task_waiting (tmem s) (cur s c)) (cur s c) rsp"
  shows "smp_inv (goto c (Choose Timer) (set_tmem m s))"
proof -
  have ok: "cur s c \<noteq> 0" "cur s c \<in> set (tasks s)" "running (tmem s) (cur s c)"
    using smp_invD(4) [OF inv, of c] pc by (auto simp: cpu_ok_def)
  have "frames (tmem s) m [(cur s c, 373)]" "get_state m (cur s c) = state_code TASK_WAITING"
    unfolding m set_task_esp0_def set_task_waiting_def
    by (rule frames_trans_same [OF frames_set_state frames_tset], simp)
  then have st: "get_state m x = (if x = cur s c then state_code TASK_WAITING else get_state (tmem s) x)"
    if "x \<in> set (tasks s)" "x \<noteq> 0" for x
    using state_frame [OF smp_invD(1) [OF inv] ok(2,1) _ _ that] by blast
  show ?thesis
    by (rule smp_inv_stepI [OF inv, of _ c])
      (use ok st pc smp_invD(3) [OF inv] in \<open>auto simp: cpu_ok_def intro!: lock_ok_keep split: if_splits\<close>)
qed

lemma smp_inv_choose:
  assumes inv: "smp_inv s" and pc: "pc s c = Choose i" and ch: "choose_task (tmem s) (tasks s) = (m, t)"
  shows "smp_inv (goto c (Take i t) (set_tmem m s))"
proof -
  note C = choose_task_states [OF smp_invD(1,2) [OF inv] ch]
  have ok: "i = Broadcast \<Longrightarrow> cur s c = 0" "cur s c \<noteq> 0 \<Longrightarrow> cur s c \<in> set (tasks s)" "cur s c \<noteq> 0 \<Longrightarrow> runnable (tmem s) (cur s c)"
    using smp_invD(4) [OF inv, of c] pc by (auto simp: cpu_ok_def)
  have t0: "t = 0 \<Longrightarrow> cur s c = 0" using C(3) [of "cur s c"] ok(2,3) by blast
  have r: "cur s c \<noteq> 0 \<Longrightarrow> runnable m (cur s c)" using C(1) ok(2,3) by (auto simp del: state_code.simps)
  have st: "get_state m x = get_state (tmem s) x \<or> get_state (tmem s) x = state_code TASK_WAITING \<and> get_state m x = state_code TASK_READY"
    if "x \<in> set (tasks s)" "x \<noteq> 0" for x using C(1) that by blast
  show ?thesis
  proof (rule smp_inv_stepI [OF inv, of _ c])
    show "cpu_ok (tmem (goto c (Take i t) (set_tmem m s))) (tasks s) (pc (goto c (Take i t) (set_tmem m s)) c)
       (cur (goto c (Take i t) (set_tmem m s)) c)"
      using ok r t0 C(2) by (auto simp: cpu_ok_def simp del: state_code.simps)
    show "lock_ok (goto c (Take i t) (set_tmem m s))" using smp_invD(3) [OF inv] pc by (auto intro!: lock_ok_keep)
    fix x
    assume x: "x \<in> set (tasks s)" "x \<noteq> 0"
    { assume "get_state (tmem (goto c (Take i t) (set_tmem m s))) x \<noteq> get_state (tmem s) x"
      then show "holder (pc s c) \<and> (x = cur s c \<or> \<not> running (tmem s) x)" using st [OF x] pc by auto }
    assume "running (tmem (goto c (Take i t) (set_tmem m s))) x"
    then have "running (tmem s) x" using st [OF x] by auto
    moreover from this have "x \<noteq> cur s c" using ok(3) x by auto
    ultimately show "x = cur (goto c (Take i t) (set_tmem m s)) c \<or> running (tmem s) x \<and> x \<noteq> cur s c" by blast
  qed (use pc in auto)
qed

lemma smp_inv_take:
  assumes inv: "smp_inv s" and pc: "pc s c = Take i t" and t0: "t \<noteq> 0"
    and m: "m = set_task_running (set_state (tmem s) t TASK_RUNNING) t"
    and l: "l = (case i of Timer \<Rightarrow> First | Broadcast \<Rightarrow> Release True)"
  shows "smp_inv (goto c l (set_cur c t (set_tmem m s)))"
proof -
  have ok: "t \<in> set (tasks s)" "get_state (tmem s) t = state_code TASK_READY" "cur s c \<noteq> 0 \<Longrightarrow> runnable (tmem s) (cur s c)"
    using smp_invD(4) [OF inv, of c] pc t0 by (auto simp: cpu_ok_def)
  have "frames (tmem s) m [(t, 373)]" "get_state m t = state_code TASK_RUNNING"
    unfolding m set_task_running_def by (rule frames_trans_same [OF frames_set_state frames_set_state], simp)
  then have st: "get_state m x = (if x = t then state_code TASK_RUNNING else get_state (tmem s) x)"
    if "x \<in> set (tasks s)" "x \<noteq> 0" for x
    using state_frame [OF smp_invD(1) [OF inv] ok(1) t0 _ _ that] by blast
  have hl: "holder l" "\<not> switching l" "place_ok m (tasks s) l t" using l t0 by (simp_all split: irq.splits)
  show ?thesis
  proof (rule smp_inv_stepI [OF inv, of _ c])
    show "lock_ok (goto c l (set_cur c t (set_tmem m s)))"
      using smp_invD(3) [OF inv] pc hl(1) by (auto intro!: lock_ok_keep)
    show "cpu_ok (tmem (goto c l (set_cur c t (set_tmem m s)))) (tasks s) (pc (goto c l (set_cur c t (set_tmem m s))) c)
       (cur (goto c l (set_cur c t (set_tmem m s))) c)"
      using ok(1) hl st [OF ok(1) t0] by (simp add: cpu_ok_def)
    fix x
    assume x: "x \<in> set (tasks s)" "x \<noteq> 0"
    { assume "get_state (tmem (goto c l (set_cur c t (set_tmem m s)))) x \<noteq> get_state (tmem s) x"
      then show "holder (pc s c) \<and> (x = cur s c \<or> \<not> running (tmem s) x)" using st [OF x] ok(2) pc by (auto split: if_splits) }
    assume "running (tmem (goto c l (set_cur c t (set_tmem m s)))) x"
    then show "x = cur (goto c l (set_cur c t (set_tmem m s))) c \<or> running (tmem s) x \<and> x \<noteq> cur s c"
      using st [OF x] ok(3) x by (auto split: if_splits)
  qed (use pc ok hl in auto)
qed

lemma smp_inv_move:
  assumes "smp_inv s" "holder l = holder (pc s c)" "place_ok (tmem s) (tasks s) l (cur s c)"
    and "cur s c \<noteq> 0 \<Longrightarrow> \<not> switching l \<and> \<not> switching (pc s c)"
  shows "smp_inv (goto c l s)"
  using smp_inv_quiet [OF assms(1), of c l "sched_lock s" "tmem s"] lock_ok_keep [OF smp_invD(3) [OF assms(1)] assms(2)] assms
  by simp

lemma handler_step_inv: "handler_step s s' \<Longrightarrow> smp_inv s \<Longrightarrow> smp_inv s'"
proof (induction rule: handler_step.induct)
  case (timer s c)
  then show ?case by (intro smp_inv_move) auto
next
  case (broadcast s c)
  then show ?case by (intro smp_inv_move) auto
next
  case (xchg s c i l)
  have "lock_ok (goto c l (s\<lparr>sched_lock := 1\<rparr>))"
    using xchg smp_invD(3) [of s] by (intro lock_ok_xchg) (auto split: irq.splits)
  moreover have "place_ok (tmem s) (tasks s) l (cur s c)"
    using smp_invD(4) [OF xchg.prems, of c] xchg by (auto simp: cpu_ok_def split: irq.splits)
  moreover have "cur s c \<noteq> 0 \<Longrightarrow> i = Timer" using smp_invD(4) [OF xchg.prems, of c] xchg by (cases i) (auto simp: cpu_ok_def)
  ultimately have "smp_inv (goto c l (set_tmem (tmem s) (s\<lparr>sched_lock := 1\<rparr>)))"
    using xchg by (intro smp_inv_quiet) (auto split: irq.splits if_splits)
  moreover have "set_tmem (tmem s) (s\<lparr>sched_lock := 1\<rparr>) = s\<lparr>sched_lock := 1\<rparr>" by (simp add: smp_defs)
  ultimately show ?case by simp
next
  case (check_idle s c)
  then show ?case by (intro smp_inv_move) auto
next
  case (check_task s c m v)
  then show ?case using frames_decrease [OF check_task(3)] by (intro smp_inv_store) auto
next
  case (expired s c m rsp)
  then show ?case by (intro smp_inv_expired)
next
  case (choose s c i m t)
  then show ?case by (intro smp_inv_choose)
next
  case (take_none s c i)
  then have "cur s c = 0" using smp_invD(4) [of s c] by (simp add: cpu_ok_def)
  then show ?case using take_none by (intro smp_inv_move) auto
next
  case (take s c i t m l)
  then show ?case by (intro smp_inv_take)
next
  case (first s c)
  then have "cur s c \<noteq> 0" using smp_invD(4) [of s c] by (simp add: cpu_ok_def)
  then show ?case using first frames_first_flag [of "tmem s" "cur s c"] by (intro smp_inv_store) auto
next
  case (release s c b)
  let ?l = "if b then Late_first else Outside"
  have "lock_ok (goto c ?l (s\<lparr>sched_lock := spin_unlock (sched_lock s)\<rparr>))"
    using release smp_invD(3) [of s] by (intro lock_ok_release) auto
  moreover have "b \<Longrightarrow> cur s c \<noteq> 0" using smp_invD(4) [OF release.prems, of c] release by (simp add: cpu_ok_def)
  ultimately have "smp_inv (goto c ?l (set_tmem (tmem s) (s\<lparr>sched_lock := spin_unlock (sched_lock s)\<rparr>)))"
    using release by (intro smp_inv_quiet) auto
  then show ?case by (simp add: smp_defs)
next
  case (late_first s c)
  then have "cur s c \<noteq> 0" using smp_invD(4) [of s c] by (simp add: cpu_ok_def)
  then show ?case using late_first frames_first_flag [of "tmem s" "cur s c"] by (intro smp_inv_store) auto
qed

definition smp_start :: "smp \<Rightarrow> bool" where
  "smp_start s \<longleftrightarrow> (\<forall>c. pc s c = Outside \<and> cur s c = 0) \<and> sched_lock s = 0 \<and> tasks_apart (tasks s) \<and> tasks s \<noteq> [] \<and>
     (\<forall>x \<in> set (tasks s). x \<noteq> 0 \<longrightarrow> \<not> running (tmem s) x)"

lemma smp_start_inv: "smp_start s \<Longrightarrow> smp_inv s"
  by (auto simp: smp_start_def smp_inv_def lock_ok_def cpu_ok_def)

lemma handler_steps_inv: "handler_step\<^sup>*\<^sup>* s s' \<Longrightarrow> smp_inv s \<Longrightarrow> smp_inv s'"
  by (induction rule: rtranclp_induct) (auto intro: handler_step_inv)

section \<open>The lock is released again\<close>

text \<open>The holder \<open>c\<close> alone gets out of the handler; \<open>ends s c\<close> says so.\<close>

definition ends :: "smp \<Rightarrow> nat \<Rightarrow> bool" where
  "ends s c \<longleftrightarrow> (\<exists>s'. handler_step\<^sup>*\<^sup>* s s' \<and> sched_lock s' = 0 \<and> \<not> holder (pc s' c) \<and> (cur s c \<noteq> 0 \<longrightarrow> cur s' c \<noteq> 0) \<and>
     (\<forall>d. d \<noteq> c \<longrightarrow> pc s' d = pc s d \<and> cur s' d = cur s d))"

lemma ends_step:
  assumes "handler_step s t" "ends t c" "cur s c \<noteq> 0 \<longrightarrow> cur t c \<noteq> 0" "\<And>d. d \<noteq> c \<Longrightarrow> pc t d = pc s d \<and> cur t d = cur s d"
  shows "ends s c"
proof -
  obtain u where "handler_step\<^sup>*\<^sup>* t u" "sched_lock u = 0" "\<not> holder (pc u c)" "cur t c \<noteq> 0 \<longrightarrow> cur u c \<noteq> 0"
    "\<forall>d. d \<noteq> c \<longrightarrow> pc u d = pc t d \<and> cur u d = cur t d"
    using assms(2) unfolding ends_def by blast
  moreover from this have "handler_step\<^sup>*\<^sup>* s u" using assms(1) by (meson converse_rtranclp_into_rtranclp)
  ultimately show ?thesis using assms(3,4) unfolding ends_def by (intro exI [of _ u]) simp
qed

lemma ends_release: "pc s c = Release b \<Longrightarrow> ends s c"
  unfolding ends_def by (rule exI, rule conjI [OF r_into_rtranclp [of handler_step, OF release]]) (auto simp: spin_unlock_def)

lemma ends_first: "pc s c = First \<Longrightarrow> ends s c"
  by (rule ends_step [OF first]) (auto intro: ends_release)

lemma ends_take: "pc s c = Take i t \<Longrightarrow> smp_inv s \<Longrightarrow> ends s c"
proof (cases "t = 0")
  case True
  assume "pc s c = Take i t"
  then have pc: "pc s c = Take i 0" using True by simp
  show ?thesis by (rule ends_step [OF take_none [OF pc]]) (auto intro: ends_release)
next
  case False
  assume pc: "pc s c = Take i t"
  show ?thesis
  proof (cases i)
    case Timer
    show ?thesis by (rule ends_step [OF take [OF pc False refl refl]]) (use Timer False in \<open>auto intro: ends_first\<close>)
  next
    case Broadcast
    show ?thesis by (rule ends_step [OF take [OF pc False refl refl]]) (use Broadcast False in \<open>auto intro: ends_release\<close>)
  qed
qed

lemma ends_choose: "pc s c = Choose i \<Longrightarrow> smp_inv s \<Longrightarrow> ends s c"
proof -
  assume pc: "pc s c = Choose i" and inv: "smp_inv s"
  obtain m t where ch: "choose_task (tmem s) (tasks s) = (m, t)" by fastforce
  show ?thesis
    by (rule ends_step [OF choose [OF pc ch]]) (use smp_inv_choose [OF inv pc ch] in \<open>auto intro: ends_take\<close>)
qed

lemma ends_expired: "pc s c = Expired \<Longrightarrow> smp_inv s \<Longrightarrow> ends s c"
  by (rule ends_step [OF expired [OF _ refl]]) (auto intro: ends_choose smp_inv_expired)

lemma ends_check: "pc s c = Check \<Longrightarrow> smp_inv s \<Longrightarrow> ends s c"
proof -
  assume pc: "pc s c = Check" and inv: "smp_inv s"
  show ?thesis
  proof (cases "cur s c = 0")
    case True
    note st = check_idle [OF pc True]
    show ?thesis by (rule ends_step [OF st]) (use handler_step_inv [OF st inv] in \<open>auto intro: ends_choose\<close>)
  next
    case False
    obtain m v where d: "decrease_task_couter (tmem s) (cur s c) = (m, v)" by fastforce
    note st = check_task [OF pc False d]
    show ?thesis by (rule ends_step [OF st]) (use handler_step_inv [OF st inv] in \<open>auto intro: ends_release ends_expired\<close>)
  qed
qed

lemma holder_ends: "smp_inv s \<Longrightarrow> holder (pc s c) \<Longrightarrow> ends s c"
  by (cases "pc s c") (auto intro: ends_release ends_first ends_take ends_choose ends_expired ends_check)

text \<open>
  Every other execution, too: \<open>steps_left\<close> bounds the own steps of a processor in the
  part that the lock protects, each of which moves it on; a step of another
  processor leaves it where it is.
\<close>

fun steps_left :: "pc \<Rightarrow> nat" where
  "steps_left Check = 6" | "steps_left Expired = 5" | "steps_left (Choose i) = 4" | "steps_left (Take i t) = 3"
| "steps_left First = 2" | "steps_left (Release b) = 1" | "steps_left p = 0"

lemma holder_steps_left: "holder p \<longleftrightarrow> 0 < steps_left p"
  by (cases p) simp_all

lemma holder_step:
  assumes "handler_step s t" "holder (pc s c)"
  shows "pc t c = pc s c \<and> cur t c = cur s c \<or>
    steps_left (pc t c) < steps_left (pc s c) \<and> (cur s c \<noteq> 0 \<longrightarrow> cur t c \<noteq> 0) \<and> (\<not> holder (pc t c) \<longrightarrow> sched_lock t = 0)"
  using assms by (induction rule: handler_step.induct) (auto simp: spin_unlock_def split: irq.splits)

lemma holder_enabled:
  assumes "holder (pc s c)"
  shows "\<exists>t. handler_step s t \<and> pc t c \<noteq> pc s c"
proof (cases "pc s c")
  case Check
  obtain m v where d: "decrease_task_couter (tmem s) (cur s c) = (m, v)" by fastforce
  show ?thesis
    using check_idle [OF Check] check_task [OF Check _ d] Check by (cases "cur s c = 0") (fastforce split: if_splits)+
next
  case Expired
  then show ?thesis using expired [OF Expired refl] by fastforce
next
  case (Choose i)
  obtain m t where "choose_task (tmem s) (tasks s) = (m, t)" by fastforce
  from choose [OF Choose this] show ?thesis using Choose by fastforce
next
  case (Take i t)
  show ?thesis
  proof (cases "t = 0")
    case True
    then show ?thesis using take_none [of s c i] Take by fastforce
  next
    case False
    from take [OF Take False refl refl] Take show ?thesis by (cases i) fastforce+
  qed
next
  case First
  then show ?thesis using first [OF First] by fastforce
next
  case (Release b)
  then show ?thesis using release [OF Release] by (cases b) fastforce+
qed (use assms in auto)

text \<open>The executions in which the processor \<open>c\<close> holds the lock up to the last step, with the number of its own steps.\<close>

inductive held_run :: "nat \<Rightarrow> nat \<Rightarrow> smp \<Rightarrow> smp \<Rightarrow> bool" for c where
  held_start: "held_run c 0 s s"
| held_step: "held_run c n s t \<Longrightarrow> holder (pc t c) \<Longrightarrow> handler_step t u \<Longrightarrow>
    held_run c (if pc u c = pc t c then n else Suc n) s u"

lemma held_run_bound:
  assumes "held_run c n s t" "holder (pc s c)"
  shows "n + steps_left (pc t c) \<le> steps_left (pc s c) \<and> (cur s c \<noteq> 0 \<longrightarrow> cur t c \<noteq> 0) \<and> (\<not> holder (pc t c) \<longrightarrow> sched_lock t = 0)"
  using assms
proof (induction rule: held_run.induct)
  case (held_step n s t u)
  then show ?case using holder_step [OF held_step(3,2)] by (cases "pc u c = pc t c") auto
qed simp

section \<open>Properties\<close>

text \<open>C5.
  However the timer and the broadcast interrupts of the processors interleave,
  from a start with no running task: at most one processor is in the part of the
  handlers that the lock protects, the lock word is set exactly while one is, no two
  processors have the same current task, a processor outside of the handlers has no
  task or a RUNNING one of the table, and every RUNNING task of the table is the
  current task of a processor.
\<close>

theorem smp_no_task_twice:
  assumes "smp_start s0" and "handler_step\<^sup>*\<^sup>* s0 s"
  shows "(\<forall>c d. holder (pc s c) \<and> holder (pc s d) \<longrightarrow> c = d) \<and>
    (sched_lock s \<noteq> 0 \<longleftrightarrow> (\<exists>c. holder (pc s c))) \<and>
    (\<forall>c d. cur s c \<noteq> 0 \<and> cur s c = cur s d \<longrightarrow> c = d) \<and>
    (\<forall>c. pc s c = Outside \<and> cur s c \<noteq> 0 \<longrightarrow> cur s c \<in> set (tasks s) \<and> get_state (tmem s) (cur s c) = state_code TASK_RUNNING) \<and>
    (\<forall>x \<in> set (tasks s). x \<noteq> 0 \<and> get_state (tmem s) x = state_code TASK_RUNNING \<longrightarrow> (\<exists>c. cur s c = x))"
proof -
  have inv: "smp_inv s" using handler_steps_inv [OF assms(2) smp_start_inv [OF assms(1)]] .
  have "\<forall>c. pc s c = Outside \<and> cur s c \<noteq> 0 \<longrightarrow> cur s c \<in> set (tasks s) \<and> get_state (tmem s) (cur s c) = state_code TASK_RUNNING"
    using smp_invD(4) [OF inv] by (metis cpu_ok_def switching.simps(3))
  moreover have "\<forall>c d. holder (pc s c) \<and> holder (pc s d) \<longrightarrow> c = d" "sched_lock s \<noteq> 0 \<longleftrightarrow> (\<exists>c. holder (pc s c))"
    using smp_invD(3) [OF inv] by (simp_all add: lock_ok_def)
  moreover have "\<forall>c d. cur s c \<noteq> 0 \<and> cur s c = cur s d \<longrightarrow> c = d"
    "\<forall>x \<in> set (tasks s). x \<noteq> 0 \<and> get_state (tmem s) x = state_code TASK_RUNNING \<longrightarrow> (\<exists>c. cur s c = x)"
    using inv unfolding smp_inv_def by (simp, blast, simp)
  ultimately show ?thesis by (intro conjI)
qed

definition two_ready :: smp where
  "two_ready = \<lparr>ctx = no_tasks\<lparr>kh := (kh no_tasks)\<lparr>kmem := two_tasks\<rparr>, g_tasks := [0x1000, 0, 0x2000]\<rparr>,
     sched_lock = 0, cur = (\<lambda>_. 0), pc = (\<lambda>_. Outside)\<rparr>"

lemma two_ready_fields [simp]:
  "tmem two_ready = two_tasks" "tasks two_ready = [0x1000, 0, 0x2000]" "pc two_ready c = Outside" "cur two_ready c = 0"
  "sched_lock two_ready = 0"
  by (simp_all add: two_ready_def tmem_def tasks_def)

lemma two_tasks_ready: "get_state two_tasks 0x1000 = state_code TASK_READY" "get_state two_tasks 0x2000 = state_code TASK_READY"
  by (simp_all add: two_tasks_def get_state_def rd32_def load_def upt_rec)

lemma two_ready_start: "smp_start two_ready"
  using two_tasks_facts(1) two_tasks_ready by (auto simp: smp_start_def)

lemma rtranclp_two: "r a b \<Longrightarrow> r b c \<Longrightarrow> r\<^sup>*\<^sup>* a c"
  by (rule converse_rtranclp_into_rtranclp [OF _ r_into_rtranclp])

theorem smp_no_task_twice_witness:
  "\<exists>s. handler_step two_ready s \<and> sched_lock s = 0 \<and> (\<forall>c d. cur s c \<noteq> 0 \<and> cur s c = cur s d \<longrightarrow> c = d)"
proof -
  have "handler_step two_ready (goto 0 (Spin Timer) two_ready)" by (rule timer) simp
  moreover from smp_no_task_twice [OF two_ready_start r_into_rtranclp, OF this]
  have "\<forall>c d. cur (goto 0 (Spin Timer) two_ready) c \<noteq> 0 \<and> cur (goto 0 (Spin Timer) two_ready) c = cur (goto 0 (Spin Timer) two_ready) d \<longrightarrow> c = d"
    by (elim conjE)
  ultimately show ?thesis by (intro exI [of _ "goto 0 (Spin Timer) two_ready"]) simp
qed

text \<open>C6.
  A processor that holds the lock gets out of the handler in at most six steps of its
  own, however the steps of the others come between: as long as it holds the lock it
  has a step that moves it on, every step that moves it counts, and when it has left
  the lock is released and it is not without a task if it had one (the task whose
  time slice is over is itself a candidate for the choice). In particular it can
  leave with the others staying where they are.
\<close>

theorem smp_lock_released:
  assumes "smp_start s0" and "handler_step\<^sup>*\<^sup>* s0 s" and "holder (pc s c)"
  shows "(\<forall>n t. held_run c n s t \<longrightarrow> n \<le> 6 \<and>
      (if holder (pc t c) then \<exists>u. handler_step t u \<and> pc u c \<noteq> pc t c
       else sched_lock t = 0 \<and> (cur s c \<noteq> 0 \<longrightarrow> cur t c \<noteq> 0))) \<and>
    (\<exists>s'. handler_step\<^sup>*\<^sup>* s s' \<and> sched_lock s' = 0 \<and> \<not> holder (pc s' c) \<and> (cur s c \<noteq> 0 \<longrightarrow> cur s' c \<noteq> 0) \<and>
      (\<forall>d. d \<noteq> c \<longrightarrow> pc s' d = pc s d \<and> cur s' d = cur s d))"
proof (intro conjI allI impI)
  fix n t
  assume "held_run c n s t"
  then have b: "n + steps_left (pc t c) \<le> steps_left (pc s c)" "cur s c \<noteq> 0 \<longrightarrow> cur t c \<noteq> 0" "\<not> holder (pc t c) \<longrightarrow> sched_lock t = 0"
    using held_run_bound assms(3) by blast+
  moreover have "steps_left (pc s c) \<le> 6" by (cases "pc s c") simp_all
  ultimately show "n \<le> 6" by linarith
  show "if holder (pc t c) then \<exists>u. handler_step t u \<and> pc u c \<noteq> pc t c else sched_lock t = 0 \<and> (cur s c \<noteq> 0 \<longrightarrow> cur t c \<noteq> 0)"
    using b holder_enabled by simp
qed (use holder_ends [OF handler_steps_inv [OF assms(2) smp_start_inv [OF assms(1)]] assms(3)] in \<open>unfold ends_def\<close>)

theorem smp_lock_released_witness:
  "\<exists>s s'. handler_step\<^sup>*\<^sup>* two_ready s \<and> pc s 0 = Check \<and> handler_step\<^sup>*\<^sup>* s s' \<and> sched_lock s' = 0"
proof -
  let ?s1 = "goto 0 (Spin Timer) two_ready"
  have "handler_step two_ready ?s1" by (rule timer) simp
  moreover have "handler_step ?s1 (goto 0 Check (?s1\<lparr>sched_lock := 1\<rparr>))" by (rule xchg [of _ _ Timer]) simp_all
  ultimately have r: "handler_step\<^sup>*\<^sup>* two_ready (goto 0 Check (?s1\<lparr>sched_lock := 1\<rparr>))" by (rule rtranclp_two)
  have "holder (pc (goto 0 Check (?s1\<lparr>sched_lock := 1\<rparr>)) 0)" "pc (goto 0 Check (?s1\<lparr>sched_lock := 1\<rparr>)) 0 = Check" by simp_all
  with smp_lock_released [OF two_ready_start r, of 0] r show ?thesis by blast
qed

text \<open>C7.
  task_exit calls get_next_ready_task without the lock of the handlers: when two
  processors end their tasks at the same time and a task is READY, both can choose
  it before one marks it, and both then run it.
\<close>

theorem task_exit_race:
  assumes "pc s c = Exit_choose" "pc s d = Exit_choose" "c \<noteq> d" "tasks_apart (tasks s)"
    and "x \<in> set (tasks s)" "x \<noteq> 0" "get_state (tmem s) x = state_code TASK_READY"
  shows "\<exists>s'. exit_step\<^sup>*\<^sup>* s s' \<and> pc s' c = Outside \<and> pc s' d = Outside \<and> cur s' c \<noteq> 0 \<and> cur s' c = cur s' d"
proof -
  let ?p = "\<lambda>t. tget (tmem s) t Priority" and ?R = "in_state (tmem s) TASK_READY (tasks s)"
  define t where "t = best ?p ?R 0"
  have "?R \<noteq> []" using assms(5-7) by (auto simp: filter_empty_conv)
  then have "first_max ?p ?R t" unfolding t_def by (intro best_max) auto
  then have t0: "t \<noteq> 0" using first_max_in by fastforce
  then have ch: "choose_task (tmem s) (tasks s) = (tmem s, t)"
    unfolding choose_task_def sched_scan_eq t_def by simp
  define s1 where "s1 = goto c (Exit_take t) s"
  define s2 where "s2 = goto d (Exit_take t) s1"
  define s3 where "s3 = goto c Outside (set_cur c t (set_tmem (first_flag (set_state (tmem s2) t TASK_RUNNING) t) s2))"
  define s4 where "s4 = goto d Outside (set_cur d t (set_tmem (first_flag (set_state (tmem s3) t TASK_RUNNING) t) s3))"
  have e1: "exit_step s s1" using exit_choose [OF assms(1) ch] by (simp add: s1_def)
  have e2: "exit_step s1 s2"
    using exit_choose [of s1 d "tmem s" t] ch assms(2,3) by (simp add: s1_def s2_def) (simp add: smp_defs)
  have e3: "exit_step s2 s3" unfolding s3_def using assms(3) t0 by (intro exit_take) (simp_all add: s1_def s2_def)
  have e4: "exit_step s3 s4" unfolding s4_def using assms(3) t0 by (intro exit_take) (simp_all add: s1_def s2_def s3_def)
  have "exit_step\<^sup>*\<^sup>* s s4" using rtranclp_trans [OF rtranclp_two [of exit_step, OF e1 e2] rtranclp_two [of exit_step, OF e3 e4]] .
  then show ?thesis using t0 assms(3) by (intro exI [of _ s4]) (simp add: s4_def s3_def)
qed

theorem task_exit_race_witness:
  "\<exists>s'. exit_step\<^sup>*\<^sup>* (two_ready\<lparr>pc := \<lambda>_. Exit_choose\<rparr>) s' \<and> cur s' 0 \<noteq> 0 \<and> cur s' 0 = cur s' 1"
proof -
  let ?s = "two_ready\<lparr>pc := \<lambda>_. Exit_choose\<rparr>"
  have f: "tmem ?s = two_tasks" "tasks ?s = [0x1000, 0, 0x2000]" by (simp_all add: two_ready_def tmem_def tasks_def)
  have "get_state (tmem ?s) 0x2000 = state_code TASK_READY" unfolding f by (rule two_tasks_ready)
  from task_exit_race [OF _ _ _ _ _ _ this, of 0 1] show ?thesis
    using two_tasks_facts(1) unfolding f by (auto simp: f)
qed

end
