(* ===== verification/Ioremap.thy ===== *)
theory Ioremap
  imports Phymm
begin

text \<open>
  The page tables of the 64-bit kernel (x64_kenerl/kernel/ioremap.c and
  include/linux/page.h): ioremap_nocache enters a physical range into the
  four-level table at 0x90000 with pages of 2 MiB, one to one. The tables are
  pages of the physical page allocator; their entries are eight bytes of memory.
\<close>

section \<open>Definitions\<close>

definition FOUR_LEVEL_HEAD_TABLE_ADDR :: u64 where "FOUR_LEVEL_HEAD_TABLE_ADDR = 0x90000"

definition PML4_G_E_ADDR :: "u64 \<Rightarrow> u64" where
  "PML4_G_E_ADDR v = push_bit 12 (drop_bit 24 (push_bit 12 v))"

definition PML4_VRT_TO_PML4_IDX :: "u64 \<Rightarrow> u64" where
  "PML4_VRT_TO_PML4_IDX vrt = drop_bit 39 (vrt AND 0xffffffffffff)"

definition PML4_VRT_TO_PDPT_IDX :: "u64 \<Rightarrow> u64" where
  "PML4_VRT_TO_PDPT_IDX vrt = drop_bit 30 (vrt AND 0x7fffffffff)"

definition PML4_VRT_TO_PDT_IDX :: "u64 \<Rightarrow> u64" where
  "PML4_VRT_TO_PDT_IDX vrt = drop_bit 21 (vrt AND 0x3fffffff)"

definition getPML4Index_2M :: "u64 \<Rightarrow> u32 \<times> u32 \<times> u32" where
  "getPML4Index_2M phys_addr =
     (ucast (PML4_VRT_TO_PML4_IDX phys_addr), ucast (PML4_VRT_TO_PDPT_IDX phys_addr), ucast (PML4_VRT_TO_PDT_IDX phys_addr))"

text \<open>A missing table is a new page, cleared; a page that cannot be had is not noticed.\<close>

definition fill_entry :: "pm_state \<Rightarrow> u64 \<Rightarrow> pm_state" where
  "fill_entry s entry =
     (if rd64 (fst s) entry = 0 then
        (let ((m, pm), page) = get_free_page s;
             m1 = memset m page 0 PAGE_SIZE
         in (wr64 m1 entry (page OR 0b1011), pm))
      else s)"

definition map_2M :: "pm_state \<Rightarrow> u64 \<Rightarrow> pm_state" where
  "map_2M s align_addr =
     (let (pml4, pdpt, pdt) = getPML4Index_2M align_addr;
          entry = FOUR_LEVEL_HEAD_TABLE_ADDR + ucast (pml4 * 8);
          s1 = fill_entry s entry;
          entry = PML4_G_E_ADDR (rd64 (fst s1) entry) + 8 * ucast pdpt;
          s2 = fill_entry s1 entry;
          entry = PML4_G_E_ADDR (rd64 (fst s2) entry) + 8 * ucast pdt
      in (wr64 (fst s2) entry (align_addr OR 0b10001011), snd s2))"

fun arch_ioremap_nocache :: "pm_state \<Rightarrow> u64 \<Rightarrow> nat \<Rightarrow> pm_state" where
  "arch_ioremap_nocache s align_addr 0 = s"
| "arch_ioremap_nocache s align_addr (Suc cout) = arch_ioremap_nocache (map_2M s align_addr) (align_addr + 0x200000) cout"

text \<open>
  The number of pages: \<open>size / mapSize + ((size % mapSize) > 0) ? 1 : 0\<close> groups as
  \<open>(size / mapSize + ...) ? 1 : 0\<close>.
\<close>

definition mapCout :: "u64 \<Rightarrow> nat" where
  "mapCout sz = (if sz div 0x200000 + (if sz mod 0x200000 > 0 then 1 else 0) \<noteq> 0 then 1 else 0)"

definition ioremap_nocache :: "pm_state \<Rightarrow> u64 \<Rightarrow> u64 \<Rightarrow> pm_state \<times> u64" where
  "ioremap_nocache s phys_addr sz =
     (let alignAddr = (phys_addr div 0x200000) * 0x200000
      in (arch_ioremap_nocache s alignAddr (mapCout sz), phys_addr))"

end
