(* ===== verification/Machine.thy ===== *)
theory Machine
  imports Task64 Ioremap
begin

text \<open>
  The processor-specific set-up of the 64-bit kernel: model-specific registers and
  the per-processor block kpcr_t (x64_kenerl/kernel/cpu.c, include/linux/cpu.h),
  the task state segments (kernel/gdt64.c, include/linux/gdt64.h), the system call
  registers (kernel/syscall.c) and the system call table (kernel/system_call.c).
  The state extends the allocator's: \<open>msr\<close> are the registers of the processor that
  executes, \<open>lapic_out\<close> the stores to the local APIC's registers, in order, and
  \<open>lapic_reads\<close> the number of reads of them. What a read of such a register returns
  is a parameter \<open>dev\<close>: \<open>dev a k\<close> for the \<open>k\<close>-th read, if it is at the address \<open>a\<close>.
\<close>

section \<open>State\<close>

record local_apic_t =
  la_length :: u8
  apicUid :: u8
  apicId :: u8
  la_flags :: u32

record io_apic_t =
  ia_length :: u8
  ioApicId :: u8
  ioApicAddress :: u32
  globalSystemInterruptBase :: u32

record apic_info_t =
  localInterruptControllerAddress :: u32
  lapic :: "local_apic_t list"
  ioapic :: "io_apic_t list"

record machine = kheap +
  msr :: "u32 \<Rightarrow> u64"
  g_apicInfo :: apic_info_t
  g_kpcrs :: "u64 list"
  tss_index :: u32
  gdtr :: "u16 \<times> u64"
  task_reg :: u16
  lapic_out :: "(u64 \<times> u32) list"
  lapic_reads :: nat

type_synonym lapic_dev = "u64 \<Rightarrow> nat \<Rightarrow> u32"

definition lapic_read :: "lapic_dev \<Rightarrow> u64 \<Rightarrow> 'x machine_scheme \<Rightarrow> u32 \<times> 'x machine_scheme" where
  "lapic_read dev a s = (dev a (lapic_reads s), s\<lparr>lapic_reads := Suc (lapic_reads s)\<rparr>)"

definition lapic_write :: "u64 \<Rightarrow> u32 \<Rightarrow> 'x machine_scheme \<Rightarrow> 'x machine_scheme" where
  "lapic_write a v s = s\<lparr>lapic_out := lapic_out s @ [(a, v)]\<rparr>"

section \<open>Model-specific registers\<close>

definition IA32_GS_BASE :: u32 where "IA32_GS_BASE = 0xC0000101"
definition IA32_KERNEL_GS_BASE :: u32 where "IA32_KERNEL_GS_BASE = 0xC0000102"
definition IA32_MSR_EFER :: u32 where "IA32_MSR_EFER = 0xC0000080"
definition IA32_MSR_STAR :: u32 where "IA32_MSR_STAR = 0xc0000081"
definition IA32_MSR_LSTAR :: u32 where "IA32_MSR_LSTAR = 0xC0000082"
definition IA32_MSR_FMASK :: u32 where "IA32_MSR_FMASK = 0xc0000084"

text \<open>The instructions rdmsr and wrmsr: the two halves of the register.\<close>

definition rdmsr :: "'x machine_scheme \<Rightarrow> u32 \<Rightarrow> u32 \<times> u32" where
  "rdmsr s r = (ucast (msr s r), ucast (drop_bit 32 (msr s r)))"

definition wrmsr :: "'x machine_scheme \<Rightarrow> u32 \<Rightarrow> u32 \<Rightarrow> u32 \<Rightarrow> 'x machine_scheme" where
  "wrmsr s r low high = s\<lparr>msr := (msr s)(r := push_bit 32 (ucast high) OR ucast low)\<rparr>"

definition read_msr :: "'x machine_scheme \<Rightarrow> u32 \<Rightarrow> u64" where
  "read_msr s r = (let (low, high) = rdmsr s r in push_bit 32 (ucast high) OR ucast low)"

definition write_msr :: "'x machine_scheme \<Rightarrow> u32 \<Rightarrow> u64 \<Rightarrow> 'x machine_scheme" where
  "write_msr s r value = wrmsr s r (ucast value) (ucast (drop_bit 32 value))"

definition kpcr_swapgs :: "'x machine_scheme \<Rightarrow> 'x machine_scheme" where
  "kpcr_swapgs s = s\<lparr>msr := (msr s)(IA32_GS_BASE := msr s IA32_KERNEL_GS_BASE, IA32_KERNEL_GS_BASE := msr s IA32_GS_BASE)\<rparr>"

definition kpcr_get_offset :: "'x machine_scheme \<Rightarrow> u64 \<Rightarrow> u64" where
  "kpcr_get_offset s offset = rd64 (kmem s) (msr s IA32_GS_BASE + offset)"

definition kpcr_set_offset :: "'x machine_scheme \<Rightarrow> u64 \<Rightarrow> u64 \<Rightarrow> 'x machine_scheme" where
  "kpcr_set_offset s offset val = s\<lparr>kmem := wr64 (kmem s) (msr s IA32_GS_BASE + offset) val\<rparr>"

section \<open>The local APIC's registers\<close>

definition read_apic_base :: "'x machine_scheme \<Rightarrow> u64" where
  "read_apic_base s = (let (eax, edx) = rdmsr s 0x1B in push_bit 32 (ucast edx) OR ucast (eax AND 0xFFFFF000))"

definition get_apic_register_addr :: "'x machine_scheme \<Rightarrow> u32 \<Rightarrow> u64" where
  "get_apic_register_addr s offset = read_apic_base s + ucast offset"

definition LAPIC_ID_OFFSET_L :: u32 where "LAPIC_ID_OFFSET_L = 0x20"

definition get_lapic_id :: "lapic_dev \<Rightarrow> 'x machine_scheme \<Rightarrow> u32 \<times> 'x machine_scheme" where
  "get_lapic_id dev s = (let (v, s) = lapic_read dev (get_apic_register_addr s LAPIC_ID_OFFSET_L) s in (drop_bit 24 v, s))"

section \<open>The per-processor block\<close>

text \<open>
  kpcr_t: cpuid at 0, esp0 at 8, esp3 at 16, stack at 24, task at 32, temp at 40,
  tss_stack at 48. A cpuid outside of the table g_kpcrs of 100 pointers is a store
  outside of it: \<open>None\<close>, as for an allocation that does not return.
\<close>

definition sizeof_kpcr :: u32 where "sizeof_kpcr = 56"

definition kpcr_create :: "lapic_dev \<Rightarrow> 'x machine_scheme \<Rightarrow> ('x machine_scheme \<times> u64) option" where
  "kpcr_create dev s = do {
     let (cpuid, s) = get_lapic_id dev s;
     (s, kpcr) \<leftarrow> kzalloc s sizeof_kpcr;
     if kpcr = 0 then Some (s, 0) else do {
       let s = s\<lparr>kmem := wr64 (kmem s) kpcr (scast cpuid)\<rparr>;
       (s, stack) \<leftarrow> kzalloc s PAGE_SIZE;
       let s = s\<lparr>kmem := wr64 (kmem s) (kpcr + 24) stack\<rparr>;
       let s = write_msr s IA32_KERNEL_GS_BASE kpcr;
       if unat cpuid < length (g_kpcrs s) then Some (s\<lparr>g_kpcrs := (g_kpcrs s)[unat cpuid := kpcr]\<rparr>, kpcr) else None
     }
   }"

section \<open>Task state segments\<close>

definition TSS_INDEX :: u32 where "TSS_INDEX = 7"
definition sizeof_tss :: u32 where "sizeof_tss = 104"

text \<open>tss_descriptor_t: limit_low, base_low, base_mid, flags1, limit_high_and_flags2, base_high, base_upper, reserved.\<close>

definition build_x64_tss_desc :: "mem \<Rightarrow> u64 \<Rightarrow> u64 \<Rightarrow> mem" where
  "build_x64_tss_desc m base desc =
     (let m = wr16 m desc 104;
          m = wr16 m (desc + 2) (ucast (base AND 0xFFFF));
          m = wr8 m (desc + 4) (ucast (drop_bit 16 base AND 0xFF));
          m = wr8 m (desc + 5) 0x89;
          m = wr8 m (desc + 6) 0;
          m = wr8 m (desc + 7) (ucast (drop_bit 24 base AND 0xFF));
          m = wr32 m (desc + 8) (ucast (drop_bit 32 base))
      in wr32 m (desc + 12) 0)"

text \<open>gdtr_value at 0x9E000: the limit (two bytes), then the base (eight bytes).\<close>

definition g_gdtr :: u64 where "g_gdtr = 0x9E000"

definition init_tss_current_core :: "'x machine_scheme \<Rightarrow> 'x machine_scheme option" where
  "init_tss_current_core s = do {
     (s, tss) \<leftarrow> kzalloc s sizeof_tss;
     (s, stack) \<leftarrow> kzalloc s PAGE_SIZE;
     let m = wr64 (kmem s) (tss + 4) (stack + ucast PAGE_SIZE);
     let desc = rd64 m (g_gdtr + 2) + ucast (rd16 m g_gdtr);
     let m = build_x64_tss_desc m tss desc;
     let m = wr16 m g_gdtr (rd16 m g_gdtr + 16);
     let s = s\<lparr>kmem := m, gdtr := (rd16 m g_gdtr, rd64 m (g_gdtr + 2)), task_reg := ucast (push_bit 3 (tss_index s)),
       tss_index := tss_index s + 2\<rparr>;
     let s = kpcr_swapgs s;
     let s = kpcr_set_offset s 48 (rd64 (kmem s) (tss + 4));
     Some (kpcr_swapgs s)
   }"

section \<open>System calls\<close>

definition SYSCALL_SELECTOR :: u32 where "SYSCALL_SELECTOR = push_bit 3 3 OR 0"
definition SYSRET_SELECTOR :: u32 where "SYSRET_SELECTOR = push_bit 3 4 OR 3"

text \<open>\<open>syscall_entry\<close> is the address of the assembly entry.\<close>

definition syscall_init :: "u64 \<Rightarrow> 'x machine_scheme \<Rightarrow> 'x machine_scheme" where
  "syscall_init syscall_entry s =
     (let val = read_msr s IA32_MSR_EFER;
          s = write_msr s IA32_MSR_EFER (val OR 1);
          s = write_msr s IA32_MSR_LSTAR syscall_entry;
          val = push_bit 48 (ucast SYSRET_SELECTOR) OR push_bit 32 (ucast SYSCALL_SELECTOR);
          s = write_msr s IA32_MSR_STAR val
      in write_msr s IA32_MSR_FMASK 0x00047700)"

section \<open>Registers read back\<close>

lemma halves: "push_bit 32 (ucast (ucast (drop_bit 32 v) :: u32)) OR ucast (ucast v :: u32) = v" for v :: u64
  by (rule bit_word_eqI) (auto simp: bit_or_iff bit_push_bit_iff bit_unsigned_iff bit_drop_bit_eq)

lemma read_write_msr: "read_msr (write_msr s r v) r' = (if r' = r then v else read_msr s r')"
  by (simp add: read_msr_def write_msr_def rdmsr_def wrmsr_def halves)

text \<open>The base in a descriptor of a task state segment.\<close>

definition tss_base :: "mem \<Rightarrow> u64 \<Rightarrow> u64" where
  "tss_base m desc = ucast (rd16 m (desc + 2)) OR push_bit 16 (ucast (m (desc + 4))) OR push_bit 24 (ucast (m (desc + 7))) OR
     push_bit 32 (ucast (rd32 m (desc + 8)))"

text \<open>A processor before its set-up.\<close>

definition demo_machine :: machine where
  "demo_machine = kheap.extend demo_heap \<lparr>msr = \<lambda>_. 0,
     g_apicInfo = \<lparr>localInterruptControllerAddress = 0xFEE00000, lapic = [], ioapic = []\<rparr>, g_kpcrs = replicate 100 0,
     tss_index = TSS_INDEX, gdtr = (56, 0), task_reg = 0, lapic_out = [], lapic_reads = 0\<rparr>"

end
