(* ===== verification/Apic.thy ===== *)
theory Apic
  imports Machine
begin

text \<open>
  The interrupt controllers of the 64-bit kernel (x64_kenerl/kernel/apic.c and
  include/linux/apic.h): the search for the ACPI tables, the list of the
  processors' local APICs, the start of the other processors and the messages and
  timers of the local APIC. The tables are read at their offsets; the prints are
  left out. A store past the hundred entries of a list is \<open>None\<close> in add_controller;
  the walk over the structures tells it apart from a loop that does not end.
\<close>

section \<open>The search for the root pointer\<close>

definition EBDA_RSDP_ADDRESS :: u64 where "EBDA_RSDP_ADDRESS = 0x40E"
definition EBDA_RSDP_ADDRESS_END :: u64 where "EBDA_RSDP_ADDRESS_END = 0x80E"
definition BDA_RSDP_ADDRESS :: u64 where "BDA_RSDP_ADDRESS = 0xE0000"
definition BDA_RSDP_ADDRESS_END :: u64 where "BDA_RSDP_ADDRESS_END = 0x100000"

text \<open>The switch on the state, then the test for state 7.\<close>

definition rsdp_next :: "nat \<Rightarrow> u8 \<Rightarrow> nat" where
  "rsdp_next state ch =
     (if state = 0 then (if ch = 0x52 then 1 else state)
      else if state = 1 then (if ch = 0x53 then state + 1 else 0)
      else if state = 2 then (if ch = 0x44 then state + 1 else 0)
      else if state = 3 then (if ch = 0x20 then state + 1 else 0)
      else if state = 4 then (if ch = 0x50 then state + 1 else 0)
      else if state = 5 then (if ch = 0x54 then state + 1 else 0)
      else if state = 6 then (if ch = 0x52 then state + 1 else 0)
      else state)"

fun rsdp_loop :: "mem \<Rightarrow> u64 \<Rightarrow> nat \<Rightarrow> nat \<Rightarrow> u64" where
  "rsdp_loop m ptr 0 state = 0"
| "rsdp_loop m ptr (Suc left) state =
     (let state = rsdp_next state (m ptr) in if state = 7 then ptr - 6 else rsdp_loop m (ptr + 1) left state)"

definition get_rsdp_address :: "mem \<Rightarrow> u64 \<Rightarrow> u32 \<Rightarrow> u64" where
  "get_rsdp_address m data msize = rsdp_loop m data (unat msize) 0"

fun sum_loop :: "mem \<Rightarrow> u64 \<Rightarrow> nat \<Rightarrow> u8 \<Rightarrow> u8" where
  "sum_loop m data 0 acc = acc"
| "sum_loop m data (Suc len) acc = sum_loop m (data + 1) len (acc + m data)"

definition sum_bytes :: "mem \<Rightarrow> u64 \<Rightarrow> u32 \<Rightarrow> u8" where
  "sum_bytes m data len = sum_loop m data (unat len) 0"

section \<open>The tables\<close>

definition rsdp_revision :: "mem \<Rightarrow> u64 \<Rightarrow> u8" where "rsdp_revision m p = m (p + 15)"
definition rsdp_rsdt_address :: "mem \<Rightarrow> u64 \<Rightarrow> u32" where "rsdp_rsdt_address m p = rd32 m (p + 16)"
definition rsdt_length :: "mem \<Rightarrow> u64 \<Rightarrow> u32" where "rsdt_length m p = rd32 m (p + 4)"
definition rsdt_entry :: "mem \<Rightarrow> u64 \<Rightarrow> nat \<Rightarrow> u32" where "rsdt_entry m p i = rd32 m (p + 36 + 4 * of_nat i)"
definition madt_length :: "mem \<Rightarrow> u64 \<Rightarrow> u32" where "madt_length m p = rd32 m (p + 4)"
definition madt_address :: "mem \<Rightarrow> u64 \<Rightarrow> u32" where "madt_address m p = rd32 m (p + 36)"
definition madt_structures :: "u64 \<Rightarrow> u64" where "madt_structures p = p + 44"

definition rd_local_apic :: "mem \<Rightarrow> u64 \<Rightarrow> local_apic_t" where
  "rd_local_apic m pos = \<lparr>la_length = m (pos + 1), apicUid = m (pos + 2), apicId = m (pos + 3), la_flags = rd32 m (pos + 4)\<rparr>"

definition rd_io_apic :: "mem \<Rightarrow> u64 \<Rightarrow> io_apic_t" where
  "rd_io_apic m pos = \<lparr>ia_length = m (pos + 1), ioApicId = m (pos + 2), ioApicAddress = rd32 m (pos + 4),
     globalSystemInterruptBase = rd32 m (pos + 8)\<rparr>"

definition add_controller :: "mem \<Rightarrow> u64 \<Rightarrow> apic_info_t \<Rightarrow> apic_info_t option" where
  "add_controller m pos info =
     (if m pos = 0 then
        (if length (lapic info) < 100 then Some (info\<lparr>lapic := lapic info @ [rd_local_apic m pos]\<rparr>) else None)
      else if m pos = 1 then
        (if length (ioapic info) < 100 then Some (info\<lparr>ioapic := ioapic info @ [rd_io_apic m pos]\<rparr>) else None)
      else Some info)"

text \<open>
  The structures of the MADT: the loop advances by the length of the structure,
  whatever it is. \<open>None\<close> says that it does not end, \<open>Some None\<close> that it stores past a list.
\<close>

partial_function (option) controller_loop :: "mem \<Rightarrow> u64 \<Rightarrow> u64 \<Rightarrow> apic_info_t \<Rightarrow> apic_info_t option option" where
  "controller_loop m pos end_addr info =
     (case add_controller m pos info of
        None \<Rightarrow> Some None
      | Some info' \<Rightarrow>
          (let pos' = pos + ucast (m (pos + 1))
           in if pos' \<ge> end_addr then Some (Some info') else controller_loop m pos' end_addr info'))"

definition print_interrupt_controller_info :: "mem \<Rightarrow> u64 \<Rightarrow> apic_info_t \<Rightarrow> apic_info_t option option" where
  "print_interrupt_controller_info m madt info =
     controller_loop m (madt_structures madt) (ucast (madt_length m madt) + madt)
       (info\<lparr>localInterruptControllerAddress := madt_address m madt\<rparr>)"

text \<open>The signature APIC.\<close>

definition is_madt :: "mem \<Rightarrow> u64 \<Rightarrow> bool" where
  "is_madt m p \<longleftrightarrow> load m p 4 = [0x41, 0x50, 0x49, 0x43]"

fun find_madt :: "mem \<Rightarrow> u64 \<Rightarrow> nat \<Rightarrow> nat \<Rightarrow> u64" where
  "find_madt m rsdt i 0 = 0"
| "find_madt m rsdt i (Suc left) =
     (if is_madt m (ucast (rsdt_entry m rsdt i)) then ucast (rsdt_entry m rsdt i) else find_madt m rsdt (Suc i) left)"

definition entryNums :: "mem \<Rightarrow> u64 \<Rightarrow> nat" where
  "entryNums m rsdt = nat (sint (ucast ((ucast (rsdt_length m rsdt) - 36 :: u64) div 4) :: u32))"

definition machine_ioremap :: "'x machine_scheme \<Rightarrow> u64 \<Rightarrow> u64 \<Rightarrow> 'x machine_scheme \<times> u64" where
  "machine_ioremap s phys sz =
     (let ((m, pm), v) = ioremap_nocache (kmem s, kpm s) phys sz in (s\<lparr>kmem := m, kpm := pm\<rparr>, v))"

definition find_rsdp :: "mem \<Rightarrow> u64" where
  "find_rsdp m =
     (let p = get_rsdp_address m EBDA_RSDP_ADDRESS (ucast (EBDA_RSDP_ADDRESS_END - EBDA_RSDP_ADDRESS))
      in if p = 0 then get_rsdp_address m BDA_RSDP_ADDRESS (ucast (BDA_RSDP_ADDRESS_END - BDA_RSDP_ADDRESS)) else p)"

text \<open>The result - 1 is the failure of apic_init; \<open>None\<close> that it does not return, or stores past a list.\<close>

definition apic_init :: "lapic_dev \<Rightarrow> 'x machine_scheme \<Rightarrow> ('x machine_scheme \<times> u32) option" where
  "apic_init dev s =
     (let p_rsdp = find_rsdp (kmem s)
      in if p_rsdp = 0 then Some (s, - 1)
         else if rsdp_revision (kmem s) p_rsdp \<noteq> 0 then Some (s, - 1)
         else if sum_bytes (kmem s) p_rsdp 20 \<noteq> 0 then Some (s, - 1)
         else
           (let (s, p_rsdt) = machine_ioremap s (ucast (rsdp_rsdt_address (kmem s) p_rsdp)) (ucast PAGE_SIZE)
            in if p_rsdt = 0 then Some (s, - 1)
               else
                 (let madt = find_madt (kmem s) p_rsdt 0 (entryNums (kmem s) p_rsdt)
                  in if madt = 0 then Some (s, - 1)
                     else do {
                       walk \<leftarrow> print_interrupt_controller_info (kmem s) madt (g_apicInfo s);
                       info \<leftarrow> walk;
                       let (s, v) = machine_ioremap (s\<lparr>g_apicInfo := info\<rparr>)
                         (ucast (localInterruptControllerAddress info)) (ucast PAGE_SIZE);
                       let s = s\<lparr>g_apicInfo := info\<lparr>localInterruptControllerAddress := ucast v\<rparr>\<rparr>;
                       (s, kpcr) \<leftarrow> kpcr_create dev s;
                       Some (s, 0)
                     })))"

section \<open>Messages and timers\<close>

definition LAPIC_EOI_OFFSET :: u32 where "LAPIC_EOI_OFFSET = 0xB0"
definition LAPIC_SVR_OFFSET :: u32 where "LAPIC_SVR_OFFSET = 0xF0"
definition LAPIC_ICR_OFFSET_L :: u32 where "LAPIC_ICR_OFFSET_L = 0x300"
definition LAPIC_ICR_OFFSET_H :: u32 where "LAPIC_ICR_OFFSET_H = 0x310"
definition LAPIC_LVT_TIMER_OFFSET :: u32 where "LAPIC_LVT_TIMER_OFFSET = 0x320"
definition LAPIC_TIMER_DCR_OFFSET :: u32 where "LAPIC_TIMER_DCR_OFFSET = 0x3E0"
definition LAPIC_TIMER_ICR_OFFSET :: u32 where "LAPIC_TIMER_ICR_OFFSET = 0x380"
definition APS_BOOI_CODE_ENTRY :: u32 where "APS_BOOI_CODE_ENTRY = 0x8000"

text \<open>The bit-fields of lapic_ICR_l_t and lapic_lvt_timer_t, lowest bit first.\<close>

record lapic_ICR_l_t =
  vector :: u8
  delivery_mode :: u32
  level :: u32
  trigger_mode :: u32
  destination_shortland :: u32

definition icr_zero :: lapic_ICR_l_t where
  "icr_zero = \<lparr>vector = 0, delivery_mode = 0, level = 0, trigger_mode = 0, destination_shortland = 0\<rparr>"

definition icr_word :: "lapic_ICR_l_t \<Rightarrow> u32" where
  "icr_word r = ucast (vector r) OR push_bit 8 (take_bit 3 (delivery_mode r)) OR push_bit 14 (take_bit 1 (level r)) OR
     push_bit 15 (take_bit 1 (trigger_mode r)) OR push_bit 18 (take_bit 2 (destination_shortland r))"

record lapic_lvt_timer_t =
  lvt_vector :: u8
  lvt_mask :: u32
  timer_mode :: u32

definition lvt_word :: "lapic_lvt_timer_t \<Rightarrow> u32" where
  "lvt_word r = ucast (lvt_vector r) OR push_bit 16 (take_bit 1 (lvt_mask r)) OR push_bit 17 (take_bit 2 (timer_mode r))"

definition apic_addr :: "'x machine_scheme \<Rightarrow> u32 \<Rightarrow> u64" where
  "apic_addr s offset = ucast (localInterruptControllerAddress (g_apicInfo s)) + ucast offset"

definition check_IPI_success :: "lapic_dev \<Rightarrow> 'x machine_scheme \<Rightarrow> bool \<times> 'x machine_scheme" where
  "check_IPI_success dev s =
     (let (v, s) = lapic_read dev (apic_addr s LAPIC_ICR_OFFSET_L) s in (drop_bit 12 v AND 1 = 0, s))"

definition send_icr :: "lapic_ICR_l_t \<Rightarrow> u64 \<Rightarrow> u64 \<Rightarrow> 'x machine_scheme \<Rightarrow> 'x machine_scheme" where
  "send_icr icr ICR_L ICR_H s = lapic_write ICR_L (icr_word icr) (lapic_write ICR_H 0 s)"

text \<open>The wait for the other processors: \<open>aps k\<close> is the counter at the \<open>k\<close>-th look.\<close>

partial_function (option) wait_aps :: "(nat \<Rightarrow> u16) \<Rightarrow> u32 \<Rightarrow> nat \<Rightarrow> nat option" where
  "wait_aps aps n k = (if ucast (aps k) < n then wait_aps aps n (Suc k) else Some k)"

text \<open>
  ap_init: INIT, then two messages meant as start-up messages; the second has the
  delivery mode of INIT. The counter of started processors is cleared after the
  messages. The function does not return a value at its end, hence the option in
  the result. \<open>x64_ap_main\<close> is the address of the C entry of the other processors.
\<close>

definition init_icr :: lapic_ICR_l_t where
  "init_icr = icr_zero\<lparr>delivery_mode := 0b101, destination_shortland := 0b11\<rparr>"

definition sipi_icr :: "u32 \<Rightarrow> lapic_ICR_l_t" where
  "sipi_icr mode = icr_zero\<lparr>delivery_mode := mode, vector := ucast (drop_bit 12 APS_BOOI_CODE_ENTRY), destination_shortland := 0b11\<rparr>"

definition ap_init :: "lapic_dev \<Rightarrow> (nat \<Rightarrow> u16) \<Rightarrow> u64 \<Rightarrow> 'x machine_scheme \<Rightarrow> ('x machine_scheme \<times> u32 option) option" where
  "ap_init dev aps x64_ap_main s =
     (let s = s\<lparr>kmem := wr64 (kmem s) 0xA000 x64_ap_main\<rparr>;
          ICR_L = apic_addr s LAPIC_ICR_OFFSET_L;
          ICR_H = apic_addr s LAPIC_ICR_OFFSET_H;
          (ok, s) = check_IPI_success dev (send_icr init_icr ICR_L ICR_H s)
      in if \<not> ok then Some (s, Some (- 1))
         else (let (ok, s) = check_IPI_success dev (send_icr (sipi_icr 0b110) ICR_L ICR_H s)
               in if \<not> ok then Some (s, Some (- 1))
                  else (let (ok, s) = check_IPI_success dev (send_icr (sipi_icr 0b101) ICR_L ICR_H s)
                        in if \<not> ok then Some (s, Some (- 1))
                           else (let s = s\<lparr>kmem := wr16 (kmem s) 0x9F000 0\<rparr>
                                 in map_option (\<lambda>k. (s, None))
                                      (wait_aps aps (of_nat (length (lapic (g_apicInfo s))) - 1) 0)))))"

definition lapic_send_eoi :: "'x machine_scheme \<Rightarrow> 'x machine_scheme" where
  "lapic_send_eoi s = lapic_write (read_apic_base s + ucast LAPIC_EOI_OFFSET) 0 s"

definition ap_local_apic_init :: "lapic_dev \<Rightarrow> 'x machine_scheme \<Rightarrow> 'x machine_scheme" where
  "ap_local_apic_init dev s =
     (let SVR = get_apic_register_addr s LAPIC_SVR_OFFSET;
          (v, s) = lapic_read dev SVR s
      in lapic_write SVR (v OR push_bit 8 1) s)"

definition apic_broadcast_message_interrupt :: "lapic_dev \<Rightarrow> u8 \<Rightarrow> 'x machine_scheme \<Rightarrow> 'x machine_scheme \<times> u32" where
  "apic_broadcast_message_interrupt dev vec s =
     (let base = read_apic_base s;
          icr = icr_zero\<lparr>vector := vec, delivery_mode := 0b000, trigger_mode := 1, level := 0, destination_shortland := 0b10\<rparr>;
          s = send_icr icr (base + ucast LAPIC_ICR_OFFSET_L) (base + ucast LAPIC_ICR_OFFSET_H) s;
          (ok, s) = check_IPI_success dev s
      in (s, if ok then 0 else - 1))"

definition timer_start :: "lapic_lvt_timer_t \<Rightarrow> u32 \<Rightarrow> 'x machine_scheme \<Rightarrow> 'x machine_scheme" where
  "timer_start lvt count s =
     (let LVT = get_apic_register_addr s LAPIC_LVT_TIMER_OFFSET;
          DCR = get_apic_register_addr s LAPIC_TIMER_DCR_OFFSET;
          ICR = get_apic_register_addr s LAPIC_TIMER_ICR_OFFSET
      in lapic_write ICR count (lapic_write DCR 0 (lapic_write LVT (lvt_word lvt) s)))"

definition lapic_timer_one_shot_start :: "u8 \<Rightarrow> u32 \<Rightarrow> 'x machine_scheme \<Rightarrow> 'x machine_scheme" where
  "lapic_timer_one_shot_start vec count s = timer_start \<lparr>lvt_vector = vec, lvt_mask = 0, timer_mode = 0b00\<rparr> count s"

definition lapic_timer_cycle_start :: "u8 \<Rightarrow> u32 \<Rightarrow> 'x machine_scheme \<Rightarrow> 'x machine_scheme" where
  "lapic_timer_cycle_start vec count s = timer_start \<lparr>lvt_vector = vec, lvt_mask = 0, timer_mode = 0b01\<rparr> count s"

end
