(* ===== verification/ApicProps.thy ===== *)
theory ApicProps
  imports Apic
begin

text \<open>
  What the search for the ACPI root pointer finds, and what the walk over the
  structures of the MADT collects.
\<close>

section \<open>The signature\<close>

text \<open>The bytes of RSD PTR.\<close>

definition signature :: "u8 list" where
  "signature = [0x52, 0x53, 0x44, 0x20, 0x50, 0x54, 0x52]"

lemma length_signature [simp]: "length signature = 7"
  by (simp add: signature_def)

lemma rsdp_next_match: "st < 7 \<Longrightarrow> rsdp_next st ch = (if ch = signature ! st then Suc st else 0)"
  by (auto simp: rsdp_next_def signature_def less_Suc_eq numeral_eq_Suc)

lemma rsdp_next_le: "st < 7 \<Longrightarrow> rsdp_next st ch \<le> Suc st"
  by (simp add: rsdp_next_match)

text \<open>The state is a number of bytes before the pointer that match the beginning of the signature.\<close>

definition matched :: "mem \<Rightarrow> u64 \<Rightarrow> nat \<Rightarrow> bool" where
  "matched m ptr st \<longleftrightarrow> st < 7 \<and> load m (ptr - of_nat st) st = take st signature"

definition found :: "mem \<Rightarrow> u64 \<Rightarrow> bool" where
  "found m p \<longleftrightarrow> load m p 7 = signature"

lemma matched_next:
  assumes "matched m ptr st"
  shows "if rsdp_next st (m ptr) = 7 then found m (ptr - 6) else matched m (ptr + 1) (rsdp_next st (m ptr))"
proof -
  have st: "st < 7" "load m (ptr - of_nat st) st = take st signature" using assms by (auto simp: matched_def)
  have l: "load m (ptr - of_nat st) (Suc st) = take (Suc st) signature" if "m ptr = signature ! st"
    using st that by (simp add: load_snoc take_Suc_conv_app_nth)
  show ?thesis
  proof (cases "m ptr = signature ! st")
    case True
    note l = l [OF True]
    have n: "rsdp_next st (m ptr) = Suc st" using True st(1) by (simp add: rsdp_next_match)
    show ?thesis
    proof (cases "st = 6")
      case True
      then show ?thesis using l n by (simp add: found_def signature_def numeral_eq_Suc)
    next
      case False
      then show ?thesis using l n st(1) by (simp add: matched_def)
    qed
  next
    case False
    then show ?thesis using st(1) by (simp add: rsdp_next_match matched_def)
  qed
qed

text \<open>The result of the loop: 0, or the begin of a signature that ends at one of the bytes to come.\<close>

lemma rsdp_loop_found:
  "matched m ptr st \<Longrightarrow>
   rsdp_loop m ptr left st = 0 \<or> (\<exists>j<left. 6 \<le> st + j \<and> rsdp_loop m ptr left st = (ptr + of_nat j) - 6 \<and> found m ((ptr + of_nat j) - 6))"
proof (induction left arbitrary: ptr st)
  case (Suc left)
  note N = matched_next [OF Suc.prems]
  let ?st = "rsdp_next st (m ptr)"
  show ?case
  proof (cases "?st = 7")
    case True
    then have "6 \<le> st" using rsdp_next_le [of st "m ptr"] Suc.prems by (simp add: matched_def)
    then show ?thesis using N True by (intro disjI2 exI [of _ 0]) simp
  next
    case False
    then have r: "rsdp_loop m ptr (Suc left) st = rsdp_loop m (ptr + 1) left ?st" by simp
    have e: "ptr + of_nat (Suc j) = ptr + 1 + of_nat j" for j by simp
    from False N have "matched m (ptr + 1) ?st" by simp
    moreover have "6 \<le> ?st + j \<Longrightarrow> 6 \<le> st + Suc j" for j using rsdp_next_le [of st "m ptr"] Suc.prems by (simp add: matched_def)
    ultimately show ?thesis using Suc.IH [of "ptr + 1" ?st] unfolding r e [symmetric] by blast
  qed
qed simp

text \<open>After \<open>i\<close> bytes either a signature that ended before was returned, or the loop goes on.\<close>

lemma rsdp_loop_skip:
  "matched m ptr st \<Longrightarrow> i \<le> left \<Longrightarrow>
   (\<exists>j<i. 6 \<le> st + j \<and> rsdp_loop m ptr left st = (ptr + of_nat j) - 6 \<and> found m ((ptr + of_nat j) - 6)) \<or>
   (\<exists>st'. matched m (ptr + of_nat i) st' \<and> rsdp_loop m ptr left st = rsdp_loop m (ptr + of_nat i) (left - i) st')"
proof (induction i arbitrary: ptr st left)
  case (Suc i)
  then obtain left' where l: "left = Suc left'" by (cases left) auto
  note N = matched_next [OF Suc.prems(1)]
  let ?st = "rsdp_next st (m ptr)"
  show ?case
  proof (cases "?st = 7")
    case True
    then have "6 \<le> st" using rsdp_next_le [of st "m ptr"] Suc.prems(1) by (simp add: matched_def)
    then show ?thesis using N l True by (intro disjI1 exI [of _ 0]) simp
  next
    case False
    then have r: "rsdp_loop m ptr left st = rsdp_loop m (ptr + 1) left' ?st" by (simp add: l)
    have e: "ptr + of_nat (Suc j) = ptr + 1 + of_nat j" for j by simp
    from False N have "matched m (ptr + 1) ?st" by simp
    from Suc.IH [OF this, of left'] Suc.prems(2) l
    have "(\<exists>j<i. 6 \<le> ?st + j \<and> rsdp_loop m ptr left st = (ptr + of_nat (Suc j)) - 6 \<and> found m ((ptr + of_nat (Suc j)) - 6)) \<or>
      (\<exists>st'. matched m (ptr + of_nat (Suc i)) st' \<and> rsdp_loop m ptr left st = rsdp_loop m (ptr + of_nat (Suc i)) (left - Suc i) st')"
      unfolding r e by simp
    moreover have "6 \<le> ?st + j \<Longrightarrow> 6 \<le> st + Suc j" for j using rsdp_next_le [of st "m ptr"] Suc.prems(1) by (simp add: matched_def)
    ultimately show ?thesis using Suc_mono by blast
  qed
qed auto

lemma rsdp_loop_hit:
  assumes "found m ptr" "7 \<le> left"
  shows "rsdp_loop m ptr left 0 = ptr"
proof -
  obtain l where l: "left = Suc (Suc (Suc (Suc (Suc (Suc (Suc l))))))" using assms(2) by (intro that [of "left - 7"]) simp
  have 7: "load m ptr 7 = [m ptr, m (ptr + 1), m (ptr + 2), m (ptr + 3), m (ptr + 4), m (ptr + 5), m (ptr + 6)]"
    by (simp add: load_def upt_rec)
  then have c: "m ptr = 0x52" "m (ptr + 1) = 0x53" "m (ptr + 2) = 0x44" "m (ptr + 3) = 0x20" "m (ptr + 4) = 0x50" "m (ptr + 5) = 0x54"
    "m (ptr + 6) = 0x52" using assms(1) unfolding found_def signature_def 7 by simp_all
  show ?thesis unfolding l by (simp add: rsdp_next_def c add.assoc)
qed

lemma matched_before:
  assumes "matched m ptr st" "st \<noteq> 0"
  shows "m (ptr - 1) \<in> set (butlast signature)"
proof -
  obtain k where k: "st = Suc k" using assms(2) by (cases st) auto
  have "load m (ptr - of_nat st) st ! k = take st signature ! k" using assms(1) by (simp add: matched_def)
  then have "m (ptr - 1) = signature ! k" by (simp add: k)
  moreover have "k < length (butlast signature)" using assms(1) by (simp add: matched_def k)
  ultimately show ?thesis by (metis nth_butlast nth_mem)
qed

lemma matched_0: "matched m p 0"
  by (simp add: matched_def)

lemma sub_6: "6 \<le> j \<Longrightarrow> p + of_nat j - 6 = p + (of_nat (j - 6) :: u64)"
  by (simp add: of_nat_diff)

section \<open>Properties of the search\<close>

text \<open>The bytes RRSD PTR.\<close>

definition missed :: mem where
  "missed = store (\<lambda>_. 0) 0x1000 (0x52 # signature)"

lemma missed_bytes:
  "missed 0x1000 = 0x52" "missed 0x1001 = 0x52" "missed 0x1002 = 0x53" "missed 0x1003 = 0x44" "missed 0x1004 = 0x20"
  "missed 0x1005 = 0x50" "missed 0x1006 = 0x54" "missed 0x1007 = 0x52"
  by (simp_all add: missed_def store_def signature_def)

text \<open>What get_rsdp_address returns is the address of a signature inside the range, and
  a signature is found unless one that begins before it is, or the byte before it
  belongs to the signature: after a partial match the byte that does not fit is not
  looked at again, so that the signature in RRSD PTR is missed.
\<close>

lemma get_rsdp_address_search:
  assumes "data \<noteq> 0" and "unat data + unat n \<le> 2 ^ 64"
  shows "(get_rsdp_address m data n \<noteq> 0 \<longrightarrow>
      (\<exists>i. i + 7 \<le> unat n \<and> get_rsdp_address m data n = data + of_nat i \<and> found m (data + of_nat i))) \<and>
    (\<forall>i. i + 7 \<le> unat n \<and> found m (data + of_nat i) \<and> (i = 0 \<or> m (data + of_nat i - 1) \<notin> set (butlast signature)) \<longrightarrow>
      (\<exists>j\<le>i. get_rsdp_address m data n = data + of_nat j \<and> data + of_nat j \<noteq> 0)) \<and>
    found missed 0x1001 \<and> get_rsdp_address missed 0x1000 8 = 0"
proof (intro conjI allI impI)
  assume "get_rsdp_address m data n \<noteq> 0"
  then obtain j where j: "j < unat n" "6 \<le> j" "get_rsdp_address m data n = data + of_nat j - 6" "found m (data + of_nat j - 6)"
    using rsdp_loop_found [OF matched_0, of m data "unat n"] by (auto simp: get_rsdp_address_def)
  then show "\<exists>i. i + 7 \<le> unat n \<and> get_rsdp_address m data n = data + of_nat i \<and> found m (data + of_nat i)"
    using sub_6 by (intro exI [of _ "j - 6"]) auto
next
  fix i
  assume i: "i + 7 \<le> unat n \<and> found m (data + of_nat i) \<and> (i = 0 \<or> m (data + of_nat i - 1) \<notin> set (butlast signature))"
  have nz: "data + of_nat j \<noteq> 0" if "j \<le> i" for j
  proof -
    have "unat (of_nat j :: u64) = j" using that i assms(2) by (intro unat_of_nat_less) simp
    then have "unat (data + of_nat j) = unat data + j" using that i assms(2) by (simp add: unat_plus_if')
    then show ?thesis using assms(1) by (metis add_is_0 unat_0 unat_eq_zero)
  qed
  have "\<exists>j\<le>i. get_rsdp_address m data n = data + of_nat j"
  proof (cases "i = 0")
    case True
    then show ?thesis using rsdp_loop_hit [of m data "unat n"] i by (auto simp: get_rsdp_address_def)
  next
    case False
    from rsdp_loop_skip [OF matched_0, of i "unat n" m data] i consider
      j where "j < i" "6 \<le> j" "rsdp_loop m data (unat n) 0 = data + of_nat j - 6"
      | st where "matched m (data + of_nat i) st" "rsdp_loop m data (unat n) 0 = rsdp_loop m (data + of_nat i) (unat n - i) st"
      by auto
    then show ?thesis
    proof cases
      case (1 j)
      then show ?thesis using sub_6 by (intro exI [of _ "j - 6"]) (simp add: get_rsdp_address_def)
    next
      case (2 st)
      then have "st = 0" using matched_before i False by blast
      moreover have "rsdp_loop m (data + of_nat i) (unat n - i) 0 = data + of_nat i" using i by (intro rsdp_loop_hit) auto
      ultimately show ?thesis using 2(2) by (intro exI [of _ i]) (simp add: get_rsdp_address_def)
    qed
  qed
  then show "\<exists>j\<le>i. get_rsdp_address m data n = data + of_nat j \<and> data + of_nat j \<noteq> 0" using nz by blast
next
  show "found missed 0x1001" by (simp add: found_def missed_def load_def upt_rec store_def signature_def)
  have "unat (8 :: u32) = Suc (Suc (Suc (Suc (Suc (Suc (Suc (Suc 0)))))))" by simp
  then show "get_rsdp_address missed 0x1000 8 = 0"
    unfolding get_rsdp_address_def by (simp only:) (simp add: rsdp_next_def missed_bytes)
qed

section \<open>The structures of the MADT\<close>

text \<open>A structure as a list of its bytes: type, length, then the fields.\<close>

definition structure_ok :: "u8 list \<Rightarrow> bool" where
  "structure_ok b \<longleftrightarrow> 2 \<le> length b \<and> unat (b ! 1) = length b \<and> (b ! 0 = 0 \<longrightarrow> 8 \<le> length b) \<and> (b ! 0 = 1 \<longrightarrow> 12 \<le> length b)"

definition local_of :: "u8 list \<Rightarrow> local_apic_t" where
  "local_of b = \<lparr>la_length = b ! 1, apicUid = b ! 2, apicId = b ! 3, la_flags = of_le (take 4 (drop 4 b))\<rparr>"

definition io_of :: "u8 list \<Rightarrow> io_apic_t" where
  "io_of b = \<lparr>ia_length = b ! 1, ioApicId = b ! 2, ioApicAddress = of_le (take 4 (drop 4 b)),
     globalSystemInterruptBase = of_le (take 4 (drop 8 b))\<rparr>"

definition of_type :: "u8 \<Rightarrow> u8 list list \<Rightarrow> u8 list list" where
  "of_type t bs = filter (\<lambda>b. b ! 0 = t) bs"

definition collect :: "u8 list list \<Rightarrow> apic_info_t \<Rightarrow> apic_info_t" where
  "collect bs info = info\<lparr>lapic := lapic info @ map local_of (of_type 0 bs), ioapic := ioapic info @ map io_of (of_type 1 bs)\<rparr>"

definition room :: "u8 list list \<Rightarrow> apic_info_t \<Rightarrow> bool" where
  "room bs info \<longleftrightarrow> length (lapic info) + length (of_type 0 bs) \<le> 100 \<and> length (ioapic info) + length (of_type 1 bs) \<le> 100"

lemma load_byte: "load m p n = b \<Longrightarrow> i < length b \<Longrightarrow> m (p + of_nat i) = b ! i"
  by (metis length_load nth_load)

lemma load_field: "load m p n = b \<Longrightarrow> i + 4 \<le> length b \<Longrightarrow> rd32 m (p + of_nat i) = of_le (take 4 (drop i b))"
proof -
  assume b: "load m p n = b" "i + 4 \<le> length b"
  have "load m (p + of_nat i) 4 = take 4 (drop i b)"
    by (rule nth_equalityI) (use b in \<open>auto simp: add.assoc simp flip: of_nat_add\<close>)
  then show ?thesis by (simp add: rd32_def)
qed

lemma add_controller_structure:
  assumes "structure_ok b" "load m pos (length b) = b" "room [b] info"
  shows "add_controller m pos info = Some (collect [b] info)"
proof -
  have l: "0 < length b" "1 < length b" using assms(1) by (auto simp: structure_ok_def)
  have f: "m pos = b ! 0" "m (pos + 1) = b ! 1"
    using load_byte [OF assms(2) l(1)] load_byte [OF assms(2) l(2)] by simp_all
  have 8: "m (pos + 2) = b ! 2" "m (pos + 3) = b ! 3" "rd32 m (pos + 4) = of_le (take 4 (drop 4 b))" if "8 \<le> length b"
    using that load_byte [OF assms(2), of 2] load_byte [OF assms(2), of 3] load_field [OF assms(2), of 4] by auto
  have 12: "rd32 m (pos + 8) = of_le (take 4 (drop 8 b))" if "12 \<le> length b"
    using that load_field [OF assms(2), of 8] by auto
  show ?thesis
    using assms(1,3) f 8 12
    by (auto simp: add_controller_def structure_ok_def collect_def room_def of_type_def rd_local_apic_def rd_io_apic_def local_of_def io_of_def)
qed

text \<open>Well-formed structures before the end: the loop passes over them and collects them.\<close>

lemma controller_loop_prefix:
  assumes "\<forall>b \<in> set bs. structure_ok b" "load m pos (length (concat bs)) = concat bs" "room bs info"
    "unat pos + length (concat bs) < unat end_addr"
  shows "controller_loop m pos end_addr info = controller_loop m (pos + of_nat (length (concat bs))) end_addr (collect bs info)"
  using assms
proof (induction bs arbitrary: pos info)
  case Nil
  then show ?case by (simp add: collect_def of_type_def)
next
  case (Cons b bs)
  let ?n = "length (concat bs)" and ?pos = "pos + of_nat (length b)"
  have ok: "structure_ok b" using Cons.prems(1) by simp
  have lb: "load m pos (length b) = b" and lr: "load m ?pos ?n = concat bs"
    using Cons.prems(2) by (simp_all add: load_add)
  have r: "room [b] info" "room bs (collect [b] info)" "collect (b # bs) info = collect bs (collect [b] info)"
    using Cons.prems(3) by (auto simp: room_def collect_def of_type_def)
  have "m (pos + 1) = b ! 1" using load_byte [OF lb, of 1] ok by (simp add: structure_ok_def)
  then have "ucast (m (pos + 1)) = (of_nat (unat (b ! 1)) :: u64)" by simp
  then have adv: "pos + ucast (m (pos + 1)) = ?pos" using ok by (simp only: structure_ok_def)
  have "unat pos + length b < 2 ^ 64" using Cons.prems(4) unat_lt [of end_addr] by simp
  then have u: "unat ?pos = unat pos + length b" by (simp add: unat_word_ariths unat_of_nat)
  then have "\<not> ?pos \<ge> end_addr" using Cons.prems(4) by (simp add: word_le_nat_alt)
  then have "controller_loop m pos end_addr info = controller_loop m ?pos end_addr (collect [b] info)"
    by (subst controller_loop.simps) (simp add: add_controller_structure [OF ok lb r(1)] adv Let_def)
  also have "\<dots> = controller_loop m (?pos + of_nat ?n) end_addr (collect bs (collect [b] info))"
    using Cons.prems(1,4) u by (intro Cons.IH lr r(2)) auto
  finally show ?case unfolding r(3) by (simp add: add.assoc)
qed

lemma controller_loop_last:
  assumes "structure_ok b" "load m pos (length b) = b" "room [b] info" "pos + of_nat (length b) \<ge> end_addr"
  shows "controller_loop m pos end_addr info = Some (Some (collect [b] info))"
proof -
  have "m (pos + 1) = b ! 1" using load_byte [OF assms(2), of 1] assms(1) by (simp add: structure_ok_def)
  then have "ucast (m (pos + 1)) = (of_nat (unat (b ! 1)) :: u64)" by simp
  then have "pos + ucast (m (pos + 1)) = pos + of_nat (length b)" using assms(1) by (simp only: structure_ok_def)
  then show ?thesis using assms(4) by (subst controller_loop.simps) (simp add: add_controller_structure [OF assms(1-3)] Let_def)
qed

text \<open>A structure of another type and length 0 before the end: the loop does not advance.\<close>

lemma controller_loop_stuck:
  assumes "m (pos + 1) = 0" "pos < end_addr" "m pos \<noteq> 0" "m pos \<noteq> 1"
  shows "controller_loop m pos end_addr info = None"
proof -
  have "controller_loop m pos end_addr info = Some r \<Longrightarrow> \<not> (m (pos + 1) = 0 \<and> pos < end_addr \<and> m pos \<noteq> 0 \<and> m pos \<noteq> 1)" for r
  proof (induction rule: controller_loop.raw_induct [rotated, consumes 1, case_names step])
    case (step loop m pos end_addr info r)
    show ?case
    proof
      assume a: "m (pos + 1) = 0 \<and> pos < end_addr \<and> m pos \<noteq> 0 \<and> m pos \<noteq> 1"
      then have "loop m pos end_addr info = Some r" using step(2) by (auto simp: add_controller_def Let_def split: if_splits)
      from step(1) [OF this] a show False by blast
    qed
  qed
  then show ?thesis using assms by (cases "controller_loop m pos end_addr info") auto
qed

text \<open>A controller of length 0: it is entered again and again, until the list is full.\<close>

lemma controller_loop_full:
  assumes "m (pos + 1) = 0" "pos < end_addr" "m pos = 0 \<or> m pos = 1" "length (lapic info) \<le> 100" "length (ioapic info) \<le> 100"
  shows "controller_loop m pos end_addr info = Some None"
  using assms
proof (induction "200 - (length (lapic info) + length (ioapic info))" arbitrary: info rule: less_induct)
  case less
  show ?case
  proof (cases "add_controller m pos info")
    case None
    then show ?thesis by (subst controller_loop.simps) simp
  next
    case (Some info')
    then have l: "length (lapic info') + length (ioapic info') = Suc (length (lapic info) + length (ioapic info))"
      "length (lapic info') \<le> 100" "length (ioapic info') \<le> 100" "length (lapic info) + length (ioapic info) < 200"
      using less.prems by (auto simp: add_controller_def split: if_splits)
    have "controller_loop m pos end_addr info' = Some None" using less.prems l by (intro less.hyps) auto
    then show ?thesis using Some less.prems(1,2) by (subst controller_loop.simps) (simp add: Let_def)
  qed
qed

text \<open>A table of two structures, for the witness: a local APIC and an I/O APIC.\<close>

definition demo_structures :: "u8 list list" where
  "demo_structures = [[0, 8, 1, 3, 1, 0, 0, 0], [1, 12, 9, 0, 0, 0, 0xC0, 0xFE, 0, 0, 0, 0]]"

definition demo_madt :: mem where
  "demo_madt = store (store (\<lambda>_. 0) 0x1004 [64]) 0x102C (concat demo_structures)"

text \<open>The end of the table and its first structure.\<close>

lemma madt_bounds:
  assumes "unat madt + unat (madt_length m madt) < 2 ^ 64"
  shows "unat (ucast (madt_length m madt) + madt) = unat madt + unat (madt_length m madt)"
    "44 \<le> unat (madt_length m madt) \<Longrightarrow> unat (madt + 44) = unat madt + 44"
proof -
  define w where "w = (ucast (madt_length m madt) :: u64)"
  have w: "unat w = unat (madt_length m madt)" using unat_lt [of "madt_length m madt"]
    unfolding w_def by (simp add: unsigned_ucast_eq take_bit_nat_eq_self)
  then have "unat w + unat madt < 2 ^ LENGTH(64)" using assms by simp
  then have "unat (w + madt) = unat w + unat madt" by (rule unat_add_lem [THEN iffD1])
  then show "unat (ucast (madt_length m madt) + madt) = unat madt + unat (madt_length m madt)"
    unfolding w w_def [symmetric] by (rule trans) (rule add.commute)
  show "44 \<le> unat (madt_length m madt) \<Longrightarrow> unat (madt + 44) = unat madt + 44"
    using assms unat_plus_if' [of madt 44] by simp
qed

text \<open>The walk reaches the place behind well-formed structures, or ends there.\<close>

lemma walk_reaches:
  fixes m madt info bs
  defines "pos \<equiv> madt + of_nat (44 + length (concat bs))" and "stop \<equiv> ucast (madt_length m madt) + madt"
    and "info' \<equiv> info\<lparr>localInterruptControllerAddress := madt_address m madt\<rparr>"
  assumes "\<forall>b \<in> set bs. structure_ok b" "load m (madt + 44) (length (concat bs)) = concat bs"
    "unat madt + unat (madt_length m madt) < 2 ^ 64" "room bs info"
  shows "44 + length (concat bs) < unat (madt_length m madt) \<Longrightarrow> pos < stop"
    "44 + length (concat bs) < unat (madt_length m madt) \<Longrightarrow>
       print_interrupt_controller_info m madt info = controller_loop m pos stop (collect bs info')"
    "unat (madt_length m madt) = 44 + length (concat bs) \<Longrightarrow> bs \<noteq> [] \<Longrightarrow>
       print_interrupt_controller_info m madt info = Some (Some (collect bs info'))"
proof -
  let ?off = "44 + length (concat bs)"
  have r: "print_interrupt_controller_info m madt info = controller_loop m (madt + 44) stop info'"
    by (simp add: print_interrupt_controller_info_def madt_structures_def stop_def info'_def)
  have room: "room bs info'" using assms(7) by (simp add: room_def info'_def)
  note e = madt_bounds(1) [OF assms(6), folded stop_def] and u = madt_bounds(2) [OF assms(6)]
  {
    assume lt: "?off < unat (madt_length m madt)"
    have "unat (of_nat ?off :: u64) = ?off" using lt unat_lt [of "madt_length m madt"] by (intro unat_of_nat_less) simp
    then have "unat pos = unat madt + ?off" using lt assms(6) by (simp add: pos_def unat_plus_if')
    then show "pos < stop" using lt e by (simp add: word_less_nat_alt)
    have "unat (madt + 44) + length (concat bs) < unat stop" using lt u e by simp
    from controller_loop_prefix [OF assms(4,5) room this]
    show "print_interrupt_controller_info m madt info = controller_loop m pos stop (collect bs info')" by (simp add: r pos_def add.assoc)
  }
  assume eq: "unat (madt_length m madt) = ?off" and ne: "bs \<noteq> []"
  obtain cs b where bs: "bs = cs @ [b]" using ne by (metis append_butlast_last_id)
  have ok: "structure_ok b" using assms(4) bs by simp
  have n: "length (concat bs) = length (concat cs) + length b" "2 \<le> length b" using ok bs by (simp_all add: structure_ok_def)
  have l: "load m (madt + 44) (length (concat cs)) = concat cs" "load m (madt + 44 + of_nat (length (concat cs))) (length b) = b"
    using assms(5) by (simp_all add: bs load_add)
  have rm: "room cs info'" "room [b] (collect cs info')" "collect [b] (collect cs info') = collect bs info'"
    using room by (auto simp: bs room_def collect_def of_type_def)
  have "44 \<le> unat (madt_length m madt)" using eq by simp
  then have "unat (madt + 44) + length (concat cs) < unat stop" using eq n u e by linarith
  from controller_loop_prefix [OF _ l(1) rm(1) this]
  have "print_interrupt_controller_info m madt info = controller_loop m (madt + 44 + of_nat (length (concat cs))) stop (collect cs info')"
    using assms(4) bs by (simp add: r)
  moreover have "ucast (madt_length m madt) = (of_nat ?off :: u64)" using eq by (metis of_nat_unat)
  then have "madt + 44 + of_nat (length (concat cs)) + of_nat (length b) \<ge> stop" using n by (simp add: stop_def algebra_simps)
  ultimately show "print_interrupt_controller_info m madt info = Some (Some (collect bs info'))"
    using controller_loop_last [OF ok l(2) rm(2)] rm(3) by simp
qed

text \<open>C40.
  The walk of print_interrupt_controller_info over well-formed structures \<open>bs\<close> for
  which the arrays have room. If they make up the table, their local and I/O APICs
  are collected in the order of the table. If the table goes on behind them, wherever
  that is: a controller for which its array has no room is stored past the array; a
  structure of length 0 that is no controller makes the walk run for ever; and a
  controller of length 0 is entered until its array is overrun.
\<close>

theorem print_interrupt_controller_info_collects:
  assumes "\<forall>b \<in> set bs. structure_ok b" "load m (madt + 44) (length (concat bs)) = concat bs"
    "unat madt + unat (madt_length m madt) < 2 ^ 64" "room bs info"
  shows "let end_offset = unat (madt_length m madt); offset = 44 + length (concat bs); pos = madt + of_nat offset;
      seen = collect bs (info\<lparr>localInterruptControllerAddress := madt_address m madt\<rparr>);
      result = print_interrupt_controller_info m madt info
    in (end_offset = offset \<and> bs \<noteq> [] \<longrightarrow> result = Some (Some seen)) \<and>
       (offset < end_offset \<and> (m pos = 0 \<and> length (lapic seen) = 100 \<or> m pos = 1 \<and> length (ioapic seen) = 100) \<longrightarrow> result = Some None) \<and>
       (offset < end_offset \<and> m (pos + 1) = 0 \<longrightarrow> result = (if m pos = 0 \<or> m pos = 1 then Some None else None))"
proof -
  let ?stop = "ucast (madt_length m madt) + madt" and ?info = "info\<lparr>localInterruptControllerAddress := madt_address m madt\<rparr>"
  let ?r = "print_interrupt_controller_info m madt info" and ?off = "44 + length (concat bs)" and ?seen = "collect bs ?info"
  let ?pos = "madt + of_nat ?off"
  note walk = walk_reaches [OF assms]
  have full: "length (lapic ?seen) \<le> 100" "length (ioapic ?seen) \<le> 100" using assms(4) by (simp_all add: room_def collect_def)
  have over: "?r = Some None" if lt: "?off < unat (madt_length m madt)"
    and f: "m ?pos = 0 \<and> length (lapic ?seen) = 100 \<or> m ?pos = 1 \<and> length (ioapic ?seen) = 100"
  proof -
    have "add_controller m ?pos ?seen = None" using f by (auto simp: add_controller_def)
    then show ?thesis unfolding walk(2) [OF lt] by (subst controller_loop.simps) simp
  qed
  have zero: "?r = (if m ?pos = 0 \<or> m ?pos = 1 then Some None else None)" if lt: "?off < unat (madt_length m madt)" and z: "m (?pos + 1) = 0"
  proof (cases "m ?pos = 0 \<or> m ?pos = 1")
    case True
    show ?thesis unfolding walk(2) [OF lt] using controller_loop_full [where m = m and pos = ?pos, OF z walk(1) [OF lt] True full] True by simp
  next
    case False
    then show ?thesis unfolding walk(2) [OF lt] using controller_loop_stuck [where m = m and pos = ?pos, OF z walk(1) [OF lt]] by simp
  qed
  show ?thesis unfolding Let_def using walk(3) over zero by blast
qed

theorem print_interrupt_controller_info_collects_witness:
  "print_interrupt_controller_info demo_madt 0x1000 \<lparr>localInterruptControllerAddress = 0, lapic = [], ioapic = []\<rparr> =
     Some (Some \<lparr>localInterruptControllerAddress = 0, lapic = [\<lparr>la_length = 8, apicUid = 1, apicId = 3, la_flags = 1\<rparr>],
       ioapic = [\<lparr>ia_length = 12, ioApicId = 9, ioApicAddress = 0xFEC00000, globalSystemInterruptBase = 0\<rparr>]\<rparr>)"
proof -
  let ?info = "\<lparr>localInterruptControllerAddress = 0, lapic = [], ioapic = []\<rparr>"
  have a: "\<forall>b \<in> set demo_structures. structure_ok b" "demo_structures \<noteq> []" "room demo_structures ?info"
    by (simp_all add: demo_structures_def structure_ok_def room_def of_type_def)
  have n: "length (concat demo_structures) = 20" by (simp add: demo_structures_def)
  have l: "load demo_madt (0x1000 + 44) (length (concat demo_structures)) = concat demo_structures"
    unfolding demo_madt_def by (simp add: load_store_same n)
  have len: "madt_length demo_madt 0x1000 = 64" "madt_address demo_madt 0x1000 = 0"
    by (simp_all add: madt_length_def madt_address_def rd32_def load_def upt_rec demo_madt_def store_def n)
  have "unat (0x1000 :: u64) + unat (madt_length demo_madt 0x1000) < 2 ^ 64" by (simp add: len)
  from print_interrupt_controller_info_collects [OF a(1) l this a(3)]
  have "print_interrupt_controller_info demo_madt 0x1000 ?info =
      Some (Some (collect demo_structures (?info\<lparr>localInterruptControllerAddress := madt_address demo_madt 0x1000\<rparr>)))"
    using a(2) n len by (simp add: Let_def)
  then show ?thesis unfolding len
    by (simp add: collect_def demo_structures_def of_type_def local_of_def io_of_def)
qed

end
