(* ===== verification/Logger.thy ===== *)
theory Logger
  imports Prelude
begin

text \<open>
  The print helpers shared by the kernels (components/logger/logger.c and
  logger.h). A print is recorded as the format and the arguments of the printk
  call it makes; what printk does with them is the formatter's part.
\<close>

datatype print_arg = Num u64 | Str "u8 list"

type_synonym print = "string \<times> print_arg list"

text \<open>A line with its line feed.\<close>

definition ln :: "string \<Rightarrow> string" where
  "ln s = s @ [CHR 0x0A]"

definition chars :: "string \<Rightarrow> u8 list" where
  "chars s = map of_char s"

definition print_hex :: "'a::len cmem \<Rightarrow> 'a word \<Rightarrow> int \<Rightarrow> print list" where
  "print_hex m buf len =
     (if len = 0 then []
      else map (\<lambda>i. (''%.2x'', [Num (ucast (m (buf + of_nat i)))])) [0..<nat len] @ [(ln '' %d.'', [Num (of_int len)])])"

definition print_hex_qword :: "'a::len cmem \<Rightarrow> 'a word \<Rightarrow> int \<Rightarrow> print list" where
  "print_hex_qword m buf len =
     (if len = 0 then []
      else map (\<lambda>i. (''0x%.16x '', [Num (rd64 m (buf + 8 * of_nat i))])) [0..<nat len] @ [(ln '' %d.'', [Num (of_int len)])])"

text \<open>
  The array str of 100 bytes, zero except for the copied bytes; \<open>None\<close> if the copy
  leaves the array or no terminator is left for the conversion \<open>%s\<close>.
\<close>

definition str_array :: "'a::len cmem \<Rightarrow> 'a word \<Rightarrow> int \<Rightarrow> u8 list option" where
  "str_array m buf len =
     (let str = load m buf (nat len) @ replicate (100 - nat len) 0
      in if 0 \<le> len \<and> len \<le> 100 \<and> 0 \<in> set str then Some (takeWhile (\<lambda>b. b \<noteq> 0) str) else None)"

definition print_nstring_label :: "'a::len cmem \<Rightarrow> 'a word \<Rightarrow> int \<Rightarrow> string \<Rightarrow> print list option" where
  "print_nstring_label m buf len label =
     (if len = 0 then Some []
      else map_option (\<lambda>str. [(ln ''[%s]:%s.'', [Str (chars label), Str str])]) (str_array m buf len))"

definition print_nstring :: "'a::len cmem \<Rightarrow> 'a word \<Rightarrow> int \<Rightarrow> print list option" where
  "print_nstring m buf len =
     (if len = 0 then Some [] else map_option (\<lambda>str. [(ln ''%s.'', [Str str])]) (str_array m buf len))"

text \<open>The macros debugsit, debug, log, warn and err at line \<open>line\<close> of the function \<open>func\<close>.\<close>

definition debugsit :: "string \<Rightarrow> u64 \<Rightarrow> print list" where
  "debugsit func line = [(''[%s]'', [Str (chars func)]), (ln ''[%d].'', [Num line])]"

definition tagged :: "string \<Rightarrow> string \<Rightarrow> u64 \<Rightarrow> string \<Rightarrow> print_arg list \<Rightarrow> print" where
  "tagged tag func line argv1 args = (tag @ ''[%s:%d]:'' @ argv1, Str (chars func) # Num line # args)"

definition debug :: "string \<Rightarrow> u64 \<Rightarrow> string \<Rightarrow> print_arg list \<Rightarrow> print" where "debug = tagged ''[DEBUG]''"
definition log_print :: "string \<Rightarrow> u64 \<Rightarrow> string \<Rightarrow> print_arg list \<Rightarrow> print" where "log_print = tagged ''[LOG]''"
definition warn :: "string \<Rightarrow> u64 \<Rightarrow> string \<Rightarrow> print_arg list \<Rightarrow> print" where "warn = tagged ''[WARN]''"
definition err :: "string \<Rightarrow> u64 \<Rightarrow> string \<Rightarrow> print_arg list \<Rightarrow> print" where "err = tagged ''[ERR]''"

end
