(* ===== verification/Idt64.thy ===== *)
theory Idt64
  imports Logger
begin

text \<open>
  The interrupt descriptors of the 64-bit kernel (x64_kenerl/kernel/idt.c and
  include/linux/idt.h) and the reports on processor exceptions
  (kernel/exceptionErrorCode.c). The addresses of the assembly entries are
  parameters; a report is the list of its prints, on the processor of the number
  \<open>cpu\<close> that get_lapic_id returns and with \<open>m\<close> the memory that holds the stack.
\<close>

section \<open>Descriptors\<close>

definition PIC_M_CTRL :: u32 where "PIC_M_CTRL = 0x20"
definition PIC_S_CTRL :: u32 where "PIC_S_CTRL = 0xa0"
definition PIC_EOI :: u32 where "PIC_EOI = 0x20"

text \<open>The bytes written to the ports.\<close>

definition send_eoi :: "int \<Rightarrow> (u32 \<times> u32) list" where
  "send_eoi idt_index =
     (if idt_index \<ge> 0x20 \<and> idt_index < 0x28 then [(PIC_M_CTRL, PIC_EOI)]
      else if idt_index \<ge> 0x28 \<and> idt_index < 0x30 then [(PIC_M_CTRL, PIC_EOI), (PIC_S_CTRL, PIC_EOI)]
      else [])"

definition clock_interrupt_handler :: "(u32 \<times> u32) list" where
  "clock_interrupt_handler = send_eoi 0x20"

definition INTER_ID_TIMER :: nat where "INTER_ID_TIMER = 0x20"
definition INTER_ID_IPI_TEST :: nat where "INTER_ID_IPI_TEST = 0xA0"
definition INTER_ID_IPI_TEST1 :: nat where "INTER_ID_IPI_TEST1 = 0xA1"
definition INTER_ID_LAPIC_TIMER :: nat where "INTER_ID_LAPIC_TIMER = 0xA2"
definition INTER_ID_SCHED_BROADCAST :: nat where "INTER_ID_SCHED_BROADCAST = 0xA3"
definition INTER_ID_0X80 :: nat where "INTER_ID_0X80 = 0x80"

lemmas inter_ids = INTER_ID_TIMER_def INTER_ID_IPI_TEST_def INTER_ID_IPI_TEST1_def INTER_ID_LAPIC_TIMER_def
  INTER_ID_SCHED_BROADCAST_def INTER_ID_0X80_def

record idt_item_t =
  offset0 :: u16
  selector :: u16
  ist :: u8
  gate_type :: u8
  segment :: u8
  dpl :: u8
  present :: u8
  offset1 :: u16
  offset2 :: u32
  reserved :: u32

text \<open>The entries of the assembly code.\<close>

record entries =
  inter_entry :: "nat \<Rightarrow> u64"
  general_interrupt_handler :: u64
  clock_handler_entry :: u64
  IPI_TEST_handler_entry :: u64
  IPI_TEST_handler_entry1 :: u64
  lapic_timer_entry :: u64
  lapic_sched_broadcast_entry :: u64

text \<open>
  The switch: the variable handler keeps its value in the case of 0x80, where only
  the privilege level of the item is set.
\<close>

definition idt_handler :: "entries \<Rightarrow> nat \<Rightarrow> u64 \<Rightarrow> u64" where
  "idt_handler e i handler =
     (if i \<le> 21 then inter_entry e i
      else if i = INTER_ID_TIMER then clock_handler_entry e
      else if i = INTER_ID_0X80 then handler
      else if i = INTER_ID_IPI_TEST then IPI_TEST_handler_entry e
      else if i = INTER_ID_IPI_TEST1 then IPI_TEST_handler_entry1 e
      else if i = INTER_ID_LAPIC_TIMER then lapic_timer_entry e
      else if i = INTER_ID_SCHED_BROADCAST then lapic_sched_broadcast_entry e
      else general_interrupt_handler e)"

definition fill_item :: "nat \<Rightarrow> u64 \<Rightarrow> idt_item_t \<Rightarrow> idt_item_t" where
  "fill_item i handler item =
     (let item = (if i = INTER_ID_0X80 then item\<lparr>dpl := 3\<rparr> else item)
      in item\<lparr>offset0 := ucast (handler AND 0xffff), selector := 0x18, ist := 0, gate_type := 0b1110, segment := 0,
           dpl := 0, present := 1, offset1 := ucast (drop_bit 16 handler AND 0xffff),
           offset2 := ucast (drop_bit 32 handler AND 0xffffffff)\<rparr>)"

fun idt_loop :: "entries \<Rightarrow> nat \<Rightarrow> u64 \<Rightarrow> idt_item_t list \<Rightarrow> idt_item_t list" where
  "idt_loop e i handler [] = []"
| "idt_loop e i handler (item # items) =
     (let handler = idt_handler e i handler in fill_item i handler item # idt_loop e (Suc i) handler items)"

record idt_state =
  g_idtItems :: "idt_item_t list"
  g_idtr :: "u16 \<times> u64"
  idtr_loaded :: "u16 \<times> u64"
  if_flag :: bool

text \<open>\<open>addr\<close> is the address of g_idtItems, 256 items of 16 bytes.\<close>

definition init_idt :: "entries \<Rightarrow> u64 \<Rightarrow> idt_state \<Rightarrow> idt_state" where
  "init_idt e addr s =
     (let idtr = (of_nat (16 * length (g_idtItems s)) - 1, addr)
      in s\<lparr>g_idtItems := idt_loop e 0 (general_interrupt_handler e) (g_idtItems s), g_idtr := idtr,
           idtr_loaded := idtr, if_flag := True\<rparr>)"

definition init_ap_idt :: "idt_state \<Rightarrow> idt_state" where
  "init_ap_idt s = s\<lparr>idtr_loaded := g_idtr s\<rparr>"

section \<open>Exceptions\<close>

text \<open>The bit-fields of the error codes.\<close>

definition ebit :: "nat \<Rightarrow> u32 \<Rightarrow> bool" where
  "ebit i code \<longleftrightarrow> drop_bit i code AND 1 \<noteq> 0"

definition say :: "string \<Rightarrow> print" where "say t = (ln t, [])"

definition handle_normal_errcode :: "u32 \<Rightarrow> mem \<Rightarrow> u32 \<Rightarrow> u64 \<Rightarrow> u64 \<Rightarrow> print list" where
  "handle_normal_errcode cpu m error_code stack no =
     [(CHR 0x0A # ln ''####################### cpu %d : Normal exception %d : code 0x%x #######################'',
       [Num (ucast cpu), Num no, Num (ucast error_code)]),
      say (if ebit 0 error_code then ''### EIT 1: external event caused the fault.''
           else ''### EIT 0: a software interrupt (INT n, INT3, or INTO) caused the fault.''),
      say (if ebit 1 error_code then ''### IDT 1: Fault caused by IDT descriptor''
           else if error_code AND 0x4 \<noteq> 0 then ''### TI 1: Fault caused by LDT descriptor.''
           else ''### TI 0: Fault caused by GDT descriptor.''),
      (ln ''### Selector index: %u.'', [Num (ucast (drop_bit 3 error_code AND 0x1FFF))]),
      (''### stack dump %.8p: '', [Num stack])] @ print_hex_qword m stack 6"

definition handle_PF_errcode :: "u32 \<Rightarrow> mem \<Rightarrow> u32 \<Rightarrow> u64 \<Rightarrow> u64 \<Rightarrow> print list" where
  "handle_PF_errcode cpu m code stack no =
     [(CHR 0x0A # ln ''####################### cpu %d : Page fault %d : code 0x%x #######################'',
       [Num (ucast cpu), Num no, Num (ucast code)]),
      say (if ebit 0 code then ''### P 1: The fault was caused by a non-present page.''
           else ''### P 0: The fault was caused by a page-level protection violation.''),
      say (if ebit 1 code then ''### WR 1: The access causing the fault was a write.''
           else ''### WR 0: The access causing the fault was a read.''),
      say (if ebit 2 code then ''### US 1: A user-mode access caused the fault.''
           else ''### US 0: A supervisor-mode access caused the fault.''),
      say (if ebit 3 code then ''### RSVD 1: The fault was caused by a reserved bit set to 1 in some paging-structure entry.''
           else ''### RSVD 0: The fault was not caused by reserved bit violation.''),
      say (if ebit 4 code then ''### ID 1: The fault was not caused by an instruction fetch.''
           else ''### ID 0: The fault was caused by an instruction fetch.''),
      say (if ebit 5 code then ''### PK 1: The fault was not caused by protection keys.''
           else ''### PK 0: There was a protection-key violation.''),
      say (if ebit 6 code then ''### SS 1: The fault was caused by a shadow-stack access.''
           else ''### SS 0: The fault was not caused by a shadow-stack access.''),
      say (if ebit 7 code then ''### HLAT 1: The fault occurred during HLAT paging.''
           else ''### HLAT 0: The fault occurred during ordinary paging or due to access rights.''),
      say (if ebit 15 code then ''### HLAT 1: The fault resulted from violation of SGX-specific access-control requirements.''
           else ''### HLAT 0: The fault is not related to SGX.''),
      (''### stack dump %.8p: '', [Num stack])] @ print_hex_qword m (stack + 8) 5"

definition handle_CP_errcode :: "u32 \<Rightarrow> mem \<Rightarrow> u32 \<Rightarrow> u64 \<Rightarrow> u64 \<Rightarrow> print list" where
  "handle_CP_errcode cpu m code stack no =
     (let CPEC = code AND 0x7fff
      in [(CHR 0x0A # ln ''####################### cpu %d : Control protection %d : code 0x%x #######################'',
           [Num (ucast cpu), Num no, Num (ucast code)])] @
         (if CPEC = 1 then [say ''### CPEC 1: The #CP was caused by a near RET instruction.''] else []) @
         (if CPEC = 2 then [say ''### CPEC 2: The #CP was caused by a FAR RET or IRET instruction.''] else []) @
         (if CPEC = 3 then [say ''### CPEC 3: The #CP was due to missing ENDBRANCH at target of an indirect call or jump instruction.''] else []) @
         (if CPEC = 4 then [say ''### CPEC 4: The #CP was caused by a shadow-stack-restore token check failure in the RSTORSSP instruction.''] else []) @
         (if CPEC = 5 then [say ''### CPEC 5: The #CP was caused by a supervisor shadow stack token check failure in the SETSSBSY instruction.''] else []) @
         (if ebit 15 code then [say ''### ENCL 1: The #CP occurred during enclave execution.''] else []) @
         [(''### stack dump %.8p: '', [Num stack])] @ print_hex_qword m stack 6)"

section \<open>What the gates hold\<close>

definition gate_offset :: "idt_item_t \<Rightarrow> u64" where
  "gate_offset item = ucast (offset0 item) OR push_bit 16 (ucast (offset1 item)) OR push_bit 32 (ucast (offset2 item))"

lemma fill_item_offset: "gate_offset (fill_item i handler item) = handler"
proof (rule bit_eqI)
  fix n
  assume "possible_bit TYPE(u64) n"
  then have n: "n < 64" by simp
  have 16: "(0xffff :: u64) = mask 16" "(0xffffffff :: u64) = mask 32" by (simp_all add: mask_eq_exp_minus_1)
  consider "n < 16" | "16 \<le> n" "n < 32" | "32 \<le> n" by linarith
  then show "bit (gate_offset (fill_item i handler item)) n = bit handler n"
    by cases (use n in \<open>auto simp: gate_offset_def fill_item_def Let_def 16 bit_or_iff bit_and_iff bit_push_bit_iff
      bit_drop_bit_eq bit_unsigned_iff bit_mask_iff possible_bit_def\<close>)
qed

lemma fill_item_fields:
  "selector (fill_item i h item) = 0x18" "gate_type (fill_item i h item) = 0b1110" "dpl (fill_item i h item) = 0"
  "present (fill_item i h item) = 1" "ist (fill_item i h item) = 0"
  by (simp_all add: fill_item_def Let_def)

text \<open>The handler of entry \<open>k\<close>: only 0x80 depends on the entry before.\<close>

lemma idt_loop_nth:
  "k < length items \<Longrightarrow> (INTER_ID_0X80 = i \<longrightarrow> h = general_interrupt_handler e) \<Longrightarrow>
   gate_offset (idt_loop e i h items ! k) = idt_handler e (i + k) (general_interrupt_handler e)"
proof (induction items arbitrary: i h k)
  case (Cons item items)
  show ?case
  proof (cases k)
    case 0
    then show ?thesis using Cons.prems(2) by (auto simp: Let_def fill_item_offset idt_handler_def)
  next
    case (Suc j)
    have "INTER_ID_0X80 = Suc i \<longrightarrow> idt_handler e i h = general_interrupt_handler e"
      by (auto simp: idt_handler_def inter_ids)
    then show ?thesis using Cons.IH [of j "Suc i" "idt_handler e i h"] Cons.prems(1) Suc by (simp add: Let_def)
  qed
qed simp

lemma length_idt_loop [simp]: "length (idt_loop e i h items) = length items"
  by (induction items arbitrary: i h) (simp_all add: Let_def)

lemma idt_loop_item: "k < length items \<Longrightarrow> \<exists>j h' item. idt_loop e i h items ! k = fill_item j h' item"
proof (induction items arbitrary: i h k)
  case (Cons item items)
  then show ?case by (cases k) (auto simp: Let_def)
qed simp

section \<open>Properties\<close>

text \<open>C35.
  init_idt makes every one of the 256 entries a present interrupt gate of the
  kernel's code segment at privilege level 0, the entry 0x80 included, whose level
  3 is overwritten; the three parts of the offset give back the address of the
  handler the entry is meant for.
\<close>

theorem init_idt_gates:
  assumes "length (g_idtItems s) = 256" and "k < 256"
  shows "let item = g_idtItems (init_idt e addr s) ! k
    in present item = 1 \<and> gate_type item = 0b1110 \<and> selector item = 0x18 \<and> dpl item = 0 \<and>
       gate_offset item =
         (if k \<le> 21 then inter_entry e k else if k = 0x20 then clock_handler_entry e
          else if k = 0xA0 then IPI_TEST_handler_entry e else if k = 0xA1 then IPI_TEST_handler_entry1 e
          else if k = 0xA2 then lapic_timer_entry e else if k = 0xA3 then lapic_sched_broadcast_entry e
          else general_interrupt_handler e) \<and>
       idtr_loaded (init_idt e addr s) = (0xfff, addr)"
proof -
  let ?items = "idt_loop e 0 (general_interrupt_handler e) (g_idtItems s)"
  obtain j h item where i: "?items ! k = fill_item j h item"
    using idt_loop_item [of k "g_idtItems s" e 0 "general_interrupt_handler e"] assms by auto
  have "gate_offset (?items ! k) = idt_handler e k (general_interrupt_handler e)"
    using idt_loop_nth [of k "g_idtItems s" 0] assms by (simp add: INTER_ID_0X80_def)
  then show ?thesis
    using assms(1) by (simp add: init_idt_def Let_def i fill_item_fields idt_handler_def inter_ids)
qed

definition demo_entries :: entries where
  "demo_entries = \<lparr>inter_entry = (\<lambda>i. 0x1000 + of_nat i), general_interrupt_handler = 0x2000, clock_handler_entry = 0x3000,
     IPI_TEST_handler_entry = 0x4000, IPI_TEST_handler_entry1 = 0x5000, lapic_timer_entry = 0x6000,
     lapic_sched_broadcast_entry = 0x7000\<rparr>"

definition demo_item :: idt_item_t where
  "demo_item = \<lparr>offset0 = 0, selector = 0, ist = 0, gate_type = 0, segment = 0, dpl = 0, present = 0, offset1 = 0,
     offset2 = 0, reserved = 0\<rparr>"

definition demo_idt :: idt_state where
  "demo_idt = \<lparr>g_idtItems = replicate 256 demo_item, g_idtr = (0, 0), idtr_loaded = (0, 0), if_flag = False\<rparr>"

theorem init_idt_gates_witness:
  "gate_offset (g_idtItems (init_idt demo_entries 0x9000 demo_idt) ! 0xA2) = 0x6000 \<and>
   dpl (g_idtItems (init_idt demo_entries 0x9000 demo_idt) ! 0x80) = 0"
proof -
  have "length (g_idtItems demo_idt) = 256" by (simp add: demo_idt_def)
  from init_idt_gates [OF this, of "0xA2" demo_entries "0x9000"] init_idt_gates [OF this, of "0x80" demo_entries "0x9000"]
  show ?thesis by (simp add: Let_def demo_entries_def)
qed

end
