(* ===== verification/Keyboard.thy ===== *)
theory Keyboard
  imports Prelude
begin

text \<open>
  The keyboard driver of the 32-bit kernel
  (x86_kernel/kernel/chr_drv/keyboard.c): one interrupt reads one scan code. The
  state is the columns 2 and 3 of the key map (key pressed, extended key pressed),
  the four lock and prefix flags and the characters printed so far. The first two
  columns of the map (character without and with shift) never change and are a
  constant.
\<close>

section \<open>Definitions\<close>

text \<open>The enumeration key_index_t: the value of a name is its position.\<close>

definition key_index_t :: "string list" where
  "key_index_t =
    [''KEY_NONE'', ''KEY_ESC'', ''KEY_1'', ''KEY_2'', ''KEY_3'', ''KEY_4'', ''KEY_5'', ''KEY_6'', ''KEY_7'',
     ''KEY_8'', ''KEY_9'', ''KEY_0'', ''KEY_MINUS'', ''KEY_EQUAL'', ''KEY_BACKSPACE'', ''KEY_TAB'', ''KEY_Q'',
     ''KEY_W'', ''KEY_E'', ''KEY_R'', ''KEY_T'', ''KEY_Y'', ''KEY_U'', ''KEY_I'', ''KEY_O'', ''KEY_P'',
     ''KEY_BRACKET_L'', ''KEY_BRACKET_R'', ''KEY_ENTER'', ''KEY_CTRL_L'', ''KEY_A'', ''KEY_S'', ''KEY_D'', ''KEY_F'',
     ''KEY_G'', ''KEY_H'', ''KEY_J'', ''KEY_K'', ''KEY_L'', ''KEY_SEMICOLON'', ''KEY_QUOTE'', ''KEY_BACKQUOTE'',
     ''KEY_SHIFT_L'', ''KEY_BACKSLASH'', ''KEY_Z'', ''KEY_X'', ''KEY_C'', ''KEY_V'', ''KEY_B'', ''KEY_N'', ''KEY_M'',
     ''KEY_COMMA'', ''KEY_POINT'', ''KEY_SLASH'', ''KEY_SHIFT_R'', ''KEY_STAR'', ''KEY_ALT_L'', ''KEY_SPACE'',
     ''KEY_CAPSLOCK'', ''KEY_F1'', ''KEY_F2'', ''KEY_F3'', ''KEY_F4'', ''KEY_F5'', ''KEY_F6'', ''KEY_F7'',
     ''KEY_F8'', ''KEY_F9'', ''KEY_F10'', ''KEY_NUMLOCK'', ''KEY_SCRLOCK'', ''KEY_PAD_7'', ''KEY_PAD_8'',
     ''KEY_PAD_9'', ''KEY_PAD_MINUS'', ''KEY_PAD_4'', ''KEY_PAD_5'', ''KEY_PAD_6'', ''KEY_PAD_PLUS'', ''KEY_PAD_1'',
     ''KEY_PAD_2'', ''KEY_PAD_3'', ''KEY_PAD_0'', ''KEY_PAD_POINT'', ''KEY_54'', ''KEY_55'', ''KEY_56'', ''KEY_F11'',
     ''KEY_F12'', ''KEY_59'', ''KEY_WIN_L'', ''KEY_WIN_R'', ''KEY_CLIPBOARD'', ''KEY_5D'', ''KEY_5E'',
     ''KEY_PRINT_SCREEN'']"

definition key_index :: "string \<Rightarrow> nat" where
  "key_index n = length (takeWhile (\<lambda>x. x \<noteq> n) key_index_t)"

definition CODE_PRINT_SCREEN_DOWN :: u16 where "CODE_PRINT_SCREEN_DOWN = 0xB7"

definition keymap :: "(u8 \<times> u8) list" where
  "keymap =
    [(0, 0), (27, 27), (49, 33), (50, 64), (51, 35), (52, 36), (53, 37), (54, 94), (55, 38), (56, 42), (57, 40),
     (48, 41), (45, 95), (61, 43), (8, 8), (9, 9), (113, 81), (119, 87), (101, 69), (114, 82), (116, 84), (121,
     89), (117, 85), (105, 73), (111, 79), (112, 80), (91, 123), (93, 125), (10, 10), (0, 0), (97, 65), (115, 83),
     (100, 68), (102, 70), (103, 71), (104, 72), (106, 74), (107, 75), (108, 76), (59, 58), (39, 34), (96, 126),
     (0, 0), (92, 124), (122, 90), (120, 88), (99, 67), (118, 86), (98, 66), (110, 78), (109, 77), (44, 60), (46,
     62), (47, 63), (0, 0), (42, 42), (0, 0), (32, 32), (0, 0), (0, 0), (0, 0), (0, 0), (0, 0), (0, 0), (0, 0), (0,
     0), (0, 0), (0, 0), (0, 0), (0, 0), (0, 0), (55, 0), (56, 0), (57, 0), (45, 45), (52, 0), (53, 0), (54, 0),
     (43, 43), (49, 0), (50, 0), (51, 0), (48, 0), (46, 127), (0, 0), (0, 0), (0, 0), (0, 0), (0, 0), (0, 0), (0,
     0), (0, 0), (0, 0), (0, 0), (0, 0), (0, 0)]"

record keyboard =
  pressed :: "bool list"
  ext_pressed :: "bool list"
  capslock_state :: bool
  scrlock_state :: bool
  numlock_state :: bool
  extcode_state :: bool
  printed :: "u8 list"

definition keyboard_start :: keyboard where
  "keyboard_start = \<lparr>pressed = replicate 96 False, ext_pressed = replicate 96 False, capslock_state = False,
     scrlock_state = False, numlock_state = False, extcode_state = False, printed = []\<rparr>"

definition ctrl_state :: "keyboard \<Rightarrow> bool" where
  "ctrl_state s \<longleftrightarrow> pressed s ! key_index ''KEY_CTRL_L'' \<or> ext_pressed s ! key_index ''KEY_CTRL_L''"

definition alt_state :: "keyboard \<Rightarrow> bool" where
  "alt_state s \<longleftrightarrow> pressed s ! key_index ''KEY_ALT_L'' \<or> ext_pressed s ! key_index ''KEY_ALT_L''"

definition shift_state :: "keyboard \<Rightarrow> bool" where
  "shift_state s \<longleftrightarrow> pressed s ! key_index ''KEY_SHIFT_L'' \<or> pressed s ! key_index ''KEY_SHIFT_R''"

text \<open>keymap[makecode][ext] = b, with ext 2 or 3.\<close>

definition set_key :: "bool \<Rightarrow> nat \<Rightarrow> bool \<Rightarrow> keyboard \<Rightarrow> keyboard" where
  "set_key ext k b s = (if ext then s\<lparr>ext_pressed := (ext_pressed s)[k := b]\<rparr> else s\<lparr>pressed := (pressed s)[k := b]\<rparr>)"

definition toggle_locks :: "nat \<Rightarrow> keyboard \<Rightarrow> keyboard" where
  "toggle_locks k s =
     (if k = key_index ''KEY_NUMLOCK'' then s\<lparr>numlock_state := \<not> numlock_state s\<rparr>
      else if k = key_index ''KEY_CAPSLOCK'' then s\<lparr>capslock_state := \<not> capslock_state s\<rparr>
      else if k = key_index ''KEY_SCRLOCK'' then s\<lparr>scrlock_state := \<not> scrlock_state s\<rparr>
      else s)"

text \<open>
  The scan code is a byte: the prefix 0xe000 that is or-ed into it is lost in the
  conversion back to u8.
\<close>

definition keymap_handler :: "u8 \<Rightarrow> keyboard \<Rightarrow> keyboard" where
  "keymap_handler scancode s =
     (if scancode = 0xe0 then s\<lparr>extcode_state := True\<rparr>
      else
        (let ext = extcode_state s;
             scancode = (if ext then ucast ((ucast scancode :: u32) OR 0xe000) else scancode);
             s = s\<lparr>extcode_state := False\<rparr>;
             makecode = ucast scancode AND (0x7f :: u16);
             makecode = (if makecode = CODE_PRINT_SCREEN_DOWN then of_nat (key_index ''KEY_PRINT_SCREEN'') else makecode);
             k = unat makecode
         in if k > key_index ''KEY_PRINT_SCREEN'' then s
            else if scancode AND 0x80 \<noteq> 0 then set_key ext k False s
            else
              (let s = toggle_locks k (set_key ext k True s);
                   shift = (capslock_state s \<noteq> shift_state s);
                   ch = (if ext \<and> k \<noteq> key_index ''KEY_SLASH'' then snd (keymap ! k)
                         else if shift then snd (keymap ! k) else fst (keymap ! k))
               in if ch = 0 then s else s\<lparr>printed := printed s @ [ch]\<rparr>)))"

section \<open>The key numbers\<close>

lemma key_numbers:
  "key_index ''KEY_CTRL_L'' = 0x1D" "key_index ''KEY_ALT_L'' = 0x38" "key_index ''KEY_SHIFT_L'' = 0x2A"
  "key_index ''KEY_SHIFT_R'' = 0x36" "key_index ''KEY_NUMLOCK'' = 0x45" "key_index ''KEY_CAPSLOCK'' = 0x3A"
  "key_index ''KEY_SCRLOCK'' = 0x46" "key_index ''KEY_SLASH'' = 0x35" "key_index ''KEY_PRINT_SCREEN'' = 0x5F"
  by (simp_all add: key_index_def key_index_t_def)

section \<open>The reference: what a history of scan codes means\<close>

text \<open>An event is a scan code with the flag whether the prefix 0xe0 came before it.\<close>

fun events :: "bool \<Rightarrow> u8 list \<Rightarrow> (bool \<times> u8) list" where
  "events e [] = []"
| "events e (c # cs) = (if c = 0xe0 then events True cs else (e, c) # events False cs)"

text \<open>A key is down when its last event is a press; caps lock counts the presses of its key.\<close>

definition key_events :: "(bool \<times> u8) list \<Rightarrow> bool \<Rightarrow> nat \<Rightarrow> (bool \<times> u8) list" where
  "key_events evs x k = filter (\<lambda>(e, c). e = x \<and> unat (c AND 0x7f) = k) evs"

definition down :: "(bool \<times> u8) list \<Rightarrow> bool \<Rightarrow> nat \<Rightarrow> bool" where
  "down evs x k \<longleftrightarrow> key_events evs x k \<noteq> [] \<and> snd (last (key_events evs x k)) AND 0x80 = 0"

definition caps :: "(bool \<times> u8) list \<Rightarrow> bool" where
  "caps evs \<longleftrightarrow> odd (length (filter (\<lambda>(e, c). c = 0x3A) evs))"

text \<open>The character of the last event of a history.\<close>

definition key_char :: "(bool \<times> u8) list \<Rightarrow> u8 list" where
  "key_char evs =
     (let (e, c) = last evs; k = unat (c AND 0x7f);
          shift = (caps evs \<noteq> (down evs False 0x2A \<or> down evs False 0x36));
          ch = (if e \<and> k \<noteq> 0x35 \<or> shift then snd (keymap ! k) else fst (keymap ! k))
      in if c AND 0x80 \<noteq> 0 \<or> 0x5F < k \<or> ch = 0 then [] else [ch])"

definition typed :: "(bool \<times> u8) list \<Rightarrow> u8 list" where
  "typed evs = concat (map (\<lambda>i. key_char (take (Suc i) evs)) [0..<length evs])"

lemma typed_snoc: "typed (evs @ [ev]) = typed evs @ key_char (evs @ [ev])"
  by (auto simp: typed_def intro!: arg_cong [of _ _ concat] map_cong)

lemma events_snoc: "events e (cs @ [c]) =
   (if c = 0xe0 then events e cs else events e cs @ [(if cs = [] then e else last cs = 0xe0, c)])"
  by (induction cs arbitrary: e) auto

lemma down_snoc: "down (evs @ [(x, c)]) y k \<longleftrightarrow> (if y = x \<and> unat (c AND 0x7f) = k then c AND 0x80 = 0 else down evs y k)"
  by (auto simp: down_def key_events_def)

lemma caps_snoc: "caps (evs @ [(x, c)]) \<longleftrightarrow> (if c = 0x3A then \<not> caps evs else caps evs)"
  by (auto simp: caps_def)

text \<open>The bytes of the handler: the prefix is lost, print screen is never seen.\<close>

lemma ext_prefix_lost: "ucast ((ucast (c :: u8) :: u32) OR 0xe000) = c"
proof -
  have e: "(0xe000 :: u32) = push_bit 13 7" by simp
  show ?thesis
    unfolding e by (intro bit_eqI) (auto simp: bit_or_iff bit_unsigned_iff bit_push_bit_iff simp del: push_bit_numeral dest: bit_imp_le_length)
qed

lemma makecode_small: "(ucast (c :: u8) AND 0x7f :: u16) \<noteq> 0xB7" "unat (ucast (c :: u8) AND 0x7f :: u16) = unat (c AND 0x7f)"
proof -
  have 7: "(0x7f :: u16) = mask 7" "(0x7f :: u8) = mask 7" by (simp_all add: mask_eq_exp_minus_1)
  have u: "unat (x AND mask 7) = unat x mod 128" for x :: "'a::len word"
    using unat_and_mask [of x 7] by simp
  have "unat (ucast c :: u16) = unat c" by (simp add: unsigned_ucast_eq take_bit_nat_eq_self unat_lt [THEN less_le_trans])
  then show "unat (ucast c AND 0x7f :: u16) = unat (c AND 0x7f)" unfolding 7 u by simp
  have "unat (ucast c AND 0x7f :: u16) < 128" unfolding 7 u by simp
  then show "(ucast c AND 0x7f :: u16) \<noteq> 0xB7" by (auto simp: word_unat_eq_iff)
qed

text \<open>The handler with these facts.\<close>

lemma keymap_handler_eq:
  assumes "c \<noteq> 0xe0"
  shows "keymap_handler c s =
    (let ext = extcode_state s; s = s\<lparr>extcode_state := False\<rparr>; k = unat (c AND 0x7f)
     in if 0x5F < k then s else if c AND 0x80 \<noteq> 0 then set_key ext k False s
        else (let s = toggle_locks k (set_key ext k True s); shift = (capslock_state s \<noteq> shift_state s);
                  ch = (if ext \<and> k \<noteq> 0x35 \<or> shift then snd (keymap ! k) else fst (keymap ! k))
              in if ch = 0 then s else s\<lparr>printed := printed s @ [ch]\<rparr>))"
  using assms makecode_small [of c] ext_prefix_lost [of c]
  by (simp add: keymap_handler_def Let_def key_numbers CODE_PRINT_SCREEN_DOWN_def)

lemma set_key_fields [simp]:
  "pressed (set_key x k b s) = (if x then pressed s else (pressed s)[k := b])"
  "ext_pressed (set_key x k b s) = (if x then (ext_pressed s)[k := b] else ext_pressed s)"
  "capslock_state (set_key x k b s) = capslock_state s" "extcode_state (set_key x k b s) = extcode_state s"
  "printed (set_key x k b s) = printed s"
  by (simp_all add: set_key_def)

lemma toggle_locks_fields [simp]:
  "pressed (toggle_locks k s) = pressed s" "ext_pressed (toggle_locks k s) = ext_pressed s"
  "extcode_state (toggle_locks k s) = extcode_state s" "printed (toggle_locks k s) = printed s"
  "capslock_state (toggle_locks k s) = (if k = 0x3A then \<not> capslock_state s else capslock_state s)"
  by (simp_all add: toggle_locks_def key_numbers)

definition follows :: "keyboard \<Rightarrow> (bool \<times> u8) list \<Rightarrow> bool" where
  "follows s evs \<longleftrightarrow> length (pressed s) = 96 \<and> length (ext_pressed s) = 96 \<and>
     (\<forall>k < 96. pressed s ! k = down evs False k \<and> ext_pressed s ! k = down evs True k) \<and>
     capslock_state s = caps evs \<and> printed s = typed evs"

lemma unat_7f: "unat ((c :: u8) AND 0x7f) = unat c mod 128"
  using unat_and_mask [of c 7] by (simp add: mask_eq_exp_minus_1)

lemma caps_code: "c AND 0x80 = 0 \<Longrightarrow> unat (c AND 0x7f) = 0x3A \<longleftrightarrow> c = (0x3A :: u8)"
proof -
  assume c: "c AND 0x80 = 0"
  have "\<not> bit c 7" using and_exp_eq_0_iff_not_bit [of c 7] c by simp
  then have "\<not> bit (unat c) 7" by (simp add: bit_unsigned_iff)
  then have "even (unat c div 128)" by (simp add: bit_iff_odd)
  moreover have "unat c div 128 < 2" using unat_lt [of c] by simp
  ultimately have "unat c div 128 = 0" by (cases "unat c div 128 = 1") auto
  then have "unat c mod 128 = unat c" by (simp add: div_eq_0_iff)
  then show ?thesis by (simp add: unat_7f word_unat_eq_iff)
qed

lemma follows_handler:
  assumes f: "follows s evs" and c: "c \<noteq> 0xe0" and e: "extcode_state s = x"
  shows "follows (keymap_handler c s) (evs @ [(x, c)]) \<and> \<not> extcode_state (keymap_handler c s)"
proof -
  let ?k = "unat (c AND 0x7f)" and ?evs = "evs @ [(x, c)]"
  have len: "length (pressed s) = 96" "length (ext_pressed s) = 96"
    and dn: "\<And>k. k < 96 \<Longrightarrow> pressed s ! k = down evs False k \<and> ext_pressed s ! k = down evs True k"
    and cp: "capslock_state s = caps evs" and pr: "printed s = typed evs"
    using f by (auto simp: follows_def)
  consider "0x5F < ?k" | "?k \<le> 0x5F" "c AND 0x80 \<noteq> 0" | "?k \<le> 0x5F" "c AND 0x80 = 0" by linarith
  then show ?thesis
  proof cases
    case 1
    then have h: "keymap_handler c s = s\<lparr>extcode_state := False\<rparr>" using c by (simp add: keymap_handler_eq Let_def)
    have "c \<noteq> 0x3A" using 1 by auto
    moreover have "key_char ?evs = []" using 1 by (simp add: key_char_def Let_def)
    ultimately show ?thesis using 1 len dn cp pr unfolding h by (simp add: follows_def down_snoc caps_snoc typed_snoc)
  next
    case 2
    then have h: "keymap_handler c s = set_key x ?k False (s\<lparr>extcode_state := False\<rparr>)" using c e by (simp add: keymap_handler_eq Let_def)
    have "c \<noteq> 0x3A" using 2 by auto
    moreover have "key_char ?evs = []" using 2 by (simp add: key_char_def Let_def)
    ultimately show ?thesis using 2 len dn cp pr unfolding h by (auto simp: follows_def down_snoc caps_snoc typed_snoc nth_list_update)
  next
    case 3
    let ?s = "toggle_locks ?k (set_key x ?k True (s\<lparr>extcode_state := False\<rparr>))"
    let ?ch = "if x \<and> ?k \<noteq> 0x35 \<or> capslock_state ?s \<noteq> shift_state ?s then snd (keymap ! ?k) else fst (keymap ! ?k)"
    have h: "keymap_handler c s = (if ?ch = 0 then ?s else ?s\<lparr>printed := printed ?s @ [?ch]\<rparr>)"
      using 3 c e by (simp add: keymap_handler_eq Let_def)
    have dn': "pressed ?s ! k = down ?evs False k \<and> ext_pressed ?s ! k = down ?evs True k" if "k < 96" for k
      using 3 dn [OF that] that len by (auto simp: down_snoc nth_list_update)
    have cp': "capslock_state ?s = caps ?evs" using caps_code [OF 3(2)] cp by (simp add: caps_snoc)
    have "shift_state ?s = (down ?evs False 0x2A \<or> down ?evs False 0x36)"
      using dn' [of "0x2A"] dn' [of "0x36"] by (simp add: shift_state_def key_numbers)
    then have kc: "key_char ?evs = (if ?ch = 0 then [] else [?ch])" using 3 cp' by (simp add: key_char_def Let_def)
    show ?thesis using dn' cp' pr len kc unfolding h by (auto simp: follows_def typed_snoc)
  qed
qed

lemma follows_history:
  "follows (fold keymap_handler cs keyboard_start) (events False cs) \<and>
   extcode_state (fold keymap_handler cs keyboard_start) = (cs \<noteq> [] \<and> last cs = 0xe0)"
proof (induction cs rule: rev_induct)
  case Nil
  then show ?case by (simp add: follows_def keyboard_start_def down_def key_events_def caps_def typed_def)
next
  case (snoc c cs)
  show ?case
  proof (cases "c = 0xe0")
    case True
    then show ?thesis using snoc by (simp add: events_snoc keymap_handler_def follows_def)
  next
    case False
    then show ?thesis
      using snoc follows_handler [of "fold keymap_handler cs keyboard_start" "events False cs" c] by (auto simp: events_snoc)
  qed
qed

section \<open>Properties\<close>

text \<open>C36.
  After any sequence of scan codes the driver's state and output are those of the
  reference on the events of the sequence: a key counts as pressed exactly when
  its last event is a press, caps lock is on after an odd number of presses of its
  key, and what is printed is, for each press of a key with a character, the
  shifted character if exactly one of caps lock and a shift key is on. Caps lock
  so shifts the digits and signs, too.
\<close>

theorem keyboard_history:
  "let s = fold keymap_handler cs keyboard_start; evs = events False cs
   in (\<forall>k < 96. pressed s ! k = down evs False k \<and> ext_pressed s ! k = down evs True k) \<and>
      capslock_state s = caps evs \<and> printed s = typed evs"
  using follows_history [of cs] by (simp add: follows_def Let_def)

theorem keyboard_history_witness: "printed (fold keymap_handler [0x3A, 0xBA, 0x02] keyboard_start) = [0x21]"
proof -
  have t: "typed (events False [0x3A, 0xBA, 0x02]) = [0x21]" by code_simp
  show ?thesis using keyboard_history [of "[0x3A, 0xBA, 0x02]"] unfolding Let_def t by blast
qed

end
