(* ===== verification/Malloc32.thy ===== *)
theory Malloc32
  imports Memory32 Links "HOL-Library.Monad_Syntax"
begin

text \<open>
  The bucket allocator of the 32-bit kernel (x86_kernel/kernel/mm/malloc.c). A
  bucket descriptor is 20 bytes: page at offset 0, next at 4, freeBlock at 8,
  refCnt at 12 and blockSize at 16. There is no lock; an empty bucket is removed
  by storing its successor in the directory, wherever it stands in its chain.
  \<open>None\<close> is a walk along a cyclic chain or a failed assertion. The prints are left
  out.
\<close>

section \<open>Definitions\<close>

record kheap32 =
  xmem :: mem32
  xmm :: mm32_manager
  x86_bucket_dir :: "(u32 \<times> u32) list"
  x86_free_bucket_chain :: u32

abbreviation d32_page :: "mem32 \<Rightarrow> u32 \<Rightarrow> u32" where "d32_page m b \<equiv> rd32 m b"
abbreviation d32_next :: "mem32 \<Rightarrow> u32 \<Rightarrow> u32" where "d32_next m b \<equiv> rd32 m (b + 4)"
abbreviation d32_freeBlock :: "mem32 \<Rightarrow> u32 \<Rightarrow> u32" where "d32_freeBlock m b \<equiv> rd32 m (b + 8)"
abbreviation d32_refCnt :: "mem32 \<Rightarrow> u32 \<Rightarrow> u32" where "d32_refCnt m b \<equiv> rd32 m (b + 12)"
abbreviation d32_blockSize :: "mem32 \<Rightarrow> u32 \<Rightarrow> u32" where "d32_blockSize m b \<equiv> rd32 m (b + 16)"

definition x86_g_bucket_dir :: "(u32 \<times> u32) list" where
  "x86_g_bucket_dir = [(16, 0), (32, 0), (64, 0), (128, 0), (256, 0), (512, 0), (1024, 0), (2048, 0), (4096, 0), (0, 0)]"

definition x86_heap_get_page :: "'x kheap32_scheme \<Rightarrow> 'x kheap32_scheme \<times> u32" where
  "x86_heap_get_page h = (let ((m, mm), p) = x86_get_free_page (xmem h, xmm h) in (h\<lparr>xmem := m, xmm := mm\<rparr>, p))"

fun x86_link_descs :: "mem32 \<Rightarrow> u32 \<Rightarrow> nat \<Rightarrow> nat \<Rightarrow> mem32" where
  "x86_link_descs m free_chain i 0 = m"
| "x86_link_descs m free_chain i (Suc left) =
     x86_link_descs (wr32 m (free_chain + 20 * of_nat i + 4) (free_chain + 20 * of_nat (Suc i))) free_chain (Suc i) left"

definition x86_construct_free_bucket_chain :: "'x kheap32_scheme \<Rightarrow> 'x kheap32_scheme \<times> u32" where
  "x86_construct_free_bucket_chain h =
     (let (h1, free_chain) = x86_heap_get_page h;
          m = x86_link_descs (xmem h1) free_chain 0 203
      in (h1\<lparr>xmem := wr32 m (free_chain + 20 * 203 + 4) 0\<rparr>, free_chain))"

fun x86_find_dir :: "(u32 \<times> u32) list \<Rightarrow> u32 \<Rightarrow> nat" where
  "x86_find_dir [] len = 0"
| "x86_find_dir ((sz, chain) # dirs) len = (if sz = 0 \<or> sz \<ge> len then 0 else Suc (x86_find_dir dirs len))"

partial_function (option) x86_find_free_bucket :: "mem32 \<Rightarrow> u32 \<Rightarrow> u32 option" where
  "x86_find_free_bucket m chain =
     (if chain = 0 then Some 0 else if d32_freeBlock m chain \<noteq> 0 then Some chain else x86_find_free_bucket m (d32_next m chain))"

fun x86_link_blocks :: "mem32 \<Rightarrow> u32 \<Rightarrow> u32 \<Rightarrow> nat \<Rightarrow> nat \<Rightarrow> mem32" where
  "x86_link_blocks m chain addr i 0 = m"
| "x86_link_blocks m chain addr i (Suc left) =
     x86_link_blocks (wr32 m (addr + of_nat i * d32_blockSize m chain) (addr + of_nat (Suc i) * d32_blockSize m chain))
       chain addr (Suc i) left"

definition x86_new_bucket :: "'x kheap32_scheme \<Rightarrow> nat \<Rightarrow> 'x kheap32_scheme \<times> u32 \<times> bool" where
  "x86_new_bucket h d =
     (let h1 = (if x86_free_bucket_chain h = 0
                then (let (h', fc) = x86_construct_free_bucket_chain h in h'\<lparr>x86_free_bucket_chain := fc\<rparr>)
                else h);
          chain = x86_free_bucket_chain h1;
          h2 = h1\<lparr>x86_free_bucket_chain := d32_next (xmem h1) chain\<rparr>;
          m2 = memset (xmem h2) chain 0 20;
          sz = fst (x86_bucket_dir h2 ! d);
          (h3, page) = x86_heap_get_page (h2\<lparr>xmem := wr32 m2 (chain + 16) sz\<rparr>);
          m3 = wr32 (xmem h3) chain page
      in if page = 0 then (h3\<lparr>xmem := m3\<rparr>, chain, False)
         else (let blockNums = unat (4096 div d32_blockSize m3 chain);
                   addr = d32_page m3 chain;
                   m4 = x86_link_blocks m3 chain addr 0 (blockNums - 1);
                   m5 = wr32 m4 (addr + of_nat (blockNums - 1) * d32_blockSize m4 chain) 0;
                   m6 = wr32 m5 (chain + 8) (d32_page m5 chain);
                   m7 = wr32 m6 (chain + 4) (snd (x86_bucket_dir h3 ! d))
               in (h3\<lparr>xmem := m7, x86_bucket_dir := (x86_bucket_dir h3)[d := (sz, chain)]\<rparr>, chain, True)))"

definition x86_take_block :: "mem32 \<Rightarrow> u32 \<Rightarrow> mem32 \<times> u32" where
  "x86_take_block m chain =
     (let retVal = d32_freeBlock m chain;
          m1 = wr32 m (chain + 8) (rd32 m (d32_freeBlock m chain));
          m2 = wr32 m1 (chain + 12) (d32_refCnt m1 chain + 1)
      in (m2, retVal))"

definition x86_kmalloc :: "'x kheap32_scheme \<Rightarrow> u32 \<Rightarrow> ('x kheap32_scheme \<times> u32) option" where
  "x86_kmalloc h len =
     (let d = x86_find_dir (x86_bucket_dir h) len
      in if fst (x86_bucket_dir h ! d) = 0 then Some (h, 0)
         else do {
           found \<leftarrow> x86_find_free_bucket (xmem h) (snd (x86_bucket_dir h ! d));
           let (h2, chain, ok) = (if found = 0 then x86_new_bucket h d else (h, found, True));
           if \<not> ok then Some (h2, 0)
           else (let (m, retVal) = x86_take_block (xmem h2) chain in Some (h2\<lparr>xmem := m\<rparr>, retVal))
         })"

partial_function (option) x86_find_page_bucket :: "mem32 \<Rightarrow> u32 \<Rightarrow> u32 \<Rightarrow> u32 option" where
  "x86_find_page_bucket m pageAlignAddr chain =
     (if chain = 0 then Some 0
      else if d32_page m chain = pageAlignAddr then Some chain
      else x86_find_page_bucket m pageAlignAddr (d32_next m chain))"

definition x86_put_block :: "mem32 \<Rightarrow> u32 \<Rightarrow> u32 \<Rightarrow> mem32" where
  "x86_put_block m chain ptr =
     (let m1 = wr32 m ptr (d32_freeBlock m chain);
          m2 = wr32 m1 (chain + 8) ptr
      in wr32 m2 (chain + 12) (d32_refCnt m2 chain - 1))"

text \<open>The release of an empty bucket: \<open>dirPos->chain = chain->next\<close>.\<close>

definition x86_release_bucket :: "'x kheap32_scheme \<Rightarrow> nat \<Rightarrow> u32 \<Rightarrow> 'x kheap32_scheme option" where
  "x86_release_bucket h d chain = do {
     (m, mm) \<leftarrow> x86_free_page (xmem h, xmm h) (d32_page (xmem h) chain);
     let dir = (x86_bucket_dir h)[d := (fst (x86_bucket_dir h ! d), d32_next m chain)];
     let m' = wr32 m (chain + 4) (x86_free_bucket_chain h);
     Some (h\<lparr>xmem := m', xmm := mm, x86_bucket_dir := dir, x86_free_bucket_chain := chain\<rparr>)
   }"

definition x86_kfree_s :: "'x kheap32_scheme \<Rightarrow> u32 \<Rightarrow> u32 \<Rightarrow> 'x kheap32_scheme option" where
  "x86_kfree_s h ptr len =
     (let d = x86_find_dir (x86_bucket_dir h) len
      in if fst (x86_bucket_dir h ! d) = 0 then Some h
         else do {
           chain \<leftarrow> x86_find_page_bucket (xmem h) (ptr AND NOT 0xfff) (snd (x86_bucket_dir h ! d));
           if chain = 0 then Some h
           else (let h2 = h\<lparr>xmem := x86_put_block (xmem h) chain ptr\<rparr>
                 in if d32_refCnt (xmem h2) chain = 0 then x86_release_bucket h2 d chain else Some h2)
         })"

section \<open>Searches\<close>

interpretation ff32: list_search "d32_next m" "\<lambda>b. d32_freeBlock m b \<noteq> 0" "x86_find_free_bucket m"
  by unfold_locales (rule x86_find_free_bucket.simps)

interpretation fp32: list_search "d32_next m" "\<lambda>b. d32_page m b = pg" "x86_find_page_bucket m pg"
  by unfold_locales (rule x86_find_page_bucket.simps)

section \<open>The fields of a descriptor under stores\<close>

lemma x86_find_dir_update:
  "x86_find_dir (dirs[d := (fst (dirs ! d), c)]) len = x86_find_dir dirs len"
proof (induction dirs arbitrary: d)
  case (Cons x dirs)
  then show ?case by (cases x; cases d) auto
qed simp

lemma desc_fields:
  assumes "load m' x 20 = load m x 20"
  shows "d32_page m' x = d32_page m x" "d32_next m' x = d32_next m x" "d32_freeBlock m' x = d32_freeBlock m x"
    "d32_refCnt m' x = d32_refCnt m x"
  using rd32_part [OF assms, of 0] rd32_part [OF assms, of 4] rd32_part [OF assms, of 8] rd32_part [OF assms, of 12] by simp_all

lemma put_block_fields:
  assumes "apart b 20 ptr 4"
  shows "d32_page (x86_put_block m b ptr) b = d32_page m b" "d32_next (x86_put_block m b ptr) b = d32_next m b"
    "d32_refCnt (x86_put_block m b ptr) b = d32_refCnt m b - 1" "d32_freeBlock (x86_put_block m b ptr) b = ptr"
proof -
  have a: "apart (b + of_nat i) 4 (b + of_nat j) 4" if "i + 4 \<le> j \<or> j + 4 \<le> i" "i < 20" "j < 20" for i j
    using that apart_offset_same(1) [of i 4 j 4 b] apart_offset_same(2) [of j 4 i 4 b] by auto
  have p: "apart (b + of_nat i) 4 ptr 4" if "i + 4 \<le> 20" for i
    using apart_within [OF assms, of i 4 0 4] that by simp
  show "d32_page (x86_put_block m b ptr) b = d32_page m b" "d32_next (x86_put_block m b ptr) b = d32_next m b"
    "d32_refCnt (x86_put_block m b ptr) b = d32_refCnt m b - 1" "d32_freeBlock (x86_put_block m b ptr) b = ptr"
    using a [of 0 8] a [of 0 12] a [of 4 8] a [of 4 12] a [of 12 8] a [of 8 12] p [of 0] p [of 4] p [of 12]
    by (simp_all add: x86_put_block_def mem_simps)
qed

lemma put_block_frame:
  assumes "apart x 20 b 20" "apart x 20 ptr 4"
  shows "load (x86_put_block m b ptr) x 20 = load m x 20"
proof -
  have b: "frames m' (wr32 m' (b + of_nat i) v) [(ptr, 4), (b, 20)]" if "i + 4 \<le> 20" for m' i v
    using frames_wr32_in [of i 20 m' b v] that by (auto elim: frames_mono)
  have p: "frames m (wr32 m ptr v) [(ptr, 4), (b, 20)]" for v
    using frames_wr32 [of m ptr v] by (auto elim: frames_mono)
  have "frames m (x86_put_block m b ptr) [(ptr, 4), (b, 20)]"
    using frames_trans_same [OF frames_trans_same [OF p b [of 8]] b [of 12]] by (simp add: x86_put_block_def Let_def)
  then show ?thesis using assms by (intro frames_load) auto
qed

lemma load_map_byte: "apart x 20 p 1 \<Longrightarrow> load (m(p := v)) x 20 = load m x 20"
  using load_store_apart [of x 20 p "[v]" m] store_Cons [of "[]" m p v] by simp

section \<open>Properties\<close>

text \<open>kfree_s of the last block of a bucket stores the successor of the bucket in the
  directory, also when the bucket is not the first of its chain: the buckets
  before it are lost. They can no longer be reached from the directory, so that
  freeing one of their blocks afterwards changes nothing, and their pages are
  never given back.
\<close>

lemma x86_kfree_loses_buckets:
  assumes d: "x86_find_dir (x86_bucket_dir h) len = d" "d < length (x86_bucket_dir h)" "fst (x86_bucket_dir h ! d) \<noteq> 0"
    and chain: "path (d32_next (xmem h)) (snd (x86_bucket_dir h ! d)) (us @ b # vs)"
    and page: "d32_page (xmem h) b = ptr AND NOT 0xfff" "ptr AND NOT 0xfff \<noteq> 0" "\<forall>u \<in> set us. d32_page (xmem h) u \<noteq> ptr AND NOT 0xfff"
    and ref: "d32_refCnt (xmem h) b = 1"
    and apart: "\<forall>v \<in> set vs. apart v 20 b 20" "\<forall>x \<in> set (b # vs). apart x 20 ptr 4"
      "\<forall>x \<in> set (b # vs). apart x 20 (phy_map (xmm h) + drop_bit 12 ((ptr AND NOT 0xfff) - phy_base (xmm h))) 1"
  shows "\<exists>h'. x86_kfree_s h ptr len = Some h' \<and> path (d32_next (xmem h')) (snd (x86_bucket_dir h' ! d)) vs \<and>
    (\<forall>q. (\<forall>v \<in> set vs. d32_page (xmem h) v \<noteq> q AND NOT 0xfff) \<longrightarrow> x86_kfree_s h' q len = Some h')"
proof -
  let ?m = "xmem h" and ?m1 = "x86_put_block (xmem h) b ptr"
  let ?p = "phy_map (xmm h) + drop_bit 12 ((ptr AND NOT 0xfff) - phy_base (xmm h))"
  let ?m2 = "?m1(?p := 0)"
  let ?m3 = "wr32 ?m2 (b + 4) (x86_free_bucket_chain h)"
  let ?dir = "(x86_bucket_dir h)[d := (fst (x86_bucket_dir h ! d), d32_next ?m b)]"
  have b0: "b \<noteq> 0" using path_null_notin [OF chain] by auto
  have "first_node (\<lambda>x. d32_page ?m x = ptr AND NOT 0xfff) (us @ b # vs) = b"
    using page by (induction us) auto
  then have find: "x86_find_page_bucket ?m (ptr AND NOT 0xfff) (snd (x86_bucket_dir h ! d)) = Some b"
    using fp32.search_path [OF chain] by simp
  note B = put_block_fields [of b ptr ?m]
  have m2: "load ?m2 b 20 = load ?m1 b 20" using apart(3) by (intro load_map_byte) simp
  define h' where "h' = h\<lparr>xmem := ?m3, xmm := (xmm h)\<lparr>phy_pages_used := phy_pages_used (xmm h) - 1\<rparr>, x86_bucket_dir := ?dir,
    x86_free_bucket_chain := b\<rparr>"
  have free: "x86_kfree_s h ptr len = Some h'"
    using d find b0 ref page(1,2) B apart(2) desc_fields(2) [OF m2]
    by (simp add: x86_kfree_s_def x86_release_bucket_def x86_free_page_def h'_def Let_def)
  have v: "load ?m3 v 20 = load ?m v 20" if "v \<in> set vs" for v
  proof -
    have "load ?m3 v 20 = load ?m2 v 20"
      using frames_load [OF frames_wr32_in [of 4 20 ?m2 b], of v 20] apart(1) that by simp
    also have "\<dots> = load ?m1 v 20" using apart(3) that by (intro load_map_byte) simp
    also have "\<dots> = load ?m v 20" using apart(1,2) that by (intro put_block_frame) simp_all
    finally show ?thesis .
  qed
  have "path (d32_next ?m) (d32_next ?m b) vs" using chain path_split by blast
  then have path': "path (d32_next ?m3) (d32_next ?m b) vs" using desc_fields(2) [OF v] by (rule path_cong)
  have dir': "x86_bucket_dir h' ! d = (fst (x86_bucket_dir h ! d), d32_next ?m b)" using d(2) by (simp add: h'_def)
  have "x86_kfree_s h' q len = Some h'" if "\<forall>v \<in> set vs. d32_page ?m v \<noteq> q AND NOT 0xfff" for q
  proof -
    have "0 \<notin> set vs" using path_null_notin [OF chain] by simp
    then have "first_node (\<lambda>x. d32_page ?m3 x = q AND NOT 0xfff) vs = 0"
      using that desc_fields(1) [OF v] by (simp add: first_node_0)
    then have "x86_find_page_bucket ?m3 (q AND NOT 0xfff) (d32_next ?m b) = Some 0"
      using fp32.search_path [OF path'] by simp
    moreover have "x86_find_dir (x86_bucket_dir h') len = d" "xmem h' = ?m3"
      using d(1) x86_find_dir_update [of "x86_bucket_dir h" d] by (simp_all add: h'_def)
    ultimately show ?thesis using d(3) dir' by (simp add: x86_kfree_s_def Let_def)
  qed
  then show ?thesis using free path' dir' by (intro exI [of _ h']) (simp add: h'_def)
qed

end
