(* ===== verification/Gdt32.thy ===== *)
theory Gdt32
  imports Malloc32
begin

text \<open>
  The segment descriptors that the 32-bit kernel builds before it enters the
  64-bit mode (x86_kernel/kernel/gdt.c and include/linux/gdt.h). A descriptor is
  eight bytes of memory; the bit-fields of the structure are words of their width.
  \<open>g_gdt\<close> is the address of the array g_gdt. gdt_init is modelled for both
  configurations: \<open>gdt_init\<close> with CONFIG_ARCH_X64, as configs/autoconf.h sets it,
  and \<open>gdt_init_ia32\<close> without. The functions are polymorphic in the address width,
  so that the 64-bit kernel finds the same bytes.
\<close>

section \<open>Descriptors\<close>

record gdt_segment_desciptor =
  segment_limit_0_15 :: u16
  base_address_0_15 :: u16
  base_address_16_23 :: u8
  seg_type :: "4 word"
  seg_S :: "1 word"
  seg_DPL :: "2 word"
  seg_P :: "1 word"
  segment_limit_16_19 :: "4 word"
  seg_AVL :: "1 word"
  seg_L :: "1 word"
  seg_DB :: "1 word"
  seg_G :: "1 word"
  base_address_24_31 :: u8

definition desc_bytes :: "gdt_segment_desciptor \<Rightarrow> u8 list" where
  "desc_bytes d = le_bytes 2 (segment_limit_0_15 d) @ le_bytes 2 (base_address_0_15 d) @
     [base_address_16_23 d,
      ucast (seg_type d) OR push_bit 4 (ucast (seg_S d)) OR push_bit 5 (ucast (seg_DPL d)) OR push_bit 7 (ucast (seg_P d)),
      ucast (segment_limit_16_19 d) OR push_bit 4 (ucast (seg_AVL d)) OR push_bit 5 (ucast (seg_L d)) OR
        push_bit 6 (ucast (seg_DB d)) OR push_bit 7 (ucast (seg_G d)),
      base_address_24_31 d]"

definition rd_desc :: "'a::len cmem \<Rightarrow> 'a word \<Rightarrow> gdt_segment_desciptor" where
  "rd_desc m p = \<lparr>segment_limit_0_15 = rd16 m p, base_address_0_15 = rd16 m (p + 2), base_address_16_23 = m (p + 4),
     seg_type = ucast (m (p + 5)), seg_S = ucast (drop_bit 4 (m (p + 5))), seg_DPL = ucast (drop_bit 5 (m (p + 5))),
     seg_P = ucast (drop_bit 7 (m (p + 5))), segment_limit_16_19 = ucast (m (p + 6)),
     seg_AVL = ucast (drop_bit 4 (m (p + 6))), seg_L = ucast (drop_bit 5 (m (p + 6))),
     seg_DB = ucast (drop_bit 6 (m (p + 6))), seg_G = ucast (drop_bit 7 (m (p + 6))), base_address_24_31 = m (p + 7)\<rparr>"

text \<open>Stores to fields of the descriptor at \<open>p\<close>.\<close>

definition upd_desc :: "(gdt_segment_desciptor \<Rightarrow> gdt_segment_desciptor) \<Rightarrow> 'a::len cmem \<Rightarrow> 'a word \<Rightarrow> 'a cmem" where
  "upd_desc f m p = store m p (desc_bytes (f (rd_desc m p)))"

definition build_user_cs_segment_desc :: "gdt_segment_desciptor \<Rightarrow> gdt_segment_desciptor" where
  "build_user_cs_segment_desc d = d\<lparr>segment_limit_0_15 := 0xffff, segment_limit_16_19 := 0xf, base_address_0_15 := 0,
     base_address_16_23 := 0, base_address_24_31 := 0, seg_S := 1, seg_type := 0b1000, seg_DPL := 0b11, seg_P := 1,
     seg_AVL := 0, seg_DB := 1, seg_G := 1\<rparr>"

definition build_user_ss_segment_desc :: "gdt_segment_desciptor \<Rightarrow> gdt_segment_desciptor" where
  "build_user_ss_segment_desc d = d\<lparr>segment_limit_0_15 := 0xffff, segment_limit_16_19 := 0xf, base_address_0_15 := 0,
     base_address_16_23 := 0, base_address_24_31 := 0, seg_S := 1, seg_type := 0b0010, seg_DPL := 0b11, seg_P := 1,
     seg_AVL := 0, seg_DB := 1, seg_G := 1\<rparr>"

definition tss_desc :: "u32 \<Rightarrow> gdt_segment_desciptor \<Rightarrow> gdt_segment_desciptor" where
  "tss_desc base d = d\<lparr>segment_limit_0_15 := 0xffff, segment_limit_16_19 := 0xf,
     base_address_0_15 := ucast (base AND 0xffff), base_address_16_23 := ucast (drop_bit 16 base AND 0xff),
     base_address_24_31 := ucast (drop_bit 24 base AND 0xff), seg_S := 0, seg_type := 0b1001, seg_DPL := 0b00, seg_P := 1,
     seg_AVL := 0, seg_DB := 1, seg_G := 1\<rparr>"

definition build_x64_r0_cs_desc :: "gdt_segment_desciptor \<Rightarrow> gdt_segment_desciptor" where
  "build_x64_r0_cs_desc d = d\<lparr>segment_limit_0_15 := 0, segment_limit_16_19 := 0, base_address_0_15 := 0,
     base_address_16_23 := 0, base_address_24_31 := 0, seg_S := 1, seg_type := 0b1000, seg_DPL := 0b00, seg_P := 1,
     seg_AVL := 0, seg_L := 1, seg_DB := 0, seg_G := 1\<rparr>"

definition build_x64_r0_ds_desc :: "gdt_segment_desciptor \<Rightarrow> gdt_segment_desciptor" where
  "build_x64_r0_ds_desc d = d\<lparr>segment_limit_0_15 := 0, segment_limit_16_19 := 0, base_address_0_15 := 0,
     base_address_16_23 := 0, base_address_24_31 := 0, seg_S := 1, seg_type := 0b0010, seg_DPL := 0b00, seg_P := 1,
     seg_AVL := 0, seg_L := 1, seg_DB := 0, seg_G := 1\<rparr>"

definition build_x64_r3_cs_desc :: "gdt_segment_desciptor \<Rightarrow> gdt_segment_desciptor" where
  "build_x64_r3_cs_desc d = d\<lparr>segment_limit_0_15 := 0, segment_limit_16_19 := 0, base_address_0_15 := 0,
     base_address_16_23 := 0, base_address_24_31 := 0, seg_S := 1, seg_type := 0b1000, seg_DPL := 0b11, seg_P := 1,
     seg_AVL := 0, seg_L := 1, seg_DB := 0, seg_G := 1\<rparr>"

definition build_x64_r3_ds_desc :: "gdt_segment_desciptor \<Rightarrow> gdt_segment_desciptor" where
  "build_x64_r3_ds_desc d = d\<lparr>segment_limit_0_15 := 0, segment_limit_16_19 := 0, base_address_0_15 := 0,
     base_address_16_23 := 0, base_address_24_31 := 0, seg_S := 1, seg_type := 0b0010, seg_DPL := 0b11, seg_P := 1,
     seg_AVL := 0, seg_L := 1, seg_DB := 0, seg_G := 1\<rparr>"

section \<open>Selectors\<close>

definition KERNEL_CODE_SECTOR :: u32 where "KERNEL_CODE_SECTOR = push_bit 3 1 OR 0b00"
definition KERNEL_DATA_SECTOR :: u32 where "KERNEL_DATA_SECTOR = push_bit 3 2 OR 0b00"
definition KERNEL_X64_CODE_SECTOR :: u32 where "KERNEL_X64_CODE_SECTOR = push_bit 3 3 OR 0b00"
definition KERNEL_X64_DATA_SECTOR :: u32 where "KERNEL_X64_DATA_SECTOR = push_bit 3 4 OR 0b00"
definition USER_X64_DATA_SECTOR :: u32 where "USER_X64_DATA_SECTOR = push_bit 3 5 OR 0b011"
definition USER_X64_CODE_SECTOR :: u32 where "USER_X64_CODE_SECTOR = push_bit 3 6 OR 0b011"
definition X64_TSS_SECTOR :: u32 where "X64_TSS_SECTOR = push_bit 3 7 OR 0b11"
definition USER_CODE_SECTOR :: u32 where "USER_CODE_SECTOR = push_bit 3 3 OR 0b11"
definition USER_DATA_SECTOR :: u32 where "USER_DATA_SECTOR = push_bit 3 4 OR 0b11"
definition TSS_SECTOR :: u32 where "TSS_SECTOR = push_bit 3 5 OR 0b11"

lemmas sectors = KERNEL_CODE_SECTOR_def KERNEL_DATA_SECTOR_def KERNEL_X64_CODE_SECTOR_def KERNEL_X64_DATA_SECTOR_def
  USER_X64_DATA_SECTOR_def USER_X64_CODE_SECTOR_def X64_TSS_SECTOR_def USER_CODE_SECTOR_def USER_DATA_SECTOR_def TSS_SECTOR_def

section \<open>The table\<close>

text \<open>
  gdtr_value at 0x9E000: the maximal offset (two bytes), then the base. The
  instruction sgdt of the 32-bit mode stores two and four bytes there, \<open>(limit, base)\<close>;
  lgdt loads them. A descriptor is appended by increasing the offset by 8.
\<close>

definition x86_g_gdtr :: "'a::len word" where "x86_g_gdtr = 0x9E000"

definition add_desc ::
    "(gdt_segment_desciptor \<Rightarrow> gdt_segment_desciptor) \<Rightarrow> 'a::len word \<Rightarrow> 'a cmem \<Rightarrow> 'a cmem" where
  "add_desc build g_gdt m =
     (let m = wr16 m x86_g_gdtr (rd16 m x86_g_gdtr + 8);
          idx = ucast (rd16 m x86_g_gdtr) div 8 - (1 :: u32)
      in upd_desc build m (g_gdt + 8 * ucast idx))"

text \<open>sgdt, then memcpy of the old table.\<close>

definition copy_gdt :: "'a::len word \<Rightarrow> u16 \<Rightarrow> u32 \<Rightarrow> 'a cmem \<Rightarrow> 'a cmem" where
  "copy_gdt g_gdt limit base m =
     (let m = wr32 (wr16 m x86_g_gdtr limit) (x86_g_gdtr + 2) base
      in memcpy m g_gdt (ucast (rd32 m (x86_g_gdtr + 2))) (ucast (rd16 m x86_g_gdtr)))"

definition gdt_init :: "'a::len word \<Rightarrow> u16 \<Rightarrow> u32 \<Rightarrow> 'a cmem \<Rightarrow> 'a cmem \<times> (u16 \<times> u32)" where
  "gdt_init g_gdt limit base m =
     (let m = copy_gdt g_gdt limit base m;
          m = add_desc build_x64_r0_cs_desc g_gdt m;
          m = add_desc build_x64_r0_ds_desc g_gdt m;
          m = add_desc build_x64_r3_ds_desc g_gdt m;
          m = add_desc build_x64_r3_cs_desc g_gdt m;
          m = wr64 m (x86_g_gdtr + 2) (ucast g_gdt);
          m = wr16 m x86_g_gdtr (rd16 m x86_g_gdtr)
      in (m, (rd16 m x86_g_gdtr, rd32 m (x86_g_gdtr + 2))))"

text \<open>
  The other configuration: the task state segment is g_tss at the address \<open>g_tss\<close>,
  with esp0 at offset 4 and ss0 at offset 8; its stack is a block of the allocator.
\<close>

definition build_tss_segment_desc :: "u32 \<Rightarrow> 'x kheap32_scheme \<Rightarrow> u32 \<Rightarrow> 'x kheap32_scheme option" where
  "build_tss_segment_desc g_tss h desc =
     map_option (\<lambda>(h, p). let m = wr32 (xmem h) (g_tss + 4) (p + 4096) in h\<lparr>xmem := upd_desc (tss_desc g_tss) m desc\<rparr>)
       (x86_kmalloc (h\<lparr>xmem := wr32 (xmem h) (g_tss + 8) KERNEL_DATA_SECTOR\<rparr>) 4096)"

definition gdt_init_ia32 :: "u32 \<Rightarrow> u32 \<Rightarrow> u16 \<Rightarrow> u32 \<Rightarrow> 'x kheap32_scheme \<Rightarrow> ('x kheap32_scheme \<times> (u16 \<times> u32)) option" where
  "gdt_init_ia32 g_gdt g_tss limit base h =
     (let m = copy_gdt g_gdt limit base (xmem h);
          m = add_desc build_user_cs_segment_desc g_gdt m;
          m = add_desc build_user_ss_segment_desc g_gdt m;
          m = wr16 m x86_g_gdtr (rd16 m x86_g_gdtr + 8);
          idx = ucast (rd16 m x86_g_gdtr) div 8 - (1 :: u32)
      in map_option
           (\<lambda>h. let m = wr32 (xmem h) (x86_g_gdtr + 2) g_gdt;
                     m = wr16 m x86_g_gdtr (rd16 m x86_g_gdtr)
                 in (h\<lparr>xmem := m\<rparr>, (rd16 m x86_g_gdtr, rd32 m (x86_g_gdtr + 2))))
           (build_tss_segment_desc g_tss (h\<lparr>xmem := m\<rparr>) (g_gdt + 8 * idx)))"

section \<open>Reading back\<close>

definition desc_of :: "u8 list \<Rightarrow> gdt_segment_desciptor" where
  "desc_of bs = \<lparr>segment_limit_0_15 = of_le (take 2 bs), base_address_0_15 = of_le (take 2 (drop 2 bs)), base_address_16_23 = bs ! 4,
     seg_type = ucast (bs ! 5), seg_S = ucast (drop_bit 4 (bs ! 5)), seg_DPL = ucast (drop_bit 5 (bs ! 5)),
     seg_P = ucast (drop_bit 7 (bs ! 5)), segment_limit_16_19 = ucast (bs ! 6),
     seg_AVL = ucast (drop_bit 4 (bs ! 6)), seg_L = ucast (drop_bit 5 (bs ! 6)),
     seg_DB = ucast (drop_bit 6 (bs ! 6)), seg_G = ucast (drop_bit 7 (bs ! 6)), base_address_24_31 = bs ! 7\<rparr>"

lemma rd_desc_load: "rd_desc m p = desc_of (load m p 8)"
proof -
  have 8: "load m p 8 = [m p, m (p + 1), m (p + 2), m (p + 3), m (p + 4), m (p + 5), m (p + 6), m (p + 7)]"
    by (simp add: load_def upt_rec)
  have 2: "load m p 2 = [m p, m (p + 1)]" "load m (p + 2) 2 = [m (p + 2), m (p + 3)]"
    by (simp_all add: load_def upt_rec add.commute)
  show ?thesis unfolding rd_desc_def desc_of_def rd16_def 8 2 by simp
qed

lemma ucast_field:
  "(ucast (drop_bit k (b :: u8)) :: 'b::len word) = v" if "\<And>n. n < LENGTH('b) \<Longrightarrow> bit b (k + n) = bit v n"
  by (rule bit_word_eqI) (simp add: bit_unsigned_iff bit_drop_bit_eq that)

lemma bit_short: "bit (w :: 'a::len word) n \<Longrightarrow> n < LENGTH('a)"
  by (rule bit_imp_le_length)

lemma type_byte:
  fixes t :: "4 word" and s p :: "1 word" and d :: "2 word"
  defines "b \<equiv> (ucast t OR push_bit 4 (ucast s) OR push_bit 5 (ucast d) OR push_bit 7 (ucast p) :: u8)"
  shows "ucast b = t" "ucast (drop_bit 4 b) = s" "ucast (drop_bit 5 b) = d" "ucast (drop_bit 7 b) = p"
proof -
  have b: "bit b n \<longleftrightarrow> n < 8 \<and> (bit t n \<or> 4 \<le> n \<and> bit s (n - 4) \<or> 5 \<le> n \<and> bit d (n - 5) \<or> 7 \<le> n \<and> bit p (n - 7))" for n
    unfolding b_def bit_or_iff bit_push_bit_iff bit_unsigned_iff possible_bit_word
    by (auto dest: bit_short)
  show "ucast b = t" using ucast_field [where k = 0 and b = b and v = t] by (auto simp: b dest: bit_short)
  show "ucast (drop_bit 4 b) = s" "ucast (drop_bit 5 b) = d" "ucast (drop_bit 7 b) = p"
    by (rule ucast_field, auto simp: b dest: bit_short)+
qed

lemma limit_byte:
  fixes t :: "4 word" and s l d p :: "1 word"
  defines "b \<equiv> (ucast t OR push_bit 4 (ucast s) OR push_bit 5 (ucast l) OR push_bit 6 (ucast d) OR push_bit 7 (ucast p) :: u8)"
  shows "ucast b = t" "ucast (drop_bit 4 b) = s" "ucast (drop_bit 5 b) = l" "ucast (drop_bit 6 b) = d" "ucast (drop_bit 7 b) = p"
proof -
  have b: "bit b n \<longleftrightarrow> n < 8 \<and>
      (bit t n \<or> 4 \<le> n \<and> bit s (n - 4) \<or> 5 \<le> n \<and> bit l (n - 5) \<or> 6 \<le> n \<and> bit d (n - 6) \<or> 7 \<le> n \<and> bit p (n - 7))" for n
    unfolding b_def bit_or_iff bit_push_bit_iff bit_unsigned_iff possible_bit_word
    by (auto dest: bit_short)
  show "ucast b = t" using ucast_field [where k = 0 and b = b and v = t] by (auto simp: b dest: bit_short)
  show "ucast (drop_bit 4 b) = s" "ucast (drop_bit 5 b) = l" "ucast (drop_bit 6 b) = d" "ucast (drop_bit 7 b) = p"
    by (rule ucast_field, auto simp: b dest: bit_short)+
qed

lemma desc_of_bytes: "desc_of (desc_bytes d) = d"
proof -
  have 2: "le_bytes 2 w = [ucast w, ucast (drop_bit 8 w)]" for w :: u16
    by (simp add: le_bytes_def upt_rec)
  have b: "(of_le [ucast w, ucast (drop_bit 8 w)] :: u16) = w" for w :: u16
    using of_le_le_bytes [where n = 2 and w = w] unfolding 2 by simp
  define x where "x = ucast (seg_type d) OR push_bit 4 (ucast (seg_S d)) OR push_bit 5 (ucast (seg_DPL d)) OR (push_bit 7 (ucast (seg_P d)) :: u8)"
  define y where "y = ucast (segment_limit_16_19 d) OR push_bit 4 (ucast (seg_AVL d)) OR push_bit 5 (ucast (seg_L d)) OR
        push_bit 6 (ucast (seg_DB d)) OR (push_bit 7 (ucast (seg_G d)) :: u8)"
  note xy = type_byte [of "seg_type d" "seg_S d" "seg_DPL d" "seg_P d", folded x_def]
    limit_byte [of "segment_limit_16_19 d" "seg_AVL d" "seg_L d" "seg_DB d" "seg_G d", folded y_def]
  have d: "desc_bytes d = [ucast (segment_limit_0_15 d), ucast (drop_bit 8 (segment_limit_0_15 d)), ucast (base_address_0_15 d),
      ucast (drop_bit 8 (base_address_0_15 d)), base_address_16_23 d, x, y, base_address_24_31 d]"
    by (simp only: desc_bytes_def 2 append_Cons append_Nil x_def y_def)
  show ?thesis unfolding desc_of_def d by (simp del: of_le.simps add: b xy)
qed

lemma rd_upd_desc: "rd_desc (upd_desc f m p) p = f (rd_desc m p)" for p :: u32
proof -
  have "length (desc_bytes d) = 8" for d by (simp add: desc_bytes_def)
  then show ?thesis by (simp add: upd_desc_def rd_desc_load load_store_same desc_of_bytes)
qed

text \<open>The descriptor of number \<open>k\<close> in the table at \<open>g\<close>.\<close>

definition slot :: "u32 \<Rightarrow> nat \<Rightarrow> u32" where
  "slot g k = g + of_nat (8 * k)"

lemma length_desc_bytes [simp]: "length (desc_bytes d) = 8"
  by (simp add: desc_bytes_def)

lemma slot_apart: "k < 256 \<Longrightarrow> j < 256 \<Longrightarrow> j \<noteq> k \<Longrightarrow> apart (slot g j) 8 (slot g k) 8"
  unfolding slot_def using apart_offset_same [of "8 * j" 8 "8 * k" 8 g] apart_offset_same [of "8 * k" 8 "8 * j" 8 g]
  by (cases "j < k") auto

lemma slot_gdtr: "apart g 2048 x86_g_gdtr 10 \<Longrightarrow> k < 256 \<Longrightarrow> i + n \<le> 10 \<Longrightarrow> 0 < n \<Longrightarrow> apart (slot g k) 8 (x86_g_gdtr + of_nat i) n"
  unfolding slot_def by (rule apart_within) auto

lemma rd_desc_apart: "apart a 8 b (length bs) \<Longrightarrow> rd_desc (store m b bs) a = rd_desc m a"
  by (simp add: rd_desc_load load_store_apart)

lemma rd16_apart: "apart a 2 b (length bs) \<Longrightarrow> rd16 (store m b bs) a = rd16 m a"
  by (simp add: rd16_def load_store_apart)

lemma rd16_wr16_same: "rd16 (wr16 m a v) a = v" for a :: u32
  by (simp add: rd16_def wr16_def load_store_same of_le_le_bytes)

lemma unat_eq_intro: "unat x = unat y \<Longrightarrow> x = y" for x y :: "'a::len word"
  by (simp only: word_unat_eq_iff)

lemma index_of_offset:
  assumes "8 \<le> n" "n < 65536"
  shows "ucast (of_nat n :: u16) div 8 - (1 :: u32) = of_nat (n div 8 - 1)"
proof (rule unat_eq_intro)
  have "unat (ucast (of_nat n :: u16) :: u32) = n" using assms by (simp add: unsigned_ucast_eq take_bit_eq_mod unat_of_nat)
  then show "unat (ucast (of_nat n :: u16) div 8 - (1 :: u32)) = unat (of_nat (n div 8 - 1) :: u32)"
    using assms by (simp add: unat_sub_if' unat_div unat_of_nat)
qed

lemma add_desc_step:
  assumes g: "apart g 2048 x86_g_gdtr 10" and k: "rd16 m x86_g_gdtr = of_nat (8 * k)" "k < 256"
  shows "rd16 (add_desc f g m) x86_g_gdtr = of_nat (8 * Suc k)"
    and "j < 256 \<Longrightarrow> rd_desc (add_desc f g m) (slot g j) = (if j = k then f (rd_desc m (slot g j)) else rd_desc m (slot g j))"
proof -
  let ?m1 = "wr16 m x86_g_gdtr (of_nat (8 * Suc k))"
  have "8 * Suc k < 65536" using k(2) by simp
  then have i: "ucast (of_nat (8 * Suc k) :: u16) div 8 - (1 :: u32) = of_nat (8 * Suc k div 8 - 1)" by (intro index_of_offset) simp
  have l: "rd16 m x86_g_gdtr + 8 = of_nat (8 * Suc k)" by (simp add: k)
  have m': "add_desc f g m = upd_desc f ?m1 (slot g k)"
    unfolding add_desc_def Let_def l rd16_wr16_same i slot_def by simp
  have a: "apart (slot g j) 8 x86_g_gdtr 2" if "j < 256" for j using slot_gdtr [OF g that, of 0 2] by simp
  have 1: "rd_desc ?m1 (slot g j) = rd_desc m (slot g j)" if "j < 256" for j
    using a [OF that] by (simp add: wr16_def rd_desc_apart)
  show "rd16 (add_desc f g m) x86_g_gdtr = of_nat (8 * Suc k)"
    using a [OF k(2)] by (simp add: m' upd_desc_def rd16_apart rd16_wr16_same apart_commute del: of_nat_mult mult_Suc_right)
  show "rd_desc (add_desc f g m) (slot g j) = (if j = k then f (rd_desc m (slot g j)) else rd_desc m (slot g j))" if "j < 256"
    using slot_apart [OF k(2) that] 1 [OF that] by (auto simp: m' rd_upd_desc) (simp add: upd_desc_def rd_desc_apart)
qed

lemma rd32_wr64_low: "rd32 (wr64 m a v) a = ucast v" for a :: u32
proof -
  have "load (wr64 m a v) a (4 + 4) = le_bytes 8 v" by (simp add: wr64_def load_store_same)
  then have "load (wr64 m a v) a 4 = take 4 (le_bytes 8 v)" unfolding load_add by (metis append_eq_conv_conj length_load)
  also have "\<dots> = le_bytes 4 v" by (simp add: le_bytes_def take_map take_upt)
  finally show ?thesis
    by (simp add: rd32_def, intro bit_word_eqI) (auto simp: bit_of_le le_bytes_def bit_unsigned_iff bit_drop_bit_eq)
qed

lemma load_same_part:
  assumes "load m a n = load m' b n" "i + k \<le> n"
  shows "load m (a + of_nat i) k = load m' (b + of_nat i) k"
proof (rule nth_equalityI)
  fix j
  assume j: "j < length (load m (a + of_nat i) k)"
  then have "load m a n ! (i + j) = load m' b n ! (i + j)" using assms(1) by simp
  then show "load m (a + of_nat i) k ! j = load m' (b + of_nat i) k ! j" using j assms(2) by (simp add: add.assoc)
qed simp

text \<open>The three descriptors of the loader, then the four of the 64-bit mode.\<close>

lemma gdt_init_slots:
  assumes g: "apart g 2048 x86_g_gdtr 10" and b: "apart g 24 base 24" "apart base 24 x86_g_gdtr 10"
    and r: "gdt_init g 24 base m = (m', lim, ba)"
  shows "lim = 56" "ba = g" "rd16 m' x86_g_gdtr = 56"
    and "j < 3 \<Longrightarrow> rd_desc m' (slot g j) = rd_desc m (base + of_nat (8 * j))"
    and "\<exists>d. rd_desc m' (slot g 3) = build_x64_r0_cs_desc d" "\<exists>d. rd_desc m' (slot g 4) = build_x64_r0_ds_desc d"
      "\<exists>d. rd_desc m' (slot g 5) = build_x64_r3_ds_desc d" "\<exists>d. rd_desc m' (slot g 6) = build_x64_r3_cs_desc d"
proof -
  let ?G = "x86_g_gdtr :: u32"
  define m0 where "m0 = wr32 (wr16 m ?G 24) (?G + 2) base"
  have G: "apart ?G 2 (?G + of_nat 2) 4" "apart ?G 2 (?G + of_nat 2) 8"
    using apart_offset_same(1) [of 0 2 2 4 ?G] apart_offset_same(1) [of 0 2 2 8 ?G] by auto
  have m0: "rd16 m0 ?G = 24" "rd32 m0 (?G + 2) = base"
    using G by (simp_all add: m0_def rd32_wr32_same) (simp add: wr32_def rd16_apart rd16_wr16_same)
  define m1 where "m1 = store m0 g (load m0 base 24)"
  have c: "copy_gdt g 24 base m = m1"
    using b(1) unfolding copy_gdt_def Let_def m0_def [symmetric] m0 by (simp add: memcpy_eq_store m1_def)
  have a0: "apart ?G 2 g 24" using apart_mono [OF g, of 24 2] by (simp add: apart_commute)
  have k1: "rd16 m1 ?G = of_nat (8 * 3)" using a0 by (simp add: m1_def rd16_apart m0)
  define m2 where "m2 = add_desc build_x64_r0_cs_desc g m1"
  define m3 where "m3 = add_desc build_x64_r0_ds_desc g m2"
  define m4 where "m4 = add_desc build_x64_r3_ds_desc g m3"
  define m5 where "m5 = add_desc build_x64_r3_cs_desc g m4"
  note s2 = add_desc_step [OF g k1, where f = build_x64_r0_cs_desc, folded m2_def]
  note s3 = add_desc_step [OF g s2(1), where f = build_x64_r0_ds_desc, folded m3_def]
  note s4 = add_desc_step [OF g s3(1), where f = build_x64_r3_ds_desc, folded m4_def]
  note s5 = add_desc_step [OF g s4(1), where f = build_x64_r3_cs_desc, folded m5_def]
  have k5: "rd16 m5 ?G = 56" using s5(1) by simp
  define m6 where "m6 = wr64 m5 (?G + 2) (ucast g)"
  have k6: "rd16 m6 ?G = 56" using G(2) k5 by (simp add: m6_def wr64_def rd16_apart)
  have m': "m' = wr16 m6 ?G 56" and l: "lim = rd16 m' ?G" "ba = rd32 m' (?G + 2)"
    using r unfolding gdt_init_def Let_def c m2_def [symmetric] m3_def [symmetric] m4_def [symmetric] m5_def [symmetric]
      m6_def [symmetric] k6 by auto
  show k7: "rd16 m' ?G = 56" by (simp add: m' rd16_wr16_same)
  then show "lim = 56" by (simp add: l)
  have "rd32 m' (?G + 2) = rd32 m6 (?G + 2)"
    using G(1) unfolding m' wr16_def by (simp add: rd32_def load_store_apart apart_commute)
  then show "ba = g" by (simp add: l m6_def rd32_wr64_low)
  have f: "rd_desc m' (slot g j) = rd_desc m5 (slot g j)" if "j < 256" for j
    using slot_gdtr [OF g that, of 0 2] slot_gdtr [OF g that, of 2 8] by (simp add: m' m6_def wr16_def wr64_def rd_desc_apart)
  show "rd_desc m' (slot g j) = rd_desc m (base + of_nat (8 * j))" if "j < 3"
  proof -
    have "load m0 base 24 = load m base 24"
      using apart_within [OF b(2), of 0 24 0 2] apart_within [OF b(2), of 0 24 2 4]
      by (simp add: m0_def wr32_def wr16_def load_store_apart)
    then have "load m1 g 24 = load m base 24" by (simp add: m1_def load_store_same)
    from load_same_part [OF this, of "8 * j" 8] have "rd_desc m1 (slot g j) = rd_desc m (base + of_nat (8 * j))"
      using that by (simp add: rd_desc_load slot_def)
    then show ?thesis using that s2(2) s3(2) s4(2) s5(2) by (simp add: f)
  qed
  show "\<exists>d. rd_desc m' (slot g 3) = build_x64_r0_cs_desc d" "\<exists>d. rd_desc m' (slot g 4) = build_x64_r0_ds_desc d"
      "\<exists>d. rd_desc m' (slot g 5) = build_x64_r3_ds_desc d" "\<exists>d. rd_desc m' (slot g 6) = build_x64_r3_cs_desc d"
    using s2(2) s3(2) s4(2) s5(2) by (auto simp: f)
qed

end
