(* ===== verification/Task32.thy ===== *)
theory Task32
  imports Gdt32 Task64 String32
begin

text \<open>
  The tasks of the 32-bit kernel (x86_kernel/kernel/task.c, sched.c,
  chr_drv/clock.c, include/linux/task.h) and the C-visible part of the clock
  interrupt (kernel/asm/int_isr.asm) and of the switch (kernel/asm/schedAsm.asm).

  A task_t is 180 bytes of memory: the context, a tss_t of 108 bytes, the name and
  the words behind it. Stores through a null pointer are stores at the low
  addresses, which are mapped. The prints are left out. \<open>None\<close> is a call that does
  not return or a store outside the table of tasks.
\<close>

section \<open>Data\<close>

datatype field32 =
  C_eip | C_flags | C_eax | C_ebx | C_ecx | C_edx | C_esp | C_ebp | C_esi | C_edi | C_es | C_cs | C_ss | C_ds | C_fs | C_gs |
  F_pid | F_state | F_function | F_stack | F_user_stack | F_stackSize | F_fist_sched | F_priority | F_counter |
  F_esp0 | F_ebp0 | F_esp3 | F_ebp3 | F_runPL

primrec offset32 :: "field32 \<Rightarrow> nat" where
  "offset32 C_eip = 32"
| "offset32 C_flags = 36"
| "offset32 C_eax = 40"
| "offset32 C_ebx = 44"
| "offset32 C_ecx = 48"
| "offset32 C_edx = 52"
| "offset32 C_esp = 56"
| "offset32 C_ebp = 60"
| "offset32 C_esi = 64"
| "offset32 C_edi = 68"
| "offset32 C_es = 72"
| "offset32 C_cs = 76"
| "offset32 C_ss = 80"
| "offset32 C_ds = 84"
| "offset32 C_fs = 88"
| "offset32 C_gs = 92"
| "offset32 F_pid = 124"
| "offset32 F_state = 128"
| "offset32 F_function = 132"
| "offset32 F_stack = 136"
| "offset32 F_user_stack = 140"
| "offset32 F_stackSize = 144"
| "offset32 F_fist_sched = 148"
| "offset32 F_priority = 152"
| "offset32 F_counter = 156"
| "offset32 F_esp0 = 160"
| "offset32 F_ebp0 = 164"
| "offset32 F_esp3 = 168"
| "offset32 F_ebp3 = 172"
| "offset32 F_runPL = 176"

definition x86_task_name :: "u32 \<Rightarrow> u32" where
  "x86_task_name task = task + 108"

definition x86_sizeof_task :: u32 where "x86_sizeof_task = 180"

definition x86_TASK_MAX_NUMS :: nat where "x86_TASK_MAX_NUMS = 4"

definition get32 :: "mem32 \<Rightarrow> u32 \<Rightarrow> field32 \<Rightarrow> u32" where
  "get32 m task f = rd32 m (task + of_nat (offset32 f))"

definition set32 :: "u32 \<Rightarrow> field32 \<Rightarrow> u32 \<Rightarrow> mem32 \<Rightarrow> mem32" where
  "set32 task f v m = wr32 m (task + of_nat (offset32 f)) v"

definition state32 :: "mem32 \<Rightarrow> u32 \<Rightarrow> task_state_t \<Rightarrow> bool" where
  "state32 m task st \<longleftrightarrow> get32 m task F_state = state_code st"

definition set_state32 :: "u32 \<Rightarrow> task_state_t \<Rightarrow> mem32 \<Rightarrow> mem32" where
  "set_state32 task st = set32 task F_state (state_code st)"

text \<open>
  The state: the allocator, the table, CURRENT, the counters of the clock and the
  interrupt flag.
\<close>

record x86_tasks = kheap32 +
  tasks32 :: "u32 list"
  CURRENT :: u32
  jiffy :: u32
  cpu_tickes :: u32
  if32 :: bool

definition upd_mem :: "(mem32 \<Rightarrow> mem32) \<Rightarrow> 'x kheap32_scheme \<Rightarrow> 'x kheap32_scheme" where
  "upd_mem f s = s\<lparr>xmem := f (xmem s)\<rparr>"

section \<open>The choice of the next task\<close>

fun x86_free_index :: "u32 list \<Rightarrow> nat \<Rightarrow> int" where
  "x86_free_index [] i = - 1"
| "x86_free_index (t # ts) i = (if t = 0 then int i else x86_free_index ts (Suc i))"

definition x86_get_free_task_index :: "x86_tasks \<Rightarrow> int" where
  "x86_get_free_task_index s = x86_free_index (tasks32 s) 0"

fun scan32 :: "mem32 \<Rightarrow> u32 list \<Rightarrow> u32 \<Rightarrow> bool \<Rightarrow> u32 \<times> bool" where
  "scan32 m [] highPrioTask hasWaitTask = (highPrioTask, hasWaitTask)"
| "scan32 m (t # ts) highPrioTask hasWaitTask =
     (if t = 0 then scan32 m ts highPrioTask hasWaitTask
      else if state32 m t TASK_WAITING then scan32 m ts highPrioTask True
      else if state32 m t TASK_READY then
        (if highPrioTask = 0 then scan32 m ts t hasWaitTask
         else if get32 m t F_priority > get32 m highPrioTask F_priority then scan32 m ts t hasWaitTask
         else scan32 m ts highPrioTask hasWaitTask)
      else scan32 m ts highPrioTask hasWaitTask)"

text \<open>The second loop gives a new slice, but does not change the state of the tasks.\<close>

fun reset32 :: "mem32 \<Rightarrow> u32 list \<Rightarrow> u32 \<Rightarrow> mem32 \<times> u32" where
  "reset32 m [] highPrioTask = (m, highPrioTask)"
| "reset32 m (t # ts) highPrioTask =
     (if t = 0 \<or> \<not> state32 m t TASK_WAITING then reset32 m ts highPrioTask
      else (let m = set32 t F_counter (get32 m t F_priority) m
            in if highPrioTask = 0 then reset32 m ts t
               else if get32 m t F_priority > get32 m highPrioTask F_priority then reset32 m ts t
               else reset32 m ts highPrioTask))"

text \<open>Both loops start with the task of index 1; the task of index 0 is the idle task.\<close>

definition x86_get_next_ready_task :: "x86_tasks \<Rightarrow> x86_tasks \<times> u32" where
  "x86_get_next_ready_task s =
     (let (high, hasWait) = scan32 (xmem s) (tl (tasks32 s)) 0 False
      in if high \<noteq> 0 then (s, high)
         else if hasWait then (let (m, high) = reset32 (xmem s) (tl (tasks32 s)) 0 in (s\<lparr>xmem := m\<rparr>, high))
         else (s, hd (tasks32 s)))"

section \<open>Creation\<close>

definition fill32 :: "u32 \<Rightarrow> u32 \<Rightarrow> u32 \<Rightarrow> u32 \<Rightarrow> u32 \<Rightarrow> u32 \<Rightarrow> u32 \<Rightarrow> u32 \<Rightarrow> mem32 \<Rightarrow> mem32 option" where
  "fill32 code data task pid name func stackSize priority m =
     map_option
       (\<lambda>(m, _). let
          m = set32 task F_function func m;
          m = set32 task F_pid pid m;
          m = set_state32 task TASK_INIT m;
          m = set32 task F_fist_sched 1 m;
          m = set32 task C_esp (get32 m task F_stack + 4096 - 1) m;
          m = set32 task C_eip func m;
          m = set32 task C_cs code m;
          m = set32 task C_ds data m;
          m = set32 task C_es data m;
          m = set32 task C_fs data m;
          m = set32 task C_gs data m;
          m = set32 task C_ss data m;
          m = set32 task F_esp0 (get32 m task C_esp) m;
          m = set32 task F_ebp0 (get32 m task F_esp0) m;
          m = set32 task F_esp3 (get32 m task F_user_stack + stackSize - 1) m;
          m = set32 task F_ebp3 (get32 m task F_esp3) m;
          m = set32 task F_counter priority m;
          m = set32 task F_priority priority m
        in set_state32 task TASK_READY m)
       (x86_strcpy (set32 task F_stackSize stackSize m) (x86_task_name task) name)"

text \<open>The two creation functions differ in the selectors only.\<close>

definition create32 :: "u32 \<Rightarrow> u32 \<Rightarrow> x86_tasks \<Rightarrow> u32 \<Rightarrow> u32 \<Rightarrow> u32 \<Rightarrow> u32 \<Rightarrow> (x86_tasks \<times> u32) option" where
  "create32 code data s name func stackSize priority =
     (let pid = x86_get_free_task_index s
      in if pid < 0 then Some (s, 0)
         else
           (let stackSize = (if stackSize > 4096 then 4096 else stackSize)
            in do {
              (s, newTask) \<leftarrow> x86_kmalloc s x86_sizeof_task;
              if newTask = 0 then Some (s, 0) else do {
                (s, stack) \<leftarrow> x86_kmalloc s 4096;
                let s = upd_mem (set32 newTask F_stack stack) s;
                if get32 (xmem s) newTask F_stack = 0 then do {
                  s \<leftarrow> x86_kfree_s s newTask x86_sizeof_task;
                  Some (s, 0)
                } else do {
                  (s, user_stack) \<leftarrow> x86_kmalloc s stackSize;
                  let s = upd_mem (set32 newTask F_user_stack user_stack) s;
                  if get32 (xmem s) newTask F_user_stack = 0 then do {
                    s \<leftarrow> x86_kfree_s s (get32 (xmem s) newTask F_stack) 4096;
                    s \<leftarrow> x86_kfree_s s newTask x86_sizeof_task;
                    Some (s, 0)
                  } else do {
                    m \<leftarrow> fill32 code data newTask (of_int pid) name func stackSize priority (xmem s);
                    Some (s\<lparr>xmem := m, tasks32 := (tasks32 s)[nat pid := newTask]\<rparr>, newTask)
                  }
                }
              }
            }))"

definition x86_ktask_create :: "x86_tasks \<Rightarrow> u32 \<Rightarrow> u32 \<Rightarrow> u32 \<Rightarrow> u32 \<Rightarrow> (x86_tasks \<times> u32) option" where
  "x86_ktask_create = create32 KERNEL_CODE_SECTOR KERNEL_DATA_SECTOR"

definition x86_utask_create :: "x86_tasks \<Rightarrow> u32 \<Rightarrow> u32 \<Rightarrow> u32 \<Rightarrow> u32 \<Rightarrow> (x86_tasks \<times> u32) option" where
  "x86_utask_create = create32 USER_CODE_SECTOR USER_DATA_SECTOR"

definition set_runPL :: "u32 \<Rightarrow> u32 \<Rightarrow> x86_tasks \<Rightarrow> x86_tasks" where
  "set_runPL task PL = upd_mem (set32 task F_runPL PL)"

definition get_runPL :: "x86_tasks \<Rightarrow> u32 \<Rightarrow> u32" where
  "get_runPL s task = get32 (xmem s) task F_runPL"

definition get_esp3 :: "x86_tasks \<Rightarrow> u32 \<Rightarrow> u32" where
  "get_esp3 s task = get32 (xmem s) task F_esp3"

text \<open>
  The arguments are the addresses of the names and functions of the three tasks.
  The results of the creations are used without a check.
\<close>

definition create_idle :: "u32 \<times> u32 \<Rightarrow> u32 \<times> u32 \<Rightarrow> u32 \<times> u32 \<Rightarrow> x86_tasks \<Rightarrow> x86_tasks option" where
  "create_idle idle init user s = do {
     (s, task) \<leftarrow> x86_ktask_create s (fst idle) (snd idle) 2048 1;
     let s = set_runPL task 0 s;
     (s, task) \<leftarrow> x86_ktask_create s (fst init) (snd init) 2048 3;
     let s = set_runPL task 3 s;
     (s, task) \<leftarrow> x86_ktask_create s (fst user) (snd user) 2048 2;
     Some (set_runPL task 0 s)
   }"

definition init_task :: "u32 \<times> u32 \<Rightarrow> u32 \<times> u32 \<Rightarrow> u32 \<times> u32 \<Rightarrow> x86_tasks \<Rightarrow> x86_tasks option" where
  "init_task = create_idle"

section \<open>Scheduling\<close>

definition x86_get_first_sched_flag :: "u32 \<Rightarrow> x86_tasks \<Rightarrow> x86_tasks \<times> u32" where
  "x86_get_first_sched_flag task s =
     (if get32 (xmem s) task F_fist_sched = 0 then (s, 0) else (upd_mem (set32 task F_fist_sched 0) s, 1))"

definition set_task_ready :: "u32 \<Rightarrow> x86_tasks \<Rightarrow> x86_tasks" where
  "set_task_ready task = upd_mem (set_state32 task TASK_READY)"

text \<open>
  sched_task (assembly) returns if there is no task; else it asks for the flag of
  the first schedule and continues in the task with interrupts enabled.
\<close>

definition x86_sched_task :: "x86_tasks \<Rightarrow> x86_tasks" where
  "x86_sched_task s = (if CURRENT s = 0 then s else (fst (x86_get_first_sched_flag (CURRENT s) s))\<lparr>if32 := True\<rparr>)"

definition set_current_running :: "x86_tasks \<Rightarrow> x86_tasks" where
  "set_current_running s = upd_mem (set_state32 (CURRENT s) TASK_RUNNING) s"

definition sched :: "x86_tasks \<Rightarrow> x86_tasks" where
  "sched s =
     (let (s, next_task) = x86_get_next_ready_task s;
          s = (if CURRENT s \<noteq> 0 then set_task_ready (CURRENT s) s else s);
          s = (if next_task \<noteq> 0 then s\<lparr>CURRENT := next_task\<rparr> else s)
      in x86_sched_task (set_current_running s))"

definition sched_by_sleep :: "x86_tasks \<Rightarrow> x86_tasks" where
  "sched_by_sleep s =
     (let (s, next_task) = x86_get_next_ready_task s
      in x86_sched_task (set_current_running (s\<lparr>CURRENT := next_task\<rparr>)))"

text \<open>The kernel stack has PAGE_SIZE bytes but is freed with the size of the user stack, which stays allocated.\<close>

definition x86_task_exit :: "u32 \<Rightarrow> x86_tasks \<Rightarrow> x86_tasks option" where
  "x86_task_exit task s =
     (let pid = unat (get32 (xmem s) task F_pid)
      in if x86_TASK_MAX_NUMS \<le> pid then None
         else do {
           let s = s\<lparr>tasks32 := (tasks32 s)[pid := 0]\<rparr>;
           s \<leftarrow> x86_kfree_s s (get32 (xmem s) task F_stack) (get32 (xmem s) task F_stackSize);
           s \<leftarrow> x86_kfree_s s task x86_sizeof_task;
           Some (sched_by_sleep s)
         })"

text \<open>The comparison of task_wakeup is unsigned, counter being a size_t.\<close>

fun wakeup_loop :: "u32 \<Rightarrow> u32 list \<Rightarrow> mem32 \<Rightarrow> mem32" where
  "wakeup_loop tickes [] m = m"
| "wakeup_loop tickes (t # ts) m =
     (if t \<noteq> 0 \<and> state32 m t TASK_SLEEPING \<and> tickes \<ge> get32 m t F_counter then
        (let m = set_state32 t TASK_READY m in wakeup_loop tickes ts (set32 t F_counter (get32 m t F_priority) m))
      else wakeup_loop tickes ts m)"

definition task_wakeup :: "x86_tasks \<Rightarrow> x86_tasks" where
  "task_wakeup s = upd_mem (wakeup_loop (cpu_tickes s) (tl (tasks32 s))) s"

definition sub_task_counter :: "u32 \<Rightarrow> x86_tasks \<Rightarrow> x86_tasks \<times> u32" where
  "sub_task_counter task s =
     (let s = task_wakeup s
      in if get32 (xmem s) task F_counter = 0 then (upd_mem (set_state32 task TASK_WAITING) s, 1)
         else (upd_mem (set32 task F_counter (get32 (xmem s) task F_counter - 1)) s, 0))"

text \<open>
  What the assembly stores into the context of the interrupted task: the registers
  as they are when they are stored. In the clock interrupt this is after the call of
  \<open>sub_task_counter\<close>, so that ecx and edx are what that call left.
\<close>

record scene =
  sc_eax :: u32
  sc_ebx :: u32
  sc_ecx :: u32
  sc_edx :: u32
  sc_ebp :: u32
  sc_esi :: u32
  sc_edi :: u32
  sc_eip :: u32
  sc_eflags :: u32
  sc_cs :: u32
  sc_esp :: u32
  sc_ss :: u32

definition save_registers :: "scene \<Rightarrow> u32 \<Rightarrow> mem32 \<Rightarrow> mem32" where
  "save_registers sc t m =
     (let m = set32 t C_ebx (sc_ebx sc) m;
          m = set32 t C_ecx (sc_ecx sc) m;
          m = set32 t C_edx (sc_edx sc) m;
          m = set32 t C_ebp (sc_ebp sc) m;
          m = set32 t C_esi (sc_esi sc) m;
          m = set32 t C_edi (sc_edi sc) m;
          m = set32 t C_eax (sc_eax sc) m;
          m = set32 t C_eip (sc_eip sc) m
      in set32 t C_flags (sc_eflags sc) m)"

text \<open>\<open>sdiv\<close> is the division of C: it truncates towards zero.\<close>

definition sdiv :: "u32 \<Rightarrow> u32 \<Rightarrow> u32" where
  "sdiv a b = of_int (sgn (sint a) * sgn (sint b) * (\<bar>sint a\<bar> div \<bar>sint b\<bar>))"

definition task_sleep :: "scene \<Rightarrow> u32 \<Rightarrow> x86_tasks \<Rightarrow> x86_tasks" where
  "task_sleep sc ms s =
     (if CURRENT s = 0 then s
      else
        (let t = CURRENT s;
             s = s\<lparr>if32 := False\<rparr>;
             s = upd_mem (set32 t F_counter (cpu_tickes s + sdiv ms (jiffy s))) s;
             s = upd_mem (set_state32 t TASK_SLEEPING) s;
             s = upd_mem (\<lambda>m. set32 t C_esp (sc_esp sc) (save_registers sc t m)) s
         in sched_by_sleep s))"

section \<open>The clock\<close>

definition PIT_CHAN0_REG :: u32 where "PIT_CHAN0_REG = 0x40"
definition PIT_CTRL_REG :: u32 where "PIT_CTRL_REG = 0x43"
definition HZ :: u32 where "HZ = 100"
definition OSCILLATOR :: u32 where "OSCILLATOR = 1193182"
definition CLOCK_COUNTER :: u32 where "CLOCK_COUNTER = OSCILLATOR div HZ"
definition JIFFY :: u32 where "JIFFY = 1000 div HZ"

text \<open>The bytes written to the ports.\<close>

definition clock_init :: "(u32 \<times> u8) list" where
  "clock_init = [(PIT_CTRL_REG, 0b00110100), (PIT_CHAN0_REG, ucast (CLOCK_COUNTER AND 0xff)),
     (PIT_CHAN0_REG, ucast (drop_bit 8 CLOCK_COUNTER AND 0xff))]"

definition clock_hander :: "x86_tasks \<Rightarrow> x86_tasks" where
  "clock_hander s = s\<lparr>cpu_tickes := cpu_tickes s + 1\<rparr>"

text \<open>
  One clock interrupt: with time left the handler returns to the task, without
  counting the tick; else it saves the context of the task and schedules.
\<close>

definition clock_handle :: "scene \<Rightarrow> x86_tasks \<Rightarrow> x86_tasks" where
  "clock_handle sc s =
     (if CURRENT s = 0 then sched (clock_hander s)
      else
        (let t = CURRENT s; (s, r) = sub_task_counter t s
         in if r = 1 then
              sched (clock_hander
                (upd_mem (\<lambda>m. set32 t C_ss (sc_ss sc) (set32 t C_esp (sc_esp sc) (set32 t C_cs (sc_cs sc) (save_registers sc t m)))) s))
            else s))"

end
