(* ===== verification/Task32Props.thy ===== *)
theory Task32Props
  imports Task32
begin

text \<open>
  The scheduling of the 32-bit kernel: what the choice returns, and how the clock
  interrupts share the processor among the tasks.
\<close>

section \<open>Fields\<close>

lemma offset32_mult: "4 dvd offset32 f \<and> offset32 f + 4 \<le> 180"
  by (cases f) simp_all

lemma offset32_inj: "offset32 f = offset32 g \<Longrightarrow> f = g"
  by (cases f; cases g; simp)

lemma offset32_apart: "f \<noteq> g \<Longrightarrow> offset32 f + 4 \<le> offset32 g \<or> offset32 g + 4 \<le> offset32 f"
proof -
  assume "f \<noteq> g"
  then have "offset32 f \<noteq> offset32 g" using offset32_inj by blast
  moreover obtain i j where "offset32 f = 4 * i" "offset32 g = 4 * j"
    using offset32_mult [of f] offset32_mult [of g] by (auto elim!: dvdE)
  ultimately show ?thesis by presburger
qed

lemma get32_set32 [simp]: "get32 (set32 t f v m) t g = (if g = f then v else get32 m t g)"
proof (cases "g = f")
  case False
  then have "apart (t + of_nat (offset32 g)) 4 (t + of_nat (offset32 f)) 4"
    using offset32_apart [of f g] offset32_mult [of f] offset32_mult [of g]
      apart_offset_same [of "offset32 f" 4 "offset32 g" 4 t] apart_offset_same [of "offset32 g" 4 "offset32 f" 4 t]
    by auto
  then show ?thesis using False by (simp add: get32_def set32_def rd32_wr32_apart)
qed (simp add: get32_def set32_def rd32_wr32_same)

lemma get32_set32_other [simp]: "apart t' 180 t 180 \<Longrightarrow> get32 (set32 t f v m) t' g = get32 m t' g"
  unfolding get32_def set32_def using offset32_mult [of f] offset32_mult [of g]
  by (intro rd32_wr32_apart apart_within) auto

lemma xmem_upd_mem [simp]:
  "xmem (upd_mem f s) = f (xmem s)" "tasks32 (upd_mem f s) = tasks32 s" "CURRENT (upd_mem f s) = CURRENT s"
  "cpu_tickes (upd_mem f s) = cpu_tickes s" for s :: x86_tasks
  by (simp_all add: upd_mem_def)

section \<open>The choice\<close>

text \<open>The first loop returns a READY task of the greatest priority, if there is a READY task.\<close>

lemma scan32_result:
  assumes "scan32 m ts h w = (h', w')"
  shows "h' = h \<or> h' \<in> set ts \<and> h' \<noteq> 0 \<and> state32 m h' TASK_READY"
    and "h \<noteq> 0 \<Longrightarrow> h' \<noteq> 0 \<and> get32 m h F_priority \<le> get32 m h' F_priority"
    and "t \<in> set ts \<Longrightarrow> t \<noteq> 0 \<Longrightarrow> state32 m t TASK_READY \<Longrightarrow> h' \<noteq> 0 \<and> get32 m t F_priority \<le> get32 m h' F_priority"
  using assms
proof (induction ts arbitrary: h w t)
  case (Cons x ts)
  have r: "x \<noteq> 0 \<and> state32 m x TASK_READY \<Longrightarrow> \<not> state32 m x TASK_WAITING" by (auto simp: state32_def)
  {
    case 1
    then show ?case using Cons.IH(1) by (fastforce split: if_splits)
  next
    case 2
    then show ?case using Cons.IH(2) by (fastforce split: if_splits)
  next
    case 3
    then show ?case using Cons.IH(2,3) r by (fastforce split: if_splits)
  }
qed auto

section \<open>Three tasks\<close>

text \<open>
  The tasks \<open>x\<close>, \<open>y\<close> and \<open>z\<close> of the table, of which \<open>z\<close> has the least priority. A
  task other than CURRENT is READY.
\<close>

definition three :: "u32 \<Rightarrow> u32 \<Rightarrow> u32 \<Rightarrow> x86_tasks \<Rightarrow> bool" where
  "three x y z s \<longleftrightarrow> {x, y, z} \<subseteq> set (tl (tasks32 s)) \<and> set (tl (tasks32 s)) \<subseteq> {0, x, y, z} \<and>
     get32 (xmem s) z F_priority < get32 (xmem s) x F_priority \<and> get32 (xmem s) z F_priority < get32 (xmem s) y F_priority"

definition separate :: "u32 \<Rightarrow> u32 \<Rightarrow> u32 \<Rightarrow> bool" where
  "separate x y z \<longleftrightarrow> x \<noteq> 0 \<and> y \<noteq> 0 \<and> z \<noteq> 0 \<and> apart x 180 y 180 \<and> apart y 180 x 180 \<and> apart x 180 z 180 \<and> apart z 180 x 180 \<and>
     apart y 180 z 180 \<and> apart z 180 y 180"

definition runs :: "u32 \<Rightarrow> u32 \<Rightarrow> u32 \<Rightarrow> x86_tasks \<Rightarrow> bool" where
  "runs x y z s \<longleftrightarrow> three x y z s \<and> CURRENT s = x \<and> state32 (xmem s) x TASK_RUNNING \<and> state32 (xmem s) y TASK_READY \<and>
     state32 (xmem s) z TASK_READY"

lemma separate_sym: "separate x y z \<Longrightarrow> separate y x z"
  by (auto simp: separate_def)

lemma separate_neq: "separate x y z \<Longrightarrow> x \<noteq> y \<and> x \<noteq> z \<and> y \<noteq> z"
  by (auto simp: separate_def apart_def)

text \<open>The rest of the time slice of a task.\<close>

definition slice :: "x86_tasks \<Rightarrow> u32 \<Rightarrow> nat" where
  "slice s t = unat (get32 (xmem s) t F_counter)"

lemma slice_0: "slice s t = 0 \<longleftrightarrow> get32 (xmem s) t F_counter = 0"
  by (simp add: slice_def unat_eq_0)

lemma wakeup_none: "\<forall>t \<in> set ts. t \<noteq> 0 \<longrightarrow> \<not> state32 m t TASK_SLEEPING \<Longrightarrow> wakeup_loop k ts m = m"
  by (induction ts) auto

text \<open>The choice between \<open>y\<close> and \<open>z\<close>, and between all three.\<close>

lemma next_not_least:
  assumes sep: "separate x y z" and t: "three x y z s" and r: "state32 (xmem s) y TASK_READY"
  obtains h where "x86_get_next_ready_task s = (s, h)" "h \<in> {x, y}" "state32 (xmem s) h TASK_READY"
proof -
  obtain h w where sc: "scan32 (xmem s) (tl (tasks32 s)) 0 False = (h, w)" by fastforce
  note R = scan32_result [OF sc]
  have y: "y \<in> set (tl (tasks32 s))" "y \<noteq> 0" using t sep by (auto simp: three_def separate_def)
  note Y = R(3) [OF y r]
  have h: "h \<in> set (tl (tasks32 s))" "state32 (xmem s) h TASK_READY" using R(1) Y by auto
  moreover have "h \<noteq> z" using Y t by (auto simp: three_def)
  ultimately have "h \<in> {x, y}" using Y t by (auto simp: three_def)
  moreover have "x86_get_next_ready_task s = (s, h)" using sc Y by (simp add: x86_get_next_ready_task_def)
  ultimately show ?thesis using that h by blast
qed

lemma save_registers_get [simp]:
  "get32 (save_registers sc t m) t F_state = get32 m t F_state"
  "get32 (save_registers sc t m) t F_priority = get32 m t F_priority"
  by (simp_all add: save_registers_def)

lemma save_registers_other [simp]: "apart t' 180 t 180 \<Longrightarrow> get32 (save_registers sc t m) t' f = get32 m t' f"
  by (simp add: save_registers_def)

lemma dispatch:
  fixes s :: x86_tasks
  defines "s' \<equiv> x86_sched_task (set_current_running s)"
  shows "tasks32 s' = tasks32 s" "CURRENT s' = CURRENT s" "get32 (xmem s') (CURRENT s) F_state = state_code TASK_RUNNING"
    "get32 (xmem s') (CURRENT s) F_priority = get32 (xmem s) (CURRENT s) F_priority"
    "get32 (xmem s') (CURRENT s) F_counter = get32 (xmem s) (CURRENT s) F_counter"
    "apart t 180 (CURRENT s) 180 \<Longrightarrow> get32 (xmem s') t f = get32 (xmem s) t f"
  by (simp_all add: s'_def x86_sched_task_def set_current_running_def x86_get_first_sched_flag_def set_state32_def)
    (metis get32_set32_other)

lemma save_registers_counter [simp]: "get32 (save_registers sc t m) t F_counter = get32 m t F_counter"
  by (simp add: save_registers_def)

lemma clock_step:
  assumes sep: "separate x y z" and r: "runs x y z s"
  shows "if slice s x = 0 then runs y x z (clock_handle sc s) \<and> slice (clock_handle sc s) x = 0 \<and> slice (clock_handle sc s) y = slice s y
    else runs x y z (clock_handle sc s) \<and> Suc (slice (clock_handle sc s) x) = slice s x \<and> slice (clock_handle sc s) y = slice s y"
proof -
  note sp = sep [unfolded separate_def] and ne = separate_neq [OF sep]
  have t: "three x y z s" and cur: "CURRENT s = x" and st: "get32 (xmem s) x F_state = 1" "get32 (xmem s) y F_state = 2"
    "get32 (xmem s) z F_state = 2" using r by (auto simp: runs_def state32_def)
  have "\<forall>t \<in> set (tl (tasks32 s)). t \<noteq> 0 \<longrightarrow> \<not> state32 (xmem s) t TASK_SLEEPING"
    using t st by (auto simp: three_def state32_def)
  then have w: "task_wakeup s = s" by (simp add: task_wakeup_def wakeup_none upd_mem_def)
  show ?thesis
  proof (cases "get32 (xmem s) x F_counter = 0")
    case False
    then have e: "clock_handle sc s = upd_mem (set32 x F_counter (get32 (xmem s) x F_counter - 1)) s"
      using sp by (simp add: clock_handle_def cur sub_task_counter_def w)
    have "Suc (unat (get32 (xmem s) x F_counter - 1)) = unat (get32 (xmem s) x F_counter)"
      using False unat_gt_0 [of "get32 (xmem s) x F_counter"] unat_minus_one [OF False] by simp
    then show ?thesis using r sp False by (simp add: e runs_def three_def state32_def slice_def unat_eq_0)
  next
    case True
    let ?m = "\<lambda>m. set32 x C_ss (sc_ss sc) (set32 x C_esp (sc_esp sc) (set32 x C_cs (sc_cs sc) (save_registers sc x m)))"
    define s1 where "s1 = clock_hander (upd_mem ?m (upd_mem (set_state32 x TASK_WAITING) s))"
    have e: "clock_handle sc s = sched s1"
      using sp True by (simp add: clock_handle_def cur sub_task_counter_def w s1_def)
    have f: "get32 (xmem s1) x F_counter = 0" "get32 (xmem s1) x F_priority = get32 (xmem s) x F_priority" "get32 (xmem s1) x F_state = 5"
      "get32 (xmem s1) y f = get32 (xmem s) y f" "get32 (xmem s1) z f = get32 (xmem s) z f"
      "tasks32 s1 = tasks32 s" "CURRENT s1 = x" for f
      using sp cur True by (simp_all add: s1_def clock_hander_def set_state32_def)
    have t1: "three x y z s1" using t f by (simp add: three_def)
    obtain h where h: "x86_get_next_ready_task s1 = (s1, h)" "h \<in> {x, y}" "state32 (xmem s1) h TASK_READY"
      using next_not_least [OF sep t1] f st by (auto simp: state32_def)
    then have hy: "h = y" using f by (auto simp: state32_def)
    define s2 where "s2 = (set_task_ready x s1)\<lparr>CURRENT := y\<rparr>"
    have e2: "clock_handle sc s = x86_sched_task (set_current_running s2)"
      using sp f by (simp add: e sched_def h(1) hy s2_def)
    have g: "get32 (xmem s2) x F_counter = 0" "get32 (xmem s2) y F_counter = get32 (xmem s) y F_counter"
      "get32 (xmem s2) x F_priority = get32 (xmem s) x F_priority" "get32 (xmem s2) x F_state = 2"
      "get32 (xmem s2) y F_priority = get32 (xmem s) y F_priority" "get32 (xmem s2) z f = get32 (xmem s) z f"
      "tasks32 s2 = tasks32 s" "CURRENT s2 = y" for f
      using sp f by (simp_all add: s2_def set_task_ready_def set_state32_def)
    note d = dispatch [where s = s2, folded e2, unfolded g(8)]
    have "runs y x z (clock_handle sc s)" unfolding runs_def three_def state32_def d(1,2,3,4)
      using t st g sp d by (auto simp: three_def)
    moreover have "slice (clock_handle sc s) x = 0" "slice (clock_handle sc s) y = slice s y"
      using d(5) d(6) [of x] g(1,2) sp by (simp_all add: slice_def)
    ultimately show ?thesis using True by (simp add: slice_0)
  qed
qed

text \<open>The tasks \<open>x\<close> and \<open>y\<close> in turn.\<close>

definition shared :: "u32 \<Rightarrow> u32 \<Rightarrow> u32 \<Rightarrow> x86_tasks \<Rightarrow> bool" where
  "shared x y z s \<longleftrightarrow> runs x y z s \<or> runs y x z s"

lemma clock_steps_shared:
  assumes sep: "separate x y z" and r: "shared x y z s"
  shows "shared x y z (fold clock_handle scs s)"
  using r
proof (induction scs arbitrary: s)
  case (Cons sc scs)
  have "shared x y z (clock_handle sc s)"
    using Cons.prems clock_step [OF sep, of s sc] clock_step [OF separate_sym [OF sep], of s sc]
    by (auto simp: shared_def split: if_splits)
  then show ?case using Cons.IH by simp
qed simp

text \<open>Once both slices are used up they stay so, and every tick switches.\<close>

lemma clock_steps_slices:
  assumes "separate x y z" "runs x y z s" "slice s x + slice s y + (if slice s y = 0 then 0 else 1) \<le> length scs"
  shows "slice (fold clock_handle scs s) x = 0 \<and> slice (fold clock_handle scs s) y = 0"
  using assms
proof (induction scs arbitrary: s x y)
  case (Cons sc scs)
  note step = clock_step [OF Cons.prems(1,2), of sc]
  show ?case
  proof (cases "slice s x = 0")
    case True
    with step have 1: "runs y x z (clock_handle sc s)" "slice (clock_handle sc s) x = 0" "slice (clock_handle sc s) y = slice s y" by auto
    then show ?thesis using Cons.IH [OF separate_sym [OF Cons.prems(1)] 1(1)] Cons.prems(3) True by (auto split: if_splits)
  next
    case False
    with step have 1: "runs x y z (clock_handle sc s)" "Suc (slice (clock_handle sc s) x) = slice s x" "slice (clock_handle sc s) y = slice s y"
      by auto
    then show ?thesis using Cons.IH [OF Cons.prems(1) 1(1)] Cons.prems(3) by (auto split: if_splits)
  qed
qed (simp split: if_splits)

lemma first_tick:
  assumes sep: "separate x y z" and t: "three x y z s" and c: "CURRENT s = 0"
    and r: "state32 (xmem s) x TASK_READY" "state32 (xmem s) y TASK_READY" "state32 (xmem s) z TASK_READY"
  shows "runs x y z (clock_handle sc s) \<or> runs y x z (clock_handle sc s)"
    and "slice (clock_handle sc s) x = slice s x" "slice (clock_handle sc s) y = slice s y"
proof -
  note sp = sep [unfolded separate_def] and ne = separate_neq [OF sep]
  let ?s = "clock_hander s"
  have f: "xmem ?s = xmem s" "tasks32 ?s = tasks32 s" "CURRENT ?s = 0" by (simp_all add: clock_hander_def c)
  have "three x y z ?s" using t by (simp add: three_def f)
  then obtain h where h: "x86_get_next_ready_task ?s = (?s, h)" "h \<in> {x, y}"
    using next_not_least [OF sep] r(2) f(1) by metis
  define s2 where "s2 = ?s\<lparr>CURRENT := h\<rparr>"
  have h0: "h \<noteq> 0" using h(2) sp by auto
  have e: "clock_handle sc s = x86_sched_task (set_current_running s2)"
    using h0 by (simp add: clock_handle_def c sched_def h(1) f(3) s2_def)
  have g: "xmem s2 = xmem s" "tasks32 s2 = tasks32 s" "CURRENT s2 = h" by (simp_all add: s2_def f)
  note d = dispatch [where s = s2, folded e, unfolded g]
  consider "h = x" | "h = y" using h(2) by auto
  then have "(runs x y z (clock_handle sc s) \<or> runs y x z (clock_handle sc s)) \<and>
    slice (clock_handle sc s) x = slice s x \<and> slice (clock_handle sc s) y = slice s y"
  proof cases
    case 1
    have "runs x y z (clock_handle sc s)"
      unfolding runs_def three_def state32_def d(1,2) using t r d(3,4) d(6) [of y] d(6) [of z] sp by (auto simp: 1 three_def state32_def)
    then show ?thesis using d(5) d(6) [of y] sp by (simp add: slice_def 1)
  next
    case 2
    have "runs y x z (clock_handle sc s)"
      unfolding runs_def three_def state32_def d(1,2) using t r d(3,4) d(6) [of x] d(6) [of z] sp by (auto simp: 2 three_def state32_def)
    then show ?thesis using d(5) d(6) [of x] sp by (simp add: slice_def 2)
  qed
  then show "runs x y z (clock_handle sc s) \<or> runs y x z (clock_handle sc s)"
    and "slice (clock_handle sc s) x = slice s x" "slice (clock_handle sc s) y = slice s y" by auto
qed

section \<open>Properties\<close>

text \<open>C8.
  The clock interrupt of the 32-bit kernel against its comment ("a task runs its
  time slice, then the next priority, until all have run, then all slices are
  renewed"): of three READY tasks the one of least priority stays READY but is never
  scheduled, whatever the number of clock interrupts, because the task whose slice
  is used up is made READY again when it is left. And no slice is renewed: after the
  two other tasks have used up their first slices, every clock interrupt switches
  between them.
\<close>

theorem x86_least_priority_starves:
  assumes "separate x y z" and "three x y z s" and "CURRENT s = 0"
    and "state32 (xmem s) x TASK_READY" "state32 (xmem s) y TASK_READY" "state32 (xmem s) z TASK_READY"
    and "scs \<noteq> []"
  shows "let s' = fold clock_handle scs s
    in CURRENT s' \<in> {x, y} \<and> state32 (xmem s') z TASK_READY \<and>
       (slice s x + slice s y + 2 \<le> length scs \<longrightarrow> CURRENT (clock_handle sc s') = (if CURRENT s' = x then y else x))"
proof -
  obtain sc0 rest where scs: "scs = sc0 # rest" using assms(7) by (cases scs) auto
  let ?s1 = "clock_handle sc0 s" and ?s' = "fold clock_handle scs s"
  note ne = separate_neq [OF assms(1)] and sym = separate_sym [OF assms(1)]
  note F = first_tick [OF assms(1-6), of sc0]
  then have "shared x y z ?s1" by (simp add: shared_def)
  then have sh: "shared x y z ?s'" using clock_steps_shared [OF assms(1)] by (simp add: scs)
  moreover have "CURRENT (clock_handle sc ?s') = (if CURRENT ?s' = x then y else x)" if "slice s x + slice s y + 2 \<le> length scs"
  proof -
    have "slice ?s' x = 0 \<and> slice ?s' y = 0"
      using F that clock_steps_slices [OF assms(1), of ?s1 rest] clock_steps_slices [OF sym, of ?s1 rest]
      by (auto simp: scs)
    then show ?thesis
      using sh clock_step [OF assms(1), of ?s' sc] clock_step [OF sym, of ?s' sc] ne by (auto simp: shared_def runs_def)
  qed
  ultimately show ?thesis by (auto simp: Let_def shared_def runs_def)
qed

text \<open>Three READY tasks of the priorities 3, 2 and 1.\<close>

definition demo_tasks32 :: x86_tasks where
  "demo_tasks32 = \<lparr>xmem = (\<lambda>_. 0)(0x1080 := 2, 0x2080 := 2, 0x3080 := 2, 0x1098 := 3, 0x2098 := 2, 0x3098 := 1),
     xmm = \<lparr>phy_base = 0x100000, phy_pages = 512, phy_pages_used = 2, phy_map_size = 512, phy_map = 0x9000\<rparr>,
     x86_bucket_dir = x86_g_bucket_dir, x86_free_bucket_chain = 0, tasks32 = [0, 0x1000, 0x2000, 0x3000], CURRENT = 0,
     jiffy = JIFFY, cpu_tickes = 0, if32 = True\<rparr>"

definition demo_scene :: scene where
  "demo_scene = \<lparr>sc_eax = 0, sc_ebx = 0, sc_ecx = 0, sc_edx = 0, sc_ebp = 0, sc_esi = 0, sc_edi = 0, sc_eip = 0, sc_eflags = 0,
     sc_cs = 8, sc_esp = 0, sc_ss = 16\<rparr>"

lemma demo_fields:
  "get32 (xmem demo_tasks32) 0x1000 F_state = 2" "get32 (xmem demo_tasks32) 0x2000 F_state = 2"
  "get32 (xmem demo_tasks32) 0x3000 F_state = 2" "get32 (xmem demo_tasks32) 0x1000 F_priority = 3"
  "get32 (xmem demo_tasks32) 0x2000 F_priority = 2" "get32 (xmem demo_tasks32) 0x3000 F_priority = 1"
  by (simp_all add: demo_tasks32_def get32_def rd32_def load_def upt_rec)

theorem x86_least_priority_starves_witness: "CURRENT (fold clock_handle (replicate 50 demo_scene) demo_tasks32) \<noteq> 0x3000"
proof -
  have 1: "separate 0x1000 0x2000 0x3000" by (simp add: separate_def apart_def)
  have 2: "three 0x1000 0x2000 0x3000 demo_tasks32" by (simp add: three_def demo_fields) (simp add: demo_tasks32_def)
  have 3: "CURRENT demo_tasks32 = 0" "state32 (xmem demo_tasks32) 0x1000 TASK_READY" "state32 (xmem demo_tasks32) 0x2000 TASK_READY"
    "state32 (xmem demo_tasks32) 0x3000 TASK_READY" "replicate 50 demo_scene \<noteq> []"
    by (simp_all add: demo_fields state32_def) (simp_all add: demo_tasks32_def)
  from x86_least_priority_starves [OF 1 2 3, of demo_scene] show ?thesis by (auto simp: Let_def)
qed

end
