(* ===== verification/PageWalk.thy ===== *)
theory PageWalk
  imports Ioremap
begin

text \<open>
  What the page tables of the 64-bit kernel translate. The walk of the processor
  through the three levels that the kernel uses is a function of the memory; the
  tables are seen as a tree of nodes, each of 512 entries.
\<close>

section \<open>The walk\<close>

text \<open>The walk of the processor: the present bit of each level, then a page of 2 MiB.\<close>

definition walk :: "mem \<Rightarrow> u64 \<Rightarrow> u64 option" where
  "walk m v =
     (let e1 = rd64 m (FOUR_LEVEL_HEAD_TABLE_ADDR + 8 * PML4_VRT_TO_PML4_IDX v);
          e2 = rd64 m (PML4_G_E_ADDR e1 + 8 * PML4_VRT_TO_PDPT_IDX v);
          e3 = rd64 m (PML4_G_E_ADDR e2 + 8 * PML4_VRT_TO_PDT_IDX v)
      in if bit e1 0 \<and> bit e2 0 \<and> bit e3 0 \<and> bit e3 7 then Some ((e3 AND 0xfffffffe00000) OR (v AND 0x1fffff)) else None)"

section \<open>The tables as a tree\<close>

datatype node = Root | L2 nat | L3 nat nat

definition ent :: "mem \<Rightarrow> u64 \<Rightarrow> nat \<Rightarrow> u64" where
  "ent m a k = rd64 m (a + of_nat (8 * k))"

fun addr :: "mem \<Rightarrow> node \<Rightarrow> u64" where
  "addr m Root = FOUR_LEVEL_HEAD_TABLE_ADDR"
| "addr m (L2 i) = PML4_G_E_ADDR (ent m FOUR_LEVEL_HEAD_TABLE_ADDR i)"
| "addr m (L3 i j) = PML4_G_E_ADDR (ent m (PML4_G_E_ADDR (ent m FOUR_LEVEL_HEAD_TABLE_ADDR i)) j)"

fun valid :: "mem \<Rightarrow> node \<Rightarrow> bool" where
  "valid m Root \<longleftrightarrow> True"
| "valid m (L2 i) \<longleftrightarrow> i < 512 \<and> ent m FOUR_LEVEL_HEAD_TABLE_ADDR i \<noteq> 0"
| "valid m (L3 i j) \<longleftrightarrow>
     i < 512 \<and> ent m FOUR_LEVEL_HEAD_TABLE_ADDR i \<noteq> 0 \<and> j < 512 \<and> ent m (addr m (L2 i)) j \<noteq> 0"

fun inner :: "node \<Rightarrow> bool" where
  "inner (L3 i j) \<longleftrightarrow> False"
| "inner n \<longleftrightarrow> True"

fun child :: "node \<Rightarrow> nat \<Rightarrow> node" where
  "child Root k = L2 k"
| "child (L2 i) k = L3 i k"
| "child (L3 i j) k = L3 i j"

lemma G_E_ADDR_bit: "bit (PML4_G_E_ADDR e) n \<longleftrightarrow> 12 \<le> n \<and> n < 52 \<and> bit e n"
  by (auto simp: PML4_G_E_ADDR_def bit_push_bit_iff bit_drop_bit_eq)

lemma G_E_ADDR_aligned: "4096 dvd unat (PML4_G_E_ADDR e)"
proof -
  have "take_bit 12 (PML4_G_E_ADDR e) = 0"
    by (rule bit_word_eqI) (auto simp: bit_take_bit_iff G_E_ADDR_bit)
  then have "unat (PML4_G_E_ADDR e mod 4096) = 0" by (simp add: take_bit_eq_mod)
  then show ?thesis by (simp only: unat_mod) (simp add: mod_eq_0_iff_dvd)
qed

lemma addr_aligned: "4096 dvd unat (addr m n)"
  by (cases n) (simp_all add: G_E_ADDR_aligned FOUR_LEVEL_HEAD_TABLE_ADDR_def)

text \<open>Entries of different tables, or of different numbers, do not overlap.\<close>

lemma entries_apart:
  fixes a b :: u64
  assumes "4096 dvd unat a" "4096 dvd unat b" "k < 512" "l < 512" "a \<noteq> b \<or> k \<noteq> l"
  shows "apart (a + of_nat (8 * k)) 8 (b + of_nat (8 * l)) 8"
proof (cases "a = b")
  case False
  then have "apart a 4096 b 4096" using assms by (intro apart_aligned) simp_all
  then show ?thesis using assms by (intro apart_within [of a 4096 b 4096]) auto
next
  case True
  then have "k < l \<or> l < k" using assms by auto
  then show ?thesis using assms True apart_offset_same [of "8 * k" 8 "8 * l" 8 a] apart_offset_same [of "8 * l" 8 "8 * k" 8 a] by auto
qed

lemma ent_wr64:
  assumes "4096 dvd unat a" "4096 dvd unat b" "k < 512" "l < 512"
  shows "ent (wr64 m (b + of_nat (8 * l)) v) a k = (if a = b \<and> k = l then v else ent m a k)"
  using entries_apart [OF assms] by (auto simp: ent_def rd64_wr64_same rd64_wr64_apart)

lemma ent_load: "load m' a 4096 = load m a 4096 \<Longrightarrow> k < 512 \<Longrightarrow> ent m' a k = ent m a k"
  unfolding ent_def by (rule rd64_part) auto

section \<open>Changes of the tree\<close>

text \<open>Unchanged inner entries leave the tree.\<close>

lemma tree_same:
  assumes "\<And>n k. valid m n \<Longrightarrow> inner n \<Longrightarrow> k < 512 \<Longrightarrow> ent m' (addr m n) k = ent m (addr m n) k"
  shows "valid m' n = valid m n" "valid m n \<Longrightarrow> addr m' n = addr m n"
proof -
  have 1: "i < 512 \<Longrightarrow> ent m' FOUR_LEVEL_HEAD_TABLE_ADDR i = ent m FOUR_LEVEL_HEAD_TABLE_ADDR i" for i using assms [of Root] by simp
  have 2: "valid m (L2 i) \<Longrightarrow> j < 512 \<Longrightarrow> ent m' (addr m (L2 i)) j = ent m (addr m (L2 i)) j" for i j using assms [of "L2 i"] by simp
  have "valid m' n = valid m n \<and> (valid m n \<longrightarrow> addr m' n = addr m n)"
    using 1 2 by (cases n) auto
  then show "valid m' n = valid m n" "valid m n \<Longrightarrow> addr m' n = addr m n" by auto
qed

text \<open>A new table below the entry \<open>k\<close> of the inner node \<open>n\<close>.\<close>

lemma tree_new:
  assumes n: "valid m n" "inner n" "k < 512" and old: "ent m (addr m n) k = 0"
    and e: "\<And>n' k'. valid m n' \<Longrightarrow> inner n' \<Longrightarrow> k' < 512 \<Longrightarrow>
      ent m' (addr m n') k' = (if n' = n \<and> k' = k then e else ent m (addr m n') k')"
    and new: "e \<noteq> 0" "\<And>k'. k' < 512 \<Longrightarrow> ent m' (PML4_G_E_ADDR e) k' = 0"
  shows "valid m' n' \<longleftrightarrow> valid m n' \<or> n' = child n k"
    and "valid m n' \<Longrightarrow> addr m' n' = addr m n'" and "addr m' (child n k) = PML4_G_E_ADDR e" and "\<not> valid m (child n k)"
proof -
  have r: "i < 512 \<Longrightarrow> ent m' FOUR_LEVEL_HEAD_TABLE_ADDR i = (if n = Root \<and> i = k then e else ent m FOUR_LEVEL_HEAD_TABLE_ADDR i)" for i
    using e [of Root] by auto
  have l: "valid m (L2 i) \<Longrightarrow> j < 512 \<Longrightarrow> ent m' (addr m (L2 i)) j = (if n = L2 i \<and> j = k then e else ent m (addr m (L2 i)) j)" for i j
    using e [of "L2 i"] by auto
  consider "n = Root" | i where "n = L2 i" using n(2) by (cases n) auto
  then have "(valid m' n' \<longleftrightarrow> valid m n' \<or> n' = child n k) \<and> (valid m n' \<longrightarrow> addr m' n' = addr m n') \<and>
    addr m' (child n k) = PML4_G_E_ADDR e \<and> \<not> valid m (child n k)"
  proof cases
    case 1
    then show ?thesis using n old new r l by (cases n') auto
  next
    case (2 i)
    then show ?thesis using n old new r l by (cases n') auto
  qed
  then show "valid m' n' \<longleftrightarrow> valid m n' \<or> n' = child n k" "valid m n' \<Longrightarrow> addr m' n' = addr m n'"
    "addr m' (child n k) = PML4_G_E_ADDR e" "\<not> valid m (child n k)" by auto
qed

section \<open>Tables from the page allocator\<close>

definition bitmap_apart :: "mm_pages_manager_t \<Rightarrow> u64 \<Rightarrow> bool" where
  "bitmap_apart pm a \<longleftrightarrow> apart a 4096 (bm_bits (pm_map pm)) (unat (bm_length (pm_map pm)))"

definition free_pages :: "pm_state \<Rightarrow> u64 set" where
  "free_pages s = pm_pages s - pm_used s"

definition zone_ok :: "pm_state \<Rightarrow> bool" where
  "zone_ok s \<longleftrightarrow> pm_invar s \<and> 4096 dvd unat (pm_start (snd s)) \<and>
     unat (pm_start (snd s)) + 4096 * bm_nbits (pm_map (snd s)) \<le> 2 ^ 52 \<and> (\<forall>p \<in> pm_pages s. bitmap_apart (snd s) p)"

text \<open>The tables are different pages, none of them free, outside of the bitmap; a used inner entry is present.\<close>

definition tables_ok :: "pm_state \<Rightarrow> bool" where
  "tables_ok s \<longleftrightarrow> zone_ok s \<and> inj_on (addr (fst s)) {n. valid (fst s) n} \<and>
     (\<forall>n. valid (fst s) n \<longrightarrow> addr (fst s) n \<notin> free_pages s \<and> bitmap_apart (snd s) (addr (fst s) n)) \<and>
     (\<forall>n k. valid (fst s) n \<longrightarrow> inner n \<longrightarrow> k < 512 \<longrightarrow> ent (fst s) (addr (fst s) n) k \<noteq> 0 \<longrightarrow> bit (ent (fst s) (addr (fst s) n) k) 0)"

definition leaf :: "mem \<Rightarrow> nat \<Rightarrow> nat \<Rightarrow> nat \<Rightarrow> u64" where
  "leaf m i j k = (if valid m (L3 i j) then ent m (addr m (L3 i j)) k else 0)"

lemma bit_bound:
  assumes "unat w < 2 ^ k" "bit (w :: 'a::len word) n"
  shows "n < k"
proof -
  have "bit (unat w) n" using assms(2) by (simp add: bit_unsigned_iff)
  moreover have "take_bit k (unat w) = unat w" using assms(1) by (simp add: take_bit_nat_eq_self)
  ultimately show ?thesis by (metis bit_take_bit_iff)
qed

lemma page_word:
  assumes "4096 dvd unat p" "unat p < 2 ^ 52" "bit (p :: u64) n"
  shows "12 \<le> n \<and> n < 52"
proof -
  obtain c where c: "unat p = 4096 * c" using assms(1) by (elim dvdE)
  have b: "bit (unat p) n" using assms(3) by (simp add: bit_unsigned_iff)
  have "n < 52" using bit_bound [OF assms(2,3)] .
  moreover have "unat p = push_bit 12 c" by (simp add: c push_bit_eq_mult)
  then have "12 \<le> n" using b by (simp add: bit_push_bit_iff)
  ultimately show ?thesis by simp
qed

lemma G_E_ADDR_page:
  assumes "4096 dvd unat p" "unat p < 2 ^ 52"
  shows "PML4_G_E_ADDR (p OR 0b1011) = p"
proof (rule bit_word_eqI)
  fix n
  assume "n < LENGTH(64)"
  have "\<not> bit (0b1011 :: u64) n" if "12 \<le> n"
  proof -
    have "take_bit 12 (0b1011 :: u64) = 0b1011" by simp
    then show ?thesis using that by (metis bit_take_bit_iff not_le)
  qed
  then show "bit (PML4_G_E_ADDR (p OR 0b1011)) n = bit p n"
    using page_word [OF assms, of n] by (auto simp: G_E_ADDR_bit bit_or_iff)
qed

lemma free_page_props:
  assumes "zone_ok s" "p \<in> pm_pages s"
  shows "4096 dvd unat p" "unat p < 2 ^ 52"
proof -
  obtain i where i: "i < bm_nbits (pm_map (snd s))" "p = page_addr (snd s) i" using assms(2) by (auto simp: pm_pages_def)
  have "unat p = unat (pm_start (snd s)) + 4096 * i"
    using unat_page_addr [of "fst s" "snd s" i] assms(1) i by (simp add: zone_ok_def)
  then show "4096 dvd unat p" "unat p < 2 ^ 52" using assms(1) i(1) by (auto simp: zone_ok_def)
qed

lemma ent_zero: "ent (\<lambda>_. 0) a k = 0"
  by (simp add: ent_def rd64_def load_def upt_rec)

lemma cleared_page: "ent (memset m p 0 PAGE_SIZE) p k = 0" if "k < 512" for p :: u64
proof -
  have "load (memset m p 0 PAGE_SIZE) p 4096 = load (\<lambda>_. 0) p 4096"
    by (simp add: PAGE_SIZE_def memset_eq_store load_store_same) (simp add: load_def map_replicate_const)
  from ent_load [OF this that] show ?thesis by (simp add: ent_zero)
qed

lemma tables_apart: "tables_ok s \<Longrightarrow> valid (fst s) n \<Longrightarrow> p \<in> free_pages s \<Longrightarrow> p \<noteq> addr (fst s) n"
  by (auto simp: tables_ok_def)

text \<open>The memory after a new table: \<open>p\<close> is cleared and entered at the entry \<open>k\<close> of \<open>n\<close>.\<close>

lemma new_table_memory:
  assumes ok: "tables_ok (m, pm)" and n: "valid m n" "k < 512"
    and get: "get_free_page (m, pm) = ((m1, pm'), p)" and p: "p \<noteq> 0"
  defines "m3 \<equiv> wr64 (memset m1 p 0 PAGE_SIZE) (addr m n + of_nat (8 * k)) (p OR 0b1011)"
  shows "pm' = pm" "p \<in> free_pages (m, pm)" "free_pages (m3, pm) = free_pages (m, pm) - {p}"
    and "valid m n' \<Longrightarrow> k' < 512 \<Longrightarrow> ent m3 (addr m n') k' = (if n' = n \<and> k' = k then p OR 0b1011 else ent m (addr m n') k')"
    and "k' < 512 \<Longrightarrow> ent m3 p k' = 0"
proof -
  have inv: "pm_invar (m, pm)" and zone: "zone_ok (m, pm)" using ok by (simp_all add: tables_ok_def zone_ok_def)
  show pm': "pm' = pm" using get_free_page_frame [OF inv get] by simp
  have fr: "frames m m1 [pm_range pm]" using get_free_page_frame [OF inv get] by simp
  note used = get_free_page_used [OF inv get p]
  show fp: "p \<in> free_pages (m, pm)" using used by (simp add: free_pages_def)
  have pp: "p \<in> pm_pages (m, pm)" using used by blast
  note al = free_page_props [OF zone pp]
  let ?m2 = "memset m1 p 0 PAGE_SIZE"
  have m2: "?m2 = store m1 p (replicate 4096 0)" by (simp add: PAGE_SIZE_def memset_eq_store)
  have q: "addr m n' \<noteq> p" if "valid m n'" for n' using tables_apart [OF ok, of n' p] that fp by auto
  have e2: "ent ?m2 (addr m n') k' = ent m (addr m n') k'" if "valid m n'" "k' < 512" for n' k'
  proof -
    have "apart (addr m n') 4096 p 4096" using q that al(1) addr_aligned [of m n'] by (intro apart_aligned) auto
    then have "load ?m2 (addr m n') 4096 = load m1 (addr m n') 4096" by (simp add: m2 load_store_apart)
    also have "\<dots> = load m (addr m n') 4096"
      using ok that by (intro frames_load [OF fr]) (simp add: tables_ok_def bitmap_apart_def pm_range_def)
    finally show ?thesis using that(2) by (rule ent_load)
  qed
  have inj: "addr m n' = addr m n \<Longrightarrow> valid m n' \<Longrightarrow> n' = n" for n'
    using ok n(1) by (auto simp: tables_ok_def inj_on_def)
  show "ent m3 (addr m n') k' = (if n' = n \<and> k' = k then p OR 0b1011 else ent m (addr m n') k')" if "valid m n'" "k' < 512"
    using inj [of n'] that n e2 [OF that] unfolding m3_def by (subst ent_wr64) (auto simp: addr_aligned)
  show "ent m3 p k' = 0" if "k' < 512"
    using q [OF n(1)] that n al(1) cleared_page [OF that] unfolding m3_def by (subst ent_wr64) (auto simp: addr_aligned)
  let ?B = "bm_bits (pm_map pm)" and ?N = "unat (bm_length (pm_map pm))"
  have "apart ?B ?N (addr m n) 4096" "apart ?B ?N p 4096"
    using ok n(1) pp by (simp_all add: tables_ok_def zone_ok_def bitmap_apart_def apart_commute)
  then have "load ?m2 ?B ?N = load m1 ?B ?N" "load m3 ?B ?N = load ?m2 ?B ?N"
    using n(2) frames_load [OF frames_wr64_in [of "8 * k" 4096 ?m2 "addr m n"], of ?B ?N]
    by (simp_all add: m2 load_store_apart m3_def)
  then have "pm_used (m3, pm) = pm_used (m1, pm)" "pm_pages (m3, pm) = pm_pages (m, pm)"
    using pm_used_cong [of m3 pm m1] by (auto simp: pm_pages_def)
  then show "free_pages (m3, pm) = free_pages (m, pm) - {p}" using used pm' by (auto simp: free_pages_def)
qed

lemma bit_1011_0: "bit (p OR 0b1011 :: u64) 0"
  by (simp add: bit_or_iff)

lemma or_1011_neq_0: "(p OR 0b1011 :: u64) \<noteq> 0"
  using bit_1011_0 by (metis bit_0_eq bot_apply bot_bool_def)

lemma fill_entry_ok:
  assumes ok: "tables_ok s" and n: "valid (fst s) n" "inner n" "k < 512" and free: "free_pages s \<noteq> {}"
  defines "s' \<equiv> fill_entry s (addr (fst s) n + of_nat (8 * k))"
  shows "tables_ok s'" "valid (fst s') (child n k)"
    and "valid (fst s) n' \<Longrightarrow> valid (fst s') n' \<and> addr (fst s') n' = addr (fst s) n'"
    and "c < 512 \<Longrightarrow> leaf (fst s') a b c = leaf (fst s) a b c"
    and "\<exists>p. free_pages s - {p} \<subseteq> free_pages s'"
proof -
  obtain m pm where s: "s = (m, pm)" by (cases s)
  have "tables_ok s' \<and> valid (fst s') (child n k) \<and> (valid m n' \<longrightarrow> valid (fst s') n' \<and> addr (fst s') n' = addr m n') \<and>
    (c < 512 \<longrightarrow> leaf (fst s') a b c = leaf m a b c) \<and> (\<exists>p. free_pages s - {p} \<subseteq> free_pages s')"
  proof (cases "ent m (addr m n) k = 0")
    case False
    then have "s' = s" by (simp add: s'_def fill_entry_def ent_def s)
    moreover have "valid m (child n k)" using False n s by (cases n) auto
    ultimately show ?thesis using ok s by auto
  next
    case True
    obtain m1 pm' p where get: "get_free_page (m, pm) = ((m1, pm'), p)" by (metis surj_pair)
    have inv: "pm_invar (m, pm)" and zone: "zone_ok (m, pm)" using ok s by (simp_all add: tables_ok_def zone_ok_def)
    have p: "p \<noteq> 0" using get_free_page_none [OF inv, of "(m1, pm')"] get free by (auto simp: free_pages_def s)
    define m3 where "m3 = wr64 (memset m1 p 0 PAGE_SIZE) (addr m n + of_nat (8 * k)) (p OR 0b1011)"
    note M = new_table_memory [OF ok [unfolded s] n(1) [unfolded s, simplified] n(3) get p, folded m3_def]
    have s': "s' = (m3, pm)" using True get M(1) by (simp add: s'_def fill_entry_def s ent_def m3_def Let_def)
    have pp: "p \<in> pm_pages (m, pm)" using M(2) by (simp add: free_pages_def)
    have G: "PML4_G_E_ADDR (p OR 0b1011) = p" using free_page_props [OF zone pp] by (rule G_E_ADDR_page)
    have v: "valid m n" using n(1) s by simp
    have new: "k' < 512 \<Longrightarrow> ent m3 (PML4_G_E_ADDR (p OR 0b1011)) k' = 0" for k' using M(5) G by simp
    note T = tree_new [OF v n(2,3) True M(4) or_1011_neq_0 new, unfolded G]
    have q: "addr m x \<noteq> p" if "valid m x" for x using tables_apart [OF ok, of x p] that M(2) by (auto simp: s)
    have "inj_on (addr m3) {x. valid m3 x}"
      using ok T q unfolding tables_ok_def s inj_on_def by (metis fst_conv mem_Collect_eq)
    moreover have "zone_ok (m3, pm)" using zone by (simp add: zone_ok_def pm_invar_def pm_pages_def)
    moreover have "\<forall>x. valid m3 x \<longrightarrow> addr m3 x \<notin> free_pages (m3, pm) \<and> bitmap_apart pm (addr m3 x)"
      using ok T M(3) zone pp by (auto simp: tables_ok_def zone_ok_def s)
    moreover have "bit (ent m3 (addr m3 x) l) 0" if "valid m3 x" "inner x" "l < 512" "ent m3 (addr m3 x) l \<noteq> 0" for x l
    proof (cases "valid m x")
      case True
      then show ?thesis using that T(2) M(4) [of x l] ok bit_1011_0 [of p] by (auto simp: tables_ok_def s split: if_splits)
    next
      case False
      then show ?thesis using that T(1) [of x] T(3) M(5) by auto
    qed
    moreover have x: "(if valid m3 x then ent m3 (addr m3 x) c else 0) = (if valid m x then ent m (addr m x) c else 0)"
      if "c < 512" "\<not> inner x" for x
      using T(1,2) [of x] T(3) M(4) [of x c] M(5) [OF that(1)] that n(2) by (cases "valid m x") auto
    have "leaf m3 a b c = leaf m a b c" if "c < 512" using x [OF that, of "L3 a b"] by (simp only: leaf_def inner.simps) simp
    ultimately show ?thesis using T(1,2) [of n'] T(1) [of "child n k"] M(3) by (auto simp: s' tables_ok_def s)
  qed
  then show "tables_ok s'" "valid (fst s') (child n k)"
    "valid (fst s) n' \<Longrightarrow> valid (fst s') n' \<and> addr (fst s') n' = addr (fst s) n'"
    "c < 512 \<Longrightarrow> leaf (fst s') a b c = leaf (fst s) a b c" "\<exists>p. free_pages s - {p} \<subseteq> free_pages s'"
    by (auto simp: s)
qed

section \<open>One page of 2 MiB\<close>

lemma leaf_write:
  fixes v :: u64
  assumes ok: "tables_ok s" and n: "valid (fst s) (L3 i j)" "k < 512"
  defines "m' \<equiv> wr64 (fst s) (addr (fst s) (L3 i j) + of_nat (8 * k)) v"
  shows "tables_ok (m', snd s)" and "c < 512 \<Longrightarrow> leaf m' a b c = (if a = i \<and> b = j \<and> c = k then v else leaf (fst s) a b c)"
proof -
  obtain m pm where s: "s = (m, pm)" by (cases s)
  let ?x = "L3 i j"
  have x: "valid m ?x" using n s by simp
  have e: "ent m' (addr m n') k' = (if n' = ?x \<and> k' = k then v else ent m (addr m n') k')" if "valid m n'" "k' < 512" for n' k'
  proof -
    have "addr m n' = addr m ?x \<Longrightarrow> n' = ?x" using ok x that by (auto simp: tables_ok_def s inj_on_def simp del: addr.simps valid.simps)
    then show ?thesis using that n(2) unfolding m'_def s fst_conv by (subst ent_wr64) (auto simp: addr_aligned simp del: addr.simps valid.simps)
  qed
  have T: "valid m' n' = valid m n'" "valid m n' \<Longrightarrow> addr m' n' = addr m n'" for n'
    by (rule tree_same; use e in force)+
  let ?B = "bm_bits (pm_map pm)" and ?N = "unat (bm_length (pm_map pm))"
  have "apart ?B ?N (addr m ?x) 4096"
    using ok x by (simp add: tables_ok_def s bitmap_apart_def apart_commute del: addr.simps valid.simps)
  then have "load m' ?B ?N = load m ?B ?N"
    using n(2) frames_load [OF frames_wr64_in [of "8 * k" 4096 m "addr m ?x" v], of ?B ?N] by (simp add: m'_def s)
  then have "free_pages (m', pm) = free_pages (m, pm)" using pm_used_cong [of m' pm m] by (simp add: free_pages_def)
  moreover have "zone_ok (m', pm)" using ok by (simp add: tables_ok_def zone_ok_def s pm_invar_def pm_pages_def)
  moreover have "inj_on (addr m') {n. valid m' n}"
    using ok T unfolding tables_ok_def s inj_on_def by (metis fst_conv mem_Collect_eq)
  moreover have "bit (ent m' (addr m' y) l) 0" if "valid m' y" "inner y" "l < 512" "ent m' (addr m' y) l \<noteq> 0" for y l
    using that T e [of y l] ok by (auto simp: tables_ok_def s simp del: addr.simps valid.simps)
  ultimately show "tables_ok (m', snd s)" using ok T by (simp add: tables_ok_def s del: addr.simps valid.simps)
  show "leaf m' a b c = (if a = i \<and> b = j \<and> c = k then v else leaf (fst s) a b c)" if "c < 512"
    using T [of "L3 a b"] e [of "L3 a b" c] that x by (auto simp: leaf_def s simp del: addr.simps valid.simps)
qed

text \<open>The indices of an address.\<close>

definition pml4_of :: "u64 \<Rightarrow> nat" where "pml4_of v = unat (PML4_VRT_TO_PML4_IDX v)"
definition pdpt_of :: "u64 \<Rightarrow> nat" where "pdpt_of v = unat (PML4_VRT_TO_PDPT_IDX v)"
definition pdt_of :: "u64 \<Rightarrow> nat" where "pdt_of v = unat (PML4_VRT_TO_PDT_IDX v)"

lemma index_values:
  "pml4_of v = unat v mod 2 ^ 48 div 2 ^ 39" "pdpt_of v = unat v mod 2 ^ 39 div 2 ^ 30" "pdt_of v = unat v mod 2 ^ 30 div 2 ^ 21"
proof -
  have "(0xffffffffffff :: u64) = mask 48" "(0x7fffffffff :: u64) = mask 39" "(0x3fffffff :: u64) = mask 30"
    by (simp_all add: mask_eq_exp_minus_1)
  then show "pml4_of v = unat v mod 2 ^ 48 div 2 ^ 39" "pdpt_of v = unat v mod 2 ^ 39 div 2 ^ 30" "pdt_of v = unat v mod 2 ^ 30 div 2 ^ 21"
    unfolding pml4_of_def pdpt_of_def pdt_of_def PML4_VRT_TO_PML4_IDX_def PML4_VRT_TO_PDPT_IDX_def PML4_VRT_TO_PDT_IDX_def
    by (simp_all only: unat_drop_bit unat_and_mask)
qed

lemma index_bounds [simp]: "pml4_of v < 512" "pdpt_of v < 512" "pdt_of v < 512"
  by (simp_all add: index_values less_mult_imp_div_less)

lemma small_index:
  fixes x :: u64
  assumes "unat x < 512"
  shows "ucast ((ucast x :: u32) * 8) = (of_nat (8 * unat x) :: u64)" "8 * ucast (ucast x :: u32) = (of_nat (8 * unat x) :: u64)"
proof -
  have u: "unat (ucast x :: u32) = unat x" using assms by (simp add: unsigned_ucast_eq take_bit_nat_eq_self)
  then have "(ucast (ucast x :: u32) :: u64) = x"
    by (simp add: word_unat_eq_iff unsigned_ucast_eq unsigned_take_bit_eq take_bit_nat_eq_self assms)
  then show "8 * ucast (ucast x :: u32) = (of_nat (8 * unat x) :: u64)" by simp
  show "ucast ((ucast x :: u32) * 8) = (of_nat (8 * unat x) :: u64)"
    using assms u by (simp add: word_unat_eq_iff unsigned_ucast_eq unat_word_ariths take_bit_nat_eq_self)
qed

lemma index_entry:
  "8 * PML4_VRT_TO_PML4_IDX v = of_nat (8 * pml4_of v)" "8 * PML4_VRT_TO_PDPT_IDX v = of_nat (8 * pdpt_of v)"
  "8 * PML4_VRT_TO_PDT_IDX v = of_nat (8 * pdt_of v)"
  "ucast ((ucast (PML4_VRT_TO_PML4_IDX v) :: u32) * 8) = (of_nat (8 * pml4_of v) :: u64)"
  "8 * ucast (ucast (PML4_VRT_TO_PDPT_IDX v) :: u32) = (of_nat (8 * pdpt_of v) :: u64)"
  "8 * ucast (ucast (PML4_VRT_TO_PDT_IDX v) :: u32) = (of_nat (8 * pdt_of v) :: u64)"
  using index_bounds [of v] small_index [of "PML4_VRT_TO_PML4_IDX v"] small_index [of "PML4_VRT_TO_PDPT_IDX v"]
    small_index [of "PML4_VRT_TO_PDT_IDX v"]
  by (simp_all add: pml4_of_def pdpt_of_def pdt_of_def)

text \<open>The walk of a well-formed tree is a look at the leaf.\<close>

definition translate :: "u64 \<Rightarrow> u64 \<Rightarrow> u64 option" where
  "translate e v = (if bit e 0 \<and> bit e 7 then Some ((e AND 0xfffffffe00000) OR (v AND 0x1fffff)) else None)"

lemma walk_leaf:
  assumes ok: "tables_ok s"
  shows "walk (fst s) v = translate (leaf (fst s) (pml4_of v) (pdpt_of v) (pdt_of v)) v"
proof -
  let ?m = "fst s"
  define e1 where "e1 = ent ?m (addr ?m Root) (pml4_of v)"
  define e2 where "e2 = ent ?m (addr ?m (L2 (pml4_of v))) (pdpt_of v)"
  define e3 where "e3 = ent ?m (addr ?m (L3 (pml4_of v) (pdpt_of v))) (pdt_of v)"
  have "walk ?m v = (if bit e1 0 \<and> bit e2 0 then translate e3 v else None)"
    unfolding walk_def Let_def e1_def e2_def e3_def translate_def index_entry addr.simps ent_def by simp
  moreover have "bit e1 0 = valid ?m (L2 (pml4_of v))"
    using ok [unfolded tables_ok_def] by (auto simp: e1_def dest!: spec [of _ Root])
  moreover have "bit e2 0 = (e2 \<noteq> 0)" if "valid ?m (L2 (pml4_of v))"
    using ok that [simplified] by (auto simp: e2_def tables_ok_def dest!: spec [of _ "L2 (pml4_of v)"])
  ultimately show ?thesis by (auto simp: leaf_def e2_def e3_def translate_def)
qed

lemma map_2M_ok:
  assumes ok: "tables_ok s" and free: "2 \<le> card (free_pages s)"
  shows "tables_ok (map_2M s a)"
    and "walk (fst (map_2M s a)) v =
      (if pml4_of v = pml4_of a \<and> pdpt_of v = pdpt_of a \<and> pdt_of v = pdt_of a then translate (a OR 0b10001011) v else walk (fst s) v)"
proof -
  let ?i = "pml4_of a" and ?j = "pdpt_of a" and ?k = "pdt_of a"
  define s1 where "s1 = fill_entry s (addr (fst s) Root + of_nat (8 * ?i))"
  have f0: "free_pages s \<noteq> {}" using free by auto
  have 1: "tables_ok s1" "valid (fst s1) (L2 ?i)" "\<exists>p. free_pages s - {p} \<subseteq> free_pages s1"
    "\<And>x y c. c < 512 \<Longrightarrow> leaf (fst s1) x y c = leaf (fst s) x y c"
    using fill_entry_ok [OF ok, of Root ?i] f0 unfolding s1_def by (simp_all del: addr.simps valid.simps add: child.simps valid.simps(1))
  have f1: "free_pages s1 \<noteq> {}"
  proof
    assume "free_pages s1 = {}"
    then obtain p where "free_pages s \<subseteq> {p}" using 1(3) by auto
    then show False using free card_mono [of "{p}" "free_pages s"] by simp
  qed
  define s2 where "s2 = fill_entry s1 (addr (fst s1) (L2 ?i) + of_nat (8 * ?j))"
  have 2: "tables_ok s2" "valid (fst s2) (L3 ?i ?j)"
    "\<And>x y c. c < 512 \<Longrightarrow> leaf (fst s2) x y c = leaf (fst s1) x y c" "addr (fst s2) (L2 ?i) = addr (fst s1) (L2 ?i)"
    using fill_entry_ok [OF 1(1,2) _ _ f1, of ?j] 1(2) unfolding s2_def by (simp_all del: addr.simps valid.simps add: child.simps)
  have m: "map_2M s a = (wr64 (fst s2) (addr (fst s2) (L3 ?i ?j) + of_nat (8 * ?k)) (a OR 0b10001011), snd s2)"
  proof -
    have e1: "PML4_G_E_ADDR (rd64 (fst s1) (FOUR_LEVEL_HEAD_TABLE_ADDR + of_nat (8 * ?i))) = addr (fst s1) (L2 ?i)"
      by (simp only: addr.simps ent_def)
    have e2: "PML4_G_E_ADDR (rd64 (fst s2) (addr (fst s1) (L2 ?i) + of_nat (8 * ?j))) = addr (fst s2) (L3 ?i ?j)"
      unfolding 2(4) [symmetric] by (simp only: addr.simps ent_def)
    show ?thesis
      unfolding map_2M_def getPML4Index_2M_def Let_def prod.case index_entry
        addr.simps(1) [of "fst s", symmetric] s1_def [symmetric]
      unfolding addr.simps(1) e1 s2_def [symmetric] e2 ..
  qed
  note W = leaf_write [OF 2(1,2), where k = ?k and v = "a OR 0b10001011"]
  show t: "tables_ok (map_2M s a)" unfolding m using W(1) by simp
  show "walk (fst (map_2M s a)) v =
      (if pml4_of v = ?i \<and> pdpt_of v = ?j \<and> pdt_of v = ?k then translate (a OR 0b10001011) v else walk (fst s) v)"
    using W(2) [of "pdt_of v" "pml4_of v" "pdpt_of v"] 2(3) 1(4)
    unfolding walk_leaf [OF t] walk_leaf [OF ok] unfolding m fst_conv by (simp del: addr.simps valid.simps)
qed

lemma div_parts: "(x :: nat) mod 2 ^ (k + l) div 2 ^ k = x div 2 ^ k mod 2 ^ l"
  by (simp add: power_add mod_mult2_eq)

lemma same_page_index:
  assumes "unat v < 2 ^ 48" "unat a < 2 ^ 48"
  shows "pml4_of v = pml4_of a \<and> pdpt_of v = pdpt_of a \<and> pdt_of v = pdt_of a \<longleftrightarrow> unat v div 2 ^ 21 = unat a div 2 ^ 21"
proof -
  have i: "pml4_of x = unat x div 2 ^ 21 div 2 ^ 18" "pdpt_of x = unat x div 2 ^ 21 div 2 ^ 9 mod 2 ^ 9" "pdt_of x = unat x div 2 ^ 21 mod 2 ^ 9"
    if "unat x < 2 ^ 48" for x
    using that div_parts [of "unat x" 30 9] div_parts [of "unat x" 21 9] by (simp_all add: index_values div_mult2_eq [symmetric])
  have "p = q" if "p div 2 ^ 18 = q div 2 ^ 18" "p div 2 ^ 9 mod 2 ^ 9 = q div 2 ^ 9 mod 2 ^ 9" "p mod 2 ^ 9 = q mod 2 ^ 9" for p q :: nat
  proof -
    have "x = (x div 2 ^ 18 * 2 ^ 9 + x div 2 ^ 9 mod 2 ^ 9) * 2 ^ 9 + x mod 2 ^ 9" for x :: nat
      using div_mult_mod_eq [of x "2 ^ 9"] div_mult_mod_eq [of "x div 2 ^ 9" "2 ^ 9"] by (simp add: div_mult2_eq [symmetric])
    then show ?thesis using that by metis
  qed
  then show ?thesis using i assms by metis
qed

lemma translate_page:
  assumes "unat v < 2 ^ 48" "unat v div 2 ^ 21 = unat a div 2 ^ 21" and f: "unat f < 2 ^ 21" "bit f 0" "bit f 7"
  shows "translate (a div 0x200000 * 0x200000 OR f) v = Some v"
proof -
  have "a div 0x200000 = v div 0x200000" using assms(2) by (simp add: word_unat_eq_iff unat_div)
  then have a: "a div 0x200000 * 0x200000 = push_bit 21 (drop_bit 21 v)" by (simp add: push_bit_eq_mult drop_bit_eq_div)
  have m: "(0x1fffff :: u64) = mask 21" "(0xfffffffe00000 :: u64) = push_bit 21 (mask 31)" by (simp_all add: mask_eq_exp_minus_1)
  have v: "bit v n \<Longrightarrow> n < 48" for n using bit_bound [OF assms(1)] .
  have c: "bit f n \<Longrightarrow> n < 21" for n using bit_bound [OF f(1)] .
  let ?e = "push_bit 21 (drop_bit 21 v) OR f"
  have "(?e AND 0xfffffffe00000) OR (v AND 0x1fffff) = v"
    unfolding m
    by (rule bit_word_eqI) (auto simp only: bit_or_iff bit_and_iff bit_push_bit_iff bit_drop_bit_eq bit_mask_iff possible_bit_word
        comp_def dest: v c, auto dest: v c)
  moreover have "bit ?e 0" "bit ?e 7" using f(2,3) unfolding bit_or_iff by simp_all
  ultimately show ?thesis by (simp add: translate_def a)
qed

section \<open>Properties\<close>

text \<open>C17.
  ioremap_nocache of a physical address adds exactly the 2 MiB page of the address
  to the translation, mapped to itself, and leaves the translation of every other
  address; the tables stay well-formed. The size has no influence, as long as it is
  not 0: what lies behind the page of the address is not mapped, however large the
  range. The tables must be different pages that are not free, and two pages must be
  free for new tables.
\<close>

theorem ioremap_nocache_maps:
  assumes "tables_ok s" and "2 \<le> card (free_pages s)" and "unat phys < 2 ^ 48" and "sz \<noteq> 0"
  shows "case ioremap_nocache s phys sz of (s', p) \<Rightarrow> p = phys \<and> tables_ok s' \<and>
    (\<forall>v. unat v < 2 ^ 48 \<longrightarrow>
       walk (fst s') v = (if unat v div 2 ^ 21 = unat phys div 2 ^ 21 then Some v else walk (fst s) v))"
proof -
  let ?a = "phys div 0x200000 * 0x200000"
  have c: "sz div 0x200000 + (if sz mod 0x200000 > 0 then 1 else 0) \<noteq> 0"
  proof (cases "sz mod 0x200000 = 0")
    case True
    then have "sz div 0x200000 * 0x200000 = sz" using word_mod_div_equality [of sz "0x200000"] by simp
    then show ?thesis using assms(4) True by auto
  next
    case False
    have "unat (sz div 0x200000) < 2 ^ 64 - 1" using unat_lt [of sz] by (simp add: unat_div)
    then have "unat (sz div 0x200000 + 1) = unat (sz div 0x200000) + 1" by (simp add: unat_plus_if')
    then have "sz div 0x200000 + 1 \<noteq> 0" by (metis add_is_0 unat_0 zero_neq_one)
    then show ?thesis using False by (simp add: word_gt_0)
  qed
  have a: "unat ?a = unat phys div 2 ^ 21 * 2 ^ 21"
    using unat_lt [of phys] by (simp add: unat_word_ariths unat_div) 
  then have a48: "unat ?a < 2 ^ 48" using assms(3) div_times_less_eq_dividend [of "unat phys" "2 ^ 21"] by linarith
  have page: "unat v < 2 ^ 48 \<Longrightarrow> unat v div 2 ^ 21 = unat phys div 2 ^ 21 \<Longrightarrow> translate (?a OR 0b10001011) v = Some v" for v
    by (rule translate_page) (simp_all add: bit_iff_odd)
  have "unat ?a div 2 ^ 21 = unat phys div 2 ^ 21" by (simp add: a)
  then show ?thesis
    using c map_2M_ok [OF assms(1,2), of ?a] same_page_index [OF _ a48] page
    by (simp add: ioremap_nocache_def mapCout_def Let_def)
qed

end
