(* ===== verification/Boot32.thy ===== *)
theory Boot32
  imports Gdt32 PageWalk String32
begin

text \<open>
  What the 32-bit kernel prepares before it enters the 64-bit mode
  (x86_kernel/init/main.c): the four-level page table and the control registers; and
  its own interrupt table (kernel/idt.c, include/linux/idt.h) and two-level page table
  (kernel/vm101012.c), which the configuration of the repository does not use. The
  prints are left out.
\<close>

section \<open>The four-level table\<close>

definition FIRST_PDPT_ADDR :: u32 where "FIRST_PDPT_ADDR = 0x91000"
definition FIRST_PDT_ADDR :: u32 where "FIRST_PDT_ADDR = 0x92000"

text \<open>The loop over the first 16 entries of the page directory: an entry is two words.\<close>

fun pdt_loop :: "'a::len cmem \<Rightarrow> nat \<Rightarrow> nat \<Rightarrow> 'a cmem" where
  "pdt_loop m i 0 = m"
| "pdt_loop m i (Suc left) =
     (let m = wr32 m (ucast FIRST_PDT_ADDR + 8 * of_nat i) (of_nat i * 0x200000 OR 0x87);
          m = wr32 m (ucast FIRST_PDT_ADDR + 8 * of_nat i + 4) 0
      in pdt_loop m (Suc i) left)"

definition prepare_4level_page_table :: "'a::len cmem \<Rightarrow> 'a cmem" where
  "prepare_4level_page_table m =
     (let head = ucast FOUR_LEVEL_HEAD_TABLE_ADDR;
          m = memset m head 0 4096;
          m = wr32 m head (FIRST_PDPT_ADDR OR 7);
          m = wr32 m (head + 4) 0;
          pdpt_addr = ucast FIRST_PDPT_ADDR;
          m = memset m pdpt_addr 0 4096;
          m = wr32 m pdpt_addr (FIRST_PDT_ADDR OR 7);
          m = wr32 m (pdpt_addr + 4) 0;
          pdt_addr = ucast FIRST_PDT_ADDR;
          m = memset m pdt_addr 0 4096
      in pdt_loop m 0 16)"

text \<open>The control registers and IA32_EFER.\<close>

record ctrl_regs =
  cr0 :: u32
  cr3 :: u32
  cr4 :: u32
  efer :: u32

definition enter_ia32e :: "'a::len cmem \<Rightarrow> ctrl_regs \<Rightarrow> 'a cmem \<times> ctrl_regs" where
  "enter_ia32e m r =
     (prepare_4level_page_table m,
      r\<lparr>cr3 := ucast FOUR_LEVEL_HEAD_TABLE_ADDR, cr4 := set_bit 5 (cr4 r), efer := set_bit 8 (efer r), cr0 := cr0 r OR 0x80000000\<rparr>)"

text \<open>
  kernel_main up to the jump into the 64-bit mode: the page table, then the segment
  descriptors. \<open>g_gdt\<close> is the address of the array, \<open>limit\<close> and \<open>base\<close> what sgdt reads.
\<close>

definition kernel_main :: "'a::len word \<Rightarrow> u16 \<Rightarrow> u32 \<Rightarrow> 'a cmem \<Rightarrow> ctrl_regs \<Rightarrow> 'a cmem \<times> ctrl_regs \<times> (u16 \<times> u32)" where
  "kernel_main g_gdt limit base m r =
     (let (m, r) = enter_ia32e m r;
          (m, gdtr) = gdt_init g_gdt limit base m
      in (m, r, gdtr))"

section \<open>The interrupt table of the 32-bit kernel\<close>

record idt_interrupt_desciptor =
  isr_offset_0_15 :: u16
  segment_selector :: u16
  i_reserved :: u8
  i_type :: "4 word"
  i_S :: "1 word"
  i_DPL :: "2 word"
  i_P :: "1 word"
  isr_offset_16_31 :: u16

record entries32 =
  e_interrupt_handle :: u32
  e_clock_handle :: u32
  e_key_board_handle :: u32
  e_syscall_handle :: u32
  e_assert_handle :: u32

definition x86_idt_handler :: "entries32 \<Rightarrow> nat \<Rightarrow> u32" where
  "x86_idt_handler e i =
     (if i = 0x20 then e_clock_handle e
      else if i = 0x21 then e_key_board_handle e
      else if i = 0x80 then e_syscall_handle e
      else if i = 0x81 then e_assert_handle e
      else e_interrupt_handle e)"

definition x86_fill_item :: "entries32 \<Rightarrow> nat \<Rightarrow> idt_interrupt_desciptor \<Rightarrow> idt_interrupt_desciptor" where
  "x86_fill_item e i item =
     (let handle = x86_idt_handler e i
      in item\<lparr>isr_offset_0_15 := ucast (handle AND 0xffff), isr_offset_16_31 := ucast (drop_bit 16 handle AND 0xffff),
           segment_selector := push_bit 3 1, i_type := 0b1110, i_S := 0, i_DPL := (if i = 0x80 then 3 else 0), i_P := 1\<rparr>)"

record idt32_state =
  g_idt_table :: "idt_interrupt_desciptor list"
  x86_g_idtr :: "u16 \<times> u32"
  x86_idtr_loaded :: "u16 \<times> u32"
  x86_if_flag :: bool

text \<open>\<open>table\<close> is the address of g_idt_table, 255 descriptors of 8 bytes.\<close>

definition x86_init_idt :: "entries32 \<Rightarrow> u32 \<Rightarrow> idt32_state \<Rightarrow> idt32_state" where
  "x86_init_idt e table s =
     (let n = length (g_idt_table s);
          idtr = (of_nat (n * 8) - 1, table)
      in s\<lparr>g_idt_table := map (\<lambda>i. x86_fill_item e i (g_idt_table s ! i)) [0..<n], x86_g_idtr := idtr,
           x86_idtr_loaded := idtr, x86_if_flag := True\<rparr>)"

section \<open>The two-level table\<close>

fun ptt_loop :: "mem32 \<Rightarrow> u32 \<Rightarrow> nat \<Rightarrow> nat \<Rightarrow> mem32" where
  "ptt_loop m ptt i 0 = m"
| "ptt_loop m ptt i (Suc left) = ptt_loop (wr32 m (ptt + 4 * of_nat i) (0x07 OR of_nat i * 4096)) ptt (Suc i) left"

text \<open>The result is the state and the value of cr3; then paging is enabled.\<close>

definition vm101012_init :: "mm32_state \<Rightarrow> mm32_state \<times> u32" where
  "vm101012_init s =
     (let ((m, mm), pdt) = x86_get_free_page s;
          m = x86_memset m pdt 0 4096;
          ((m, mm), ptt) = x86_get_free_page (m, mm);
          m = x86_memset m ptt 0 4096;
          m = ptt_loop m ptt 0 1024;
          m = wr32 m pdt (0x07 OR ptt)
      in ((m, mm), pdt))"

section \<open>The entries of the four-level table\<close>

lemma wr32_pair: "wr32 (wr32 m a lo) (a + 4) 0 = wr64 m a (ucast lo)" for a :: u64
proof -
  have "le_bytes 8 (ucast lo :: u64) = le_bytes 4 lo @ le_bytes 4 (0 :: u32)"
    by (rule nth_equalityI)
      (auto simp: le_bytes_def nth_append intro!: bit_word_eqI simp: bit_unsigned_iff bit_drop_bit_eq,
        use bit_imp_le_length [of lo] in fastforce)
  then show ?thesis using store_append [of "le_bytes 4 lo" "le_bytes 4 (0 :: u32)" m a] by (simp add: wr32_def wr64_def)
qed

lemma ent_pdt_loop:
  fixes m :: mem
  assumes "i + left \<le> 512" "4096 dvd unat a" "k < 512"
  shows "ent (pdt_loop m i left) a k =
    (if a = 0x92000 \<and> i \<le> k \<and> k < i + left then ucast (of_nat k * 0x200000 OR 0x87 :: u32) else ent m a k)"
  using assms(1)
proof (induction left arbitrary: m i)
  case (Suc left)
  let ?e = "\<lambda>i. ucast (of_nat i * 0x200000 OR 0x87 :: u32) :: u64"
  let ?m = "wr64 m (0x92000 + of_nat (8 * i)) (?e i)"
  have "pdt_loop m i (Suc left) = pdt_loop ?m (Suc i) left"
    unfolding pdt_loop.simps Let_def wr32_pair by (simp add: FIRST_PDT_ADDR_def)
  moreover have "ent ?m a k = (if a = 0x92000 \<and> k = i then ?e i else ent m a k)"
    using assms Suc.prems by (intro ent_wr64) simp_all
  ultimately show ?case using Suc.IH [of "Suc i" ?m] Suc.prems by auto
qed auto

lemma ent_memset:
  fixes m :: mem
  assumes "4096 dvd unat a" "4096 dvd unat b" "k < 512"
  shows "ent (memset m b 0 4096) a k = (if a = b then 0 else ent m a k)"
proof (cases "a = b")
  case False
  then have "apart a 4096 b 4096" using assms by (intro apart_aligned) auto
  then have "load (store m b (replicate 4096 0)) a 4096 = load m a 4096" by (intro load_store_apart) simp
  moreover have "memset m b 0 4096 = store m b (replicate 4096 0)" by (simp add: memset_eq_store)
  ultimately show ?thesis using False ent_load [OF _ assms(3), of "memset m b 0 4096" a m] by simp
next
  case True
  then show ?thesis using cleared_page [OF assms(3), of m b] by (simp add: PAGE_SIZE_def)
qed

lemma boot_entries:
  assumes "k < 512"
  shows "ent (prepare_4level_page_table m) 0x90000 k = (if k = 0 then 0x91007 else 0)"
    and "ent (prepare_4level_page_table m) 0x91000 k = (if k = 0 then 0x92007 else 0)"
    and "ent (prepare_4level_page_table m) 0x92000 k = (if k < 16 then ucast (of_nat k * 0x200000 OR 0x87 :: u32) else 0)"
proof -
  have w: "ent (wr64 m b v) a k = (if a = b \<and> k = 0 then v else ent m a k)" if "4096 dvd unat a" "4096 dvd unat b" for a b v and m :: mem
    using ent_wr64 [OF that assms, of 0 m v] by simp
  note s = FOUR_LEVEL_HEAD_TABLE_ADDR_def FIRST_PDPT_ADDR_def FIRST_PDT_ADDR_def prepare_4level_page_table_def Let_def
  show "ent (prepare_4level_page_table m) 0x90000 k = (if k = 0 then 0x91007 else 0)"
    "ent (prepare_4level_page_table m) 0x91000 k = (if k = 0 then 0x92007 else 0)"
    "ent (prepare_4level_page_table m) 0x92000 k = (if k < 16 then ucast (of_nat k * 0x200000 OR 0x87 :: u32) else 0)"
    using assms wr32_pair [of _ "0x90000"] wr32_pair [of _ "0x91000"]
    by (simp_all add: s ent_pdt_loop w ent_memset del: pdt_loop.simps)
qed

section \<open>What the table translates\<close>

text \<open>The nodes of the table: the root, the first table of the second level and the first page directory.\<close>

lemma boot_nodes:
  "valid (prepare_4level_page_table m) n \<longleftrightarrow> n \<in> {Root, L2 0, L3 0 0}"
  "addr (prepare_4level_page_table m) Root = 0x90000" "addr (prepare_4level_page_table m) (L2 0) = 0x91000"
  "addr (prepare_4level_page_table m) (L3 0 0) = 0x92000"
proof -
  let ?m = "prepare_4level_page_table m"
  have g: "PML4_G_E_ADDR 0x91007 = 0x91000" "PML4_G_E_ADDR 0x92007 = 0x92000" by (simp_all add: PML4_G_E_ADDR_def)
  note B = boot_entries
  show "addr ?m Root = 0x90000" "addr ?m (L2 0) = 0x91000" "addr ?m (L3 0 0) = 0x92000"
    using B [of 0 m] g by (simp_all add: FOUR_LEVEL_HEAD_TABLE_ADDR_def)
  show "valid ?m n \<longleftrightarrow> n \<in> {Root, L2 0, L3 0 0}"
    using B [of _ m] g by (cases n) (auto simp: FOUR_LEVEL_HEAD_TABLE_ADDR_def split: if_splits)
qed

lemma boot_tables_ok:
  assumes "zone_ok (prepare_4level_page_table m, pm)"
    and "\<forall>a \<in> {0x90000, 0x91000, 0x92000}. a \<notin> pm_pages (prepare_4level_page_table m, pm) \<and> bitmap_apart pm a"
  shows "tables_ok (prepare_4level_page_table m, pm)"
proof -
  let ?m = "prepare_4level_page_table m"
  have "inj_on (addr ?m) {n. valid ?m n}" unfolding boot_nodes(1) by (auto simp: inj_on_def boot_nodes(2-4) simp del: addr.simps)
  moreover have "\<forall>n. valid ?m n \<longrightarrow> addr ?m n \<notin> free_pages (?m, pm) \<and> bitmap_apart pm (addr ?m n)"
    unfolding boot_nodes(1) using assms(2) by (auto simp: free_pages_def boot_nodes(2-4) simp del: addr.simps)
  moreover have "bit (ent ?m (addr ?m n) k) 0" if "valid ?m n" "inner n" "k < 512" "ent ?m (addr ?m n) k \<noteq> 0" for n k
    using that(1,2,4) boot_entries [OF that(3), of m] unfolding boot_nodes(1)
    by (auto simp: boot_nodes(2-4) simp del: addr.simps split: if_splits)
  ultimately show ?thesis using assms(1) by (simp add: tables_ok_def)
qed

lemma low_index:
  assumes "unat v < 2 ^ 48"
  shows "pml4_of v = 0 \<and> pdpt_of v = 0 \<and> pdt_of v < 16 \<longleftrightarrow> unat v < 0x2000000"
    and "unat v < 0x2000000 \<Longrightarrow> pdt_of v = unat v div 2 ^ 21"
proof -
  have "unat v < 2 ^ 39" if "unat v div 2 ^ 39 = 0" using that by (simp add: div_eq_0_iff)
  moreover have "unat v < 2 ^ 30" if "unat v < 2 ^ 39" "unat v mod 2 ^ 39 div 2 ^ 30 = 0" using that by (simp add: div_eq_0_iff)
  moreover have "unat v div 2 ^ 21 < 16 \<longleftrightarrow> unat v < 0x2000000" by (simp add: div_less_iff_less_mult)
  ultimately show "pml4_of v = 0 \<and> pdpt_of v = 0 \<and> pdt_of v < 16 \<longleftrightarrow> unat v < 0x2000000"
    using assms by (auto simp: index_values)
  show "pdt_of v = unat v div 2 ^ 21" if "unat v < 0x2000000" using that by (simp add: index_values)
qed

text \<open>A manager of no pages: the table does not depend on the allocator.\<close>

definition no_pages :: mm_pages_manager_t where
  "no_pages = \<lparr>pm_start = 0x300000, pm_length = 0, pm_bitsMap = 0x500, pm_map = bitmap_make 0x500 0 0\<rparr>"

lemma no_pages_ok: "tables_ok (prepare_4level_page_table m, no_pages)"
  by (rule boot_tables_ok)
    (simp_all add: zone_ok_def pm_invar_def pm_pages_def no_pages_def bitmap_make_def bm_nbits_def bitmap_apart_def apart_def)

section \<open>Properties\<close>

text \<open>C18.
  The page table that the 32-bit kernel prepares for the 64-bit mode translates the
  first 32 MiB to themselves and nothing else.
\<close>

theorem boot_page_table:
  assumes "unat v < 2 ^ 48"
  shows "walk (prepare_4level_page_table m) v = (if unat v < 0x2000000 then Some v else None)"
proof -
  let ?m = "prepare_4level_page_table m"
  have w: "walk ?m v = translate (leaf ?m (pml4_of v) (pdpt_of v) (pdt_of v)) v" using walk_leaf [OF no_pages_ok, of m v] by simp
  show ?thesis
  proof (cases "pml4_of v = 0 \<and> pdpt_of v = 0 \<and> pdt_of v < 16")
    case True
    then have lt: "unat v < 0x2000000" and k: "pdt_of v = unat v div 2 ^ 21" using low_index [OF assms] by auto
    have "leaf ?m (pml4_of v) (pdpt_of v) (pdt_of v) = ucast (of_nat (pdt_of v) * 0x200000 OR 0x87 :: u32)"
      using True boot_nodes(1) [of m "L3 0 0"] boot_entries(3) [of "pdt_of v" m]
      by (simp add: leaf_def boot_nodes(4) del: addr.simps valid.simps)
    also have "\<dots> = v div 0x200000 * 0x200000 OR 0x87"
    proof -
      have "ucast (of_nat (pdt_of v) * 0x200000 :: u32) = v div 0x200000 * 0x200000"
        using lt by (simp add: word_unat_eq_iff unsigned_ucast_eq unat_word_ariths unat_div unat_of_nat k take_bit_nat_eq_self)
      then show ?thesis by (simp add: unsigned_or_eq)
    qed
    finally show ?thesis using lt w translate_page [OF assms refl, of "0x87"] by (simp add: bit_iff_odd)
  next
    case False
    have "leaf ?m (pml4_of v) (pdpt_of v) (pdt_of v) = 0"
      using False boot_nodes(1) [of m "L3 (pml4_of v) (pdpt_of v)"] boot_entries(3) [of "pdt_of v" m]
      by (auto simp: leaf_def boot_nodes(4) simp del: addr.simps valid.simps)
    then show ?thesis using False low_index(1) [OF assms] w by (auto simp: translate_def)
  qed
qed

theorem boot_page_table_witness:
  "walk (prepare_4level_page_table (\<lambda>_. 0)) 0x1234567 = Some 0x1234567 \<and> walk (prepare_4level_page_table (\<lambda>_. 0)) 0xFEE00000 = None"
  using boot_page_table [of "0x1234567" "\<lambda>_. 0"] boot_page_table [of "0xFEE00000" "\<lambda>_. 0"] by simp

text \<open>After the boot, with the first pages of the manager free, the local APIC's registers are mapped.\<close>

lemma boot_other:
  assumes "k < 512" "4096 dvd unat a" "a \<notin> {0x90000, 0x91000, 0x92000}"
  shows "ent (prepare_4level_page_table m) a k = ent m a k"
proof -
  have w: "ent (wr64 m b v) a k = (if a = b \<and> k = 0 then v else ent m a k)" if "4096 dvd unat b" for b v and m :: mem
    using ent_wr64 [OF assms(2) that assms(1), of 0 m v] by simp
  then show ?thesis using assms wr32_pair [of _ "0x90000"] wr32_pair [of _ "0x91000"]
    by (simp add: FOUR_LEVEL_HEAD_TABLE_ADDR_def FIRST_PDPT_ADDR_def FIRST_PDT_ADDR_def prepare_4level_page_table_def Let_def
      ent_pdt_loop ent_memset del: pdt_loop.simps)
qed

lemma boot_bitmap: "prepare_4level_page_table (\<lambda>_. 0) (0x500 :: u64) = 0"
proof -
  let ?m = "prepare_4level_page_table (\<lambda>_. 0 :: u8) :: mem"
  have "ent ?m 0 0xA0 = 0" using boot_other [of "0xA0" 0 "\<lambda>_. 0"] by (simp add: ent_zero)
  then have "le_bytes 8 (of_le (load ?m 0x500 8) :: u64) = le_bytes 8 (0 :: u64)" by (simp add: ent_def rd64_def)
  then have "load ?m 0x500 8 = le_bytes 8 (0 :: u64)"
    using le_bytes_of_le [of "load ?m 0x500 8", where 'b = 64] by simp
  then have "load ?m 0x500 8 ! 0 = le_bytes 8 (0 :: u64) ! 0" by simp
  then show ?thesis by (simp add: le_bytes_def)
qed

lemma demo_pm_fields:
  "bm_nbits (pm_map demo_pm) = 128" "bm_bits (pm_map demo_pm) = 0x500" "pm_start demo_pm = 0x300000"
  "bm_length (pm_map demo_pm) = 16" "bm_offset (pm_map demo_pm) = 0"
  by (simp_all add: demo_pm_def bitmap_make_def bm_nbits_def)

lemma demo_pages:
  assumes "p \<in> pm_pages (m, demo_pm)"
  shows "0x300000 \<le> unat p \<and> unat p < 0x400000"
proof -
  obtain i where i: "i < 128" "p = page_addr demo_pm i" using assms by (auto simp: pm_pages_def demo_pm_fields)
  then have "unat p = 0x300000 + 4096 * i" using unat_page_addr [OF demo_pm_invar, of i] by (simp add: demo_pm_fields)
  then show ?thesis using i by simp
qed

lemma demo_apart: "0x1000 \<le> unat a \<Longrightarrow> unat a < 0x400000 \<Longrightarrow> bitmap_apart demo_pm a"
  by (simp add: bitmap_apart_def demo_pm_fields apart_def unat_sub_if' word_le_nat_alt) linarith

lemma demo_tables_ok: "tables_ok (prepare_4level_page_table (\<lambda>_. 0), demo_pm)"
proof (rule boot_tables_ok)
  let ?s = "(prepare_4level_page_table (\<lambda>_. 0), demo_pm) :: pm_state"
  have "bitmap_apart demo_pm p" if "p \<in> pm_pages ?s" for p using demo_pages [OF that] by (intro demo_apart) auto
  then show "zone_ok ?s" using demo_pm_invar by (auto simp: zone_ok_def demo_pm_fields)
  have "a \<notin> pm_pages ?s" if "unat a < 0x300000" for a using demo_pages [of a "fst ?s"] that by fastforce
  then show "\<forall>a \<in> {0x90000, 0x91000, 0x92000}. a \<notin> pm_pages ?s \<and> bitmap_apart demo_pm a" using demo_apart by simp
qed

lemma demo_two_free: "2 \<le> card (free_pages (prepare_4level_page_table (\<lambda>_. 0), demo_pm))"
proof -
  let ?s = "(prepare_4level_page_table (\<lambda>_. 0), demo_pm) :: pm_state"
  have f: "page_addr demo_pm i \<in> free_pages ?s" if "i < 8" for i
  proof -
    have "\<not> bitv (fst ?s) (pm_map demo_pm) i" using that boot_bitmap by (simp add: bitv_def demo_pm_fields)
    then show ?thesis
      using that page_addr_inj [OF demo_pm_invar [of "fst ?s"], of i] by (auto simp: free_pages_def pm_pages_def pm_used_def demo_pm_fields)
  qed
  have "finite (free_pages ?s)" by (simp add: free_pages_def pm_pages_def)
  moreover have "page_addr demo_pm 0 \<noteq> page_addr demo_pm 1" using page_addr_inj [OF demo_pm_invar, of 0 1] by (simp add: demo_pm_fields)
  ultimately show ?thesis using f [of 0] f [of 1] card_mono [of "free_pages ?s" "{page_addr demo_pm 0, page_addr demo_pm 1}"] by simp
qed

theorem ioremap_nocache_maps_witness:
  "walk (fst (fst (ioremap_nocache (prepare_4level_page_table (\<lambda>_. 0), demo_pm) 0xFEE00000 4096))) 0xFEE00020 = Some 0xFEE00020"
  using ioremap_nocache_maps [OF demo_tables_ok demo_two_free, of "0xFEE00000" 4096] by (auto split: prod.splits)

end
