(* ===== verification/Percpu.thy ===== *)
theory Percpu
  imports Machine Task64Props
begin

text \<open>
  The per-processor structures on the heap: what kpcr_create
  (x64_kenerl/kernel/cpu.c) and init_tss_current_core (kernel/gdt64.c) leave behind,
  given the invariant of the allocator. The descriptor table and its register image
  at 0x9E000 are memory that the 32-bit kernel left and the allocator does not own.
\<close>

section \<open>What the allocator does not touch\<close>

lemma heap_get_page_more: "heap_get_page h = (h', p) \<Longrightarrow> kheap.more h' = kheap.more h"
  by (auto simp: heap_get_page_def split: prod.splits)

lemma construct_free_bucket_chain_more: "construct_free_bucket_chain h = (h', p) \<Longrightarrow> kheap.more h' = kheap.more h"
  by (auto simp: construct_free_bucket_chain_def dest!: heap_get_page_more split: prod.splits)

lemma new_bucket_more: "new_bucket h d = (h', r) \<Longrightarrow> kheap.more h' = kheap.more h"
  by (auto simp: new_bucket_def Let_def dest!: heap_get_page_more construct_free_bucket_chain_more split: prod.splits if_splits)

lemma kmalloc_more: "kmalloc h len = Some (h', p) \<Longrightarrow> kheap.more h' = kheap.more h"
  by (auto simp: kmalloc_def Let_def dest!: new_bucket_more split: option.splits if_splits prod.splits)

lemma kzalloc_more: "kzalloc h len = Some (h', p) \<Longrightarrow> kheap.more h' = kheap.more h"
  by (auto simp: kzalloc_def dest!: kmalloc_more split: option.splits if_splits prod.splits)

lemma machine_more:
  "kheap.more s' = kheap.more s \<Longrightarrow>
     msr s' = msr s \<and> tss_index s' = tss_index s \<and> g_kpcrs s' = g_kpcrs s \<and> g_apicInfo s' = g_apicInfo s \<and>
     gdtr s' = gdtr s \<and> task_reg s' = task_reg s"
  by (cases s; cases s') simp

lemma kzalloc_machine:
  "kzalloc s len = Some (s', p) \<Longrightarrow>
     msr s' = msr s \<and> tss_index s' = tss_index s \<and> g_kpcrs s' = g_kpcrs s \<and> g_apicInfo s' = g_apicInfo s \<and>
     gdtr s' = gdtr s \<and> task_reg s' = task_reg s"
  by (intro machine_more kzalloc_more)

section \<open>Enough memory\<close>

text \<open>
  A stock for \<open>n\<close> allocations: an allocation takes at most two pages, one for blocks
  and one for descriptors, and fails only when no page is left.
\<close>

definition pages_left :: "'x kheap_scheme \<Rightarrow> nat" where
  "pages_left h = card (pm_pages (kmem h, kpm h) - pm_used (kmem h, kpm h))"

definition stock :: "nat \<Rightarrow> 'x kheap_scheme \<Rightarrow> bool" where
  "stock n h \<longleftrightarrow> heap_ready n h \<and> 2 * n < pages_left h"

lemma finite_pm_pages: "finite (pm_pages s)"
  by (simp add: pm_pages_def)

lemma kmalloc_left:
  assumes inv: "heap_inv h A" and ready: "heap_ready (Suc n) h" and len: "unat len \<le> 4096" and K: "kmalloc h len = Some (h', p)"
  shows "pages_left h \<le> pages_left h' + 2" "p = 0 \<Longrightarrow> pages_left h \<le> 2"
proof -
  obtain fb hs where ok: "heap_ok h fb hs" and lock: "heap_lock h = 0" using inv by (auto simp: heap_inv_def)
  have r: "clean_pages h" "fb \<noteq> [] \<or> pm_pages (kmem h, kpm h) - pm_used (kmem h, kpm h) \<noteq> {}"
    using ready unfolding heap_ready_iff [OF ok] by (auto simp: card_gt_0_iff)
  obtain fb' where k: "descs_taken h h' hs fb fb'" and z: "p = 0 \<Longrightarrow> pm_pages (kmem h, kpm h) \<subseteq> pm_used (kmem h', kpm h)"
    using kmalloc_ok [OF ok lock r len] K by (auto split: if_splits)
  note k = descs_taken_keeps [OF k]
  then have c: "pages_left h \<le> card (pm_pages (kmem h, kpm h) - pm_used (kmem h', kpm h)) + 2"
    unfolding pages_left_def by (intro grows_card finite_pm_pages) (simp add: keeps_def)
  then show "pages_left h \<le> pages_left h' + 2"
    using k pm_pages_mem [of "kmem h'" "kpm h" "kmem h"] by (simp add: pages_left_def keeps_def)
  show "pages_left h \<le> 2" if "p = 0"
  proof -
    have "pm_pages (kmem h, kpm h) - pm_used (kmem h', kpm h) = {}" using z [OF that] by blast
    then show ?thesis using c by (simp only: card.empty)
  qed
qed

lemma write_stock:
  assumes "heap_inv h A" "(p, d) \<in> A" "frames (kmem h) m' [(p, n)]" "n \<le> bsize d"
  shows "stock k (h\<lparr>kmem := m'\<rparr>) = stock k h"
proof -
  have fr: "frames (kmem h) m' [(p, bsize d)]"
    using frames_inside [of "kmem h" m' p 0 n "bsize d"] assms(3,4) by simp
  obtain fb hs where ok: "heap_ok h fb hs" "heap_alloc hs = A" using assms(1) by (auto simp: heap_inv_def)
  then obtain bk where "d < 9" "bk \<in> set (hs ! d)" "p \<in> set (blocks (bpage bk) (bsize d))"
    using heap_alloc_in [OF ok(1)] assms(2) by blast
  then have "apart (fst (pm_range (kpm h))) (snd (pm_range (kpm h))) p (bsize d)" using heap_bitmap_block(2) [OF ok(1)] by blast
  then show ?thesis
    using heap_pm_frame [OF ok(1) fr] write_same(3) [OF assms] by (simp add: stock_def pages_left_def)
qed

lemma kzalloc_stock:
  assumes inv: "heap_inv h A" and st: "stock (Suc n) h" and len: "unat len \<le> 4096"
  shows "\<exists>h' p. kzalloc h len = Some (h', p) \<and> p \<noteq> 0 \<and> same_blocks A (kmem h) (kmem h') \<and> stock n h' \<and>
    (\<forall>x. \<not> heap_owned (kpm h) x \<longrightarrow> kmem h' x = kmem h x) \<and> kpm h' = kpm h \<and> p \<notin> fst ` A \<and>
    heap_inv h' (insert (p, len_class len) A) \<and> load (kmem h') p (unat len) = replicate (unat len) 0"
proof -
  have ready: "heap_ready (Suc n) h" and left: "2 * n + 2 < pages_left h" using st by (auto simp: stock_def)
  obtain h1 p where K: "kmalloc h len = Some (h1, p)" "heap_ready n h1"
    "p \<noteq> 0 \<Longrightarrow> heap_inv h1 (insert (p, len_class len) A)"
    using kmalloc_inv [OF inv ready len] by auto
  note L = kmalloc_left [OF inv ready len K(1)]
  have p: "p \<noteq> 0" using L(2) left by auto
  have "stock n h1" using L(1) left K(2) by (simp add: stock_def)
  moreover have "stock n (h1\<lparr>kmem := memset (kmem h1) p 0 len\<rparr>) = stock n h1"
    using len_class_bound [OF len] by (intro write_stock [OF K(3) [OF p] insertI1 memset_frame]) auto
  ultimately show ?thesis using kzalloc_same [OF inv ready len] K(1) p by (auto simp: kzalloc_def)
qed

section \<open>Stores outside of the heap\<close>

lemma load_agree: "(\<And>x. unat (x - a) < n \<Longrightarrow> m' x = m x) \<Longrightarrow> load m' a n = load m a n" for a :: u64
proof (rule nth_equalityI)
  fix i assume agree: "\<And>x. unat (x - a) < n \<Longrightarrow> m' x = m x" and "i < length (load m' a n)"
  then have "unat (a + of_nat i - a) < n" by (simp add: unat_of_nat le_less_trans [OF mod_less_eq_dividend])
  then show "load m' a n ! i = load m a n ! i" using agree \<open>i < _\<close> by simp
qed simp

lemma heap_inv_outside:
  assumes inv: "heap_inv h A" and agree: "\<And>x. heap_owned (kpm h) x \<Longrightarrow> m' x = kmem h x"
  shows "heap_inv (h\<lparr>kmem := m'\<rparr>) A" "same_blocks A (kmem h) m'" "stock n (h\<lparr>kmem := m'\<rparr>) = stock n h"
proof -
  let ?h = "h\<lparr>kmem := m'\<rparr>"
  obtain fb hs where ok: "heap_ok h fb hs" "heap_alloc hs = A" and lock: "heap_lock h = 0"
    using inv by (auto simp: heap_inv_def)
  have bits: "bitv m' (pm_map (kpm h)) i = bitv (kmem h) (pm_map (kpm h)) i" if "i < bm_nbits (pm_map (kpm h))" for i
  proof -
    have i: "i div 8 < unat (bm_length (pm_map (kpm h)))" using that by (auto simp: bm_nbits_def)
    then have "i div 8 < 2 ^ LENGTH(64)" using unat_lt [of "bm_length (pm_map (kpm h))"] by simp
    then have "unat (of_nat (i div 8) :: u64) = i div 8" by (rule unat_of_nat_less)
    then have "heap_owned (kpm h) (bm_bits (pm_map (kpm h)) + of_nat (i div 8))"
      using i by (intro pm_range_owned [of "bm_bits (pm_map (kpm h))" "unat (bm_length (pm_map (kpm h)))"]) (simp_all add: pm_range_def)
    then show ?thesis by (simp add: bitv_def agree)
  qed
  have used: "pm_used (m', kpm h) = pm_used (kmem h, kpm h)" using bits by (auto simp: pm_used_def)
  have page: "load m' x 4096 = load (kmem h) x 4096" if "x \<in> pm_pages (kmem h, kpm h)" for x
    using that by (intro load_agree agree pm_pages_owned)
  have block: "load m' x (bsize d) = load (kmem h) x (bsize d)" if B: "d < 9" "bk \<in> set (hs ! d)" "x \<in> set (blocks (bpage bk) (bsize d))" for d bk x
  proof -
    obtain i where "x = bpage bk + of_nat i" "i + bsize d \<le> 4096"
      using block_in_page [OF B(3) bsize_dvd(1) [OF B(1)]] by blast
    then show ?thesis
      using load_part [of m' "bpage bk" 4096 "kmem h" i "bsize d", OF page] heap_page(4) [OF ok(1) heap_bucket_in [OF ok(1) B(1,2)]] by simp
  qed
  have ok': "heap_ok ?h fb hs"
  proof (rule heap_ok_mono [OF ok(1)])
    show "load (kmem ?h) c 32 = load (kmem h) c 32" if "c \<in> descs fb hs" for c
      using heap_desc(1,4) [OF ok(1) that] by (auto intro!: load_agree agree desc_owned)
    fix d bk x assume *: "d < 9" "bk \<in> set (hs ! d)" "x \<in> set (bfree bk)"
    then have "load m' x (bsize d) = load (kmem h) x (bsize d)" using heap_free_block_in [OF ok(1)] by (intro block)
    then show "load (kmem ?h) x 8 = load (kmem h) x 8"
      using load_part [of m' x "bsize d" "kmem h" 0 8] bsize_dvd(2) [OF *(1)] by simp
  qed (simp_all add: used)
  then show "heap_inv ?h A" using ok(2) lock by (auto simp: heap_inv_def)
  show "same_blocks A (kmem h) m'"
    unfolding same_blocks_def using heap_alloc_in [OF ok(1)] ok(2) block by metis
  show "stock n ?h = stock n h"
    using page pm_pages_mem [of m' "kpm h" "kmem h"]
    unfolding stock_def heap_ready_iff [OF ok(1)] heap_ready_iff [OF ok'] by (simp add: clean_pages_def pages_left_def used)
qed

section \<open>The descriptor of a task state segment\<close>

lemma load_store_offset:
  "unat i + n \<le> unat j \<or> unat j + length bs \<le> unat i \<Longrightarrow> unat i + n \<le> 2 ^ 64 \<Longrightarrow> unat j + length bs \<le> 2 ^ 64 \<Longrightarrow>
     0 < n \<Longrightarrow> bs \<noteq> [] \<Longrightarrow> load (store m (a + j) bs) (a + i) n = load m (a + i) n" for a i j :: u64
  using apart_offset_same(1) [of "unat i" n "unat j" "length bs" a] apart_offset_same(2) [of "unat j" "length bs" "unat i" n a]
  by (intro load_store_apart) auto

lemma byte_store_offset:
  "unat i < unat j \<or> unat j + length bs \<le> unat i \<Longrightarrow> unat j + length bs \<le> 2 ^ 64 \<Longrightarrow> bs \<noteq> [] \<Longrightarrow>
     store m (a + j) bs (a + i) = m (a + i)" for a i j :: u64
  using load_store_offset [of i 1 j bs m a] unat_lt [of i] by (auto simp: load_def Suc_le_eq)

lemma wr8_store: "wr8 m a v = store m a [v]" for a :: u64
proof (rule ext)
  show "wr8 m a v x = store m a [v] x" for x
    using unat_eq_0 [of "x - a"] by (cases "x = a") (simp_all add: wr8_def store_def)
qed

lemma frames_tss_desc: "frames m (build_x64_tss_desc m base desc) [(desc, 16)]"
proof -
  have "build_x64_tss_desc m base desc x = m x" if x: "16 \<le> unat (x - desc)" for x
  proof -
    have o: "length bs + i \<le> 16 \<Longrightarrow> store m (desc + of_nat i) bs x = m x" for m bs i
      using unat_diff_offset [OF x, of i "length bs"] by (simp add: store_apply_out)
    have "store m desc (le_bytes 2 v) x = m x" "store m (desc + 2) (le_bytes 2 v) x = m x" for m and v :: u16
      using o [of "le_bytes 2 v" 0] o [of "le_bytes 2 v" 2] by simp_all
    moreover have "store m (desc + 8) (le_bytes 4 v) x = m x" "store m (desc + 12) (le_bytes 4 v) x = m x" for m and v :: u32
      using o [of "le_bytes 4 v" 8] o [of "le_bytes 4 v" 12] by simp_all
    moreover have "store m (desc + 4) [v] x = m x" "store m (desc + 5) [v] x = m x" "store m (desc + 6) [v] x = m x"
      "store m (desc + 7) [v] x = m x" for m v
      using o [of "[v]" 4] o [of "[v]" 5] o [of "[v]" 6] o [of "[v]" 7] by simp_all
    ultimately show ?thesis by (simp only: build_x64_tss_desc_def Let_def wr16_def wr32_def wr8_store)
  qed
  then show ?thesis by (simp add: frames_def)
qed

lemma base_parts:
  "ucast (ucast (base AND 0xFFFF) :: u16) OR push_bit 16 (ucast (ucast (drop_bit 16 base AND 0xFF) :: u8)) OR
     push_bit 24 (ucast (ucast (drop_bit 24 base AND 0xFF) :: u8)) OR push_bit 32 (ucast (ucast (drop_bit 32 base) :: u32)) = base"
  for base :: u64
proof (rule bit_word_eqI)
  fix n assume n: "n < LENGTH(64)"
  have m: "(0xFFFF :: u64) = mask 16" "(0xFF :: u64) = mask 8" by (simp_all add: mask_eq_exp_minus_1)
  show "bit ((ucast (ucast (base AND 0xFFFF) :: u16) :: u64) OR push_bit 16 (ucast (ucast (drop_bit 16 base AND 0xFF) :: u8)) OR
      push_bit 24 (ucast (ucast (drop_bit 24 base AND 0xFF) :: u8)) OR push_bit 32 (ucast (ucast (drop_bit 32 base) :: u32))) n = bit base n"
    (is "?l = _")
  proof -
    have "?l \<longleftrightarrow> n < 16 \<and> bit base n \<or> 16 \<le> n \<and> n - 16 < 8 \<and> bit base (16 + (n - 16)) \<or>
        24 \<le> n \<and> n - 24 < 8 \<and> bit base (24 + (n - 24)) \<or> 32 \<le> n \<and> n - 32 < 32 \<and> bit base (32 + (n - 32))"
      using n unfolding m bit_or_iff bit_push_bit_iff bit_unsigned_iff bit_and_iff bit_mask_iff bit_drop_bit_eq possible_bit_word
      by auto
    also have "\<dots> \<longleftrightarrow> bit base n" using n by (cases "n < 16"; cases "n < 24"; cases "n < 32"; auto)
    finally show ?thesis .
  qed
qed

lemma tss_base_build: "tss_base (build_x64_tss_desc m base desc) desc = base"
proof -
  let ?m = "build_x64_tss_desc m base desc"
  have off: "load (store m (desc + 4) [v]) (desc + 2) 2 = load m (desc + 2) 2"
    "load (store m (desc + 5) [v]) (desc + 2) 2 = load m (desc + 2) 2" "load (store m (desc + 6) [v]) (desc + 2) 2 = load m (desc + 2) 2"
    "load (store m (desc + 7) [v]) (desc + 2) 2 = load m (desc + 2) 2"
    "load (store m (desc + 8) (le_bytes 4 w)) (desc + 2) 2 = load m (desc + 2) 2"
    "load (store m (desc + 12) (le_bytes 4 w)) (desc + 2) 2 = load m (desc + 2) 2"
    "load (store m (desc + 12) (le_bytes 4 w)) (desc + 8) 4 = load m (desc + 8) 4" for m v and w :: u32
    by (rule load_store_offset; simp add: le_bytes_def)+
  have byte: "store m (desc + 12) (le_bytes 4 w) (desc + 4) = m (desc + 4)" "store m (desc + 8) (le_bytes 4 w) (desc + 4) = m (desc + 4)"
    "store m (desc + 7) [v] (desc + 4) = m (desc + 4)" "store m (desc + 6) [v] (desc + 4) = m (desc + 4)"
    "store m (desc + 5) [v] (desc + 4) = m (desc + 4)"
    "store m (desc + 12) (le_bytes 4 w) (desc + 7) = m (desc + 7)" "store m (desc + 8) (le_bytes 4 w) (desc + 7) = m (desc + 7)" for m v and w :: u32
    by (rule byte_store_offset; simp add: le_bytes_def)+
  have same: "store m a [v] a = v" for m v and a :: u64 by (simp add: store_def)
  have "rd16 ?m (desc + 2) = ucast (base AND 0xFFFF)" "?m (desc + 4) = ucast (drop_bit 16 base AND 0xFF)"
    "?m (desc + 7) = ucast (drop_bit 24 base AND 0xFF)" "rd32 ?m (desc + 8) = ucast (drop_bit 32 base)"
    unfolding build_x64_tss_desc_def Let_def rd16_def rd32_def wr16_def wr32_def wr8_store off byte same
    by (simp_all add: load_store_same of_le_le_bytes)
  then show ?thesis by (simp only: tss_base_def base_parts)
qed

section \<open>The stores of init_tss_current_core\<close>

text \<open>\<open>top\<close> is the end of the new stack, \<open>k\<close> the offset of the new descriptor.\<close>

lemma tss_stores:
  fixes m :: mem and tss g kpcr top :: u64 and lim :: u16 and k :: nat
  defines "ma \<equiv> wr64 m (tss + 4) top"
  defines "mb \<equiv> build_x64_tss_desc ma tss (g + of_nat k)"
  defines "mc \<equiv> wr16 mb g_gdtr lim"
  defines "md \<equiv> wr64 mc (kpcr + 48) (rd64 mc (tss + 4))"
  assumes ap: "apart tss 104 g 2048" "apart tss 104 g_gdtr 10" "apart tss 104 kpcr 56" "apart g 2048 kpcr 56"
      "apart g_gdtr 10 kpcr 56" "apart g 2048 g_gdtr 10"
    and k: "k + 16 \<le> 2048"
  shows "rd64 mc (tss + 4) = top" "rd64 md (tss + 4) = top" "rd64 md (kpcr + 48) = top"
    "tss_base md (g + of_nat k) = tss" "rd16 md g_gdtr = lim" "rd64 md (g_gdtr + 2) = rd64 m (g_gdtr + 2)"
    "load md g k = load m g k" "load md kpcr 48 = load m kpcr 48"
proof -
  have b: "load mb x n = load ma x n" if "apart x n (g + of_nat k) 16" for x n
    using that frames_load [OF frames_tss_desc] by (simp add: mb_def)
  have c: "load mc x n = load mb x n" if "apart x n g_gdtr 2" for x n
    using that by (simp add: mc_def wr16_def load_store_apart)
  have d: "load md x n = load mc x n" if "apart x n (kpcr + 48) 8" for x n
    using that by (simp add: md_def wr64_def load_store_apart)
  have tss: "apart (tss + 4) 8 (g + of_nat k) 16" "apart (tss + 4) 8 g_gdtr 2" "apart (tss + 4) 8 (kpcr + 48) 8"
    using apart_within [OF ap(1), of 4 8 k 16] apart_within [OF ap(2), of 4 8 0 2] apart_within [OF ap(3), of 4 8 48 8] k by simp_all
  show top: "rd64 mc (tss + 4) = top" using b [OF tss(1)] c [OF tss(2)] unfolding rd64_def by (simp add: ma_def wr64_def load_store_same of_le_le_bytes)
  then show "rd64 md (tss + 4) = top" using d [OF tss(3)] by (simp add: rd64_def)
  show "rd64 md (kpcr + 48) = top" by (simp add: md_def top rd64_wr64_same)
  have g16: "apart (g + of_nat (k + i)) n (kpcr + 48) 8" "apart (g + of_nat (k + i)) n g_gdtr 2" if "i + n \<le> 16" "0 < n" for i n
    using apart_within [OF ap(4), of "k + i" n 48 8] apart_within [OF ap(6), of "k + i" n 0 2] k that by simp_all
  have "load md (g + of_nat k) 16 = load mb (g + of_nat k) 16" using g16 [of 0 16] by (simp add: c d)
  then have part: "load md (g + of_nat k + of_nat i) n = load mb (g + of_nat k + of_nat i) n" if "i + n \<le> 16" for i n
    using that by (intro load_part [of md "g + of_nat k" 16])
  have "md (g + of_nat k + 4) = mb (g + of_nat k + 4)" "md (g + of_nat k + 7) = mb (g + of_nat k + 7)"
    using part [of 4 1] part [of 7 1] by (simp_all add: load_def)
  then have "tss_base md (g + of_nat k) = tss_base mb (g + of_nat k)"
    using part [of 2 2] part [of 8 4] by (simp add: tss_base_def rd16_def rd32_def)
  then show "tss_base md (g + of_nat k) = tss" by (simp add: mb_def tss_base_build)
  show "rd16 md g_gdtr = lim"
    using d [of g_gdtr 2] apart_within [OF ap(5), of 0 2 48 8] unfolding rd16_def by (simp add: mc_def wr16_def load_store_same of_le_le_bytes)
  have r: "apart (g_gdtr + 2) 8 (kpcr + 48) 8" "apart (g_gdtr + 2) 8 g_gdtr 2" "apart (g_gdtr + 2) 8 (g + of_nat k) 16" "apart (g_gdtr + 2) 8 (tss + 4) 8"
    using apart_within [OF ap(5), of 2 8 48 8] apart_offset_same(2) [of 0 2 2 8 g_gdtr] apart_within [OF ap(6), of k 16 2 8]
      apart_within [OF ap(2), of 4 8 2 8] k by (simp_all add: apart_commute)
  then show "rd64 md (g_gdtr + 2) = rd64 m (g_gdtr + 2)"
    by (simp add: rd64_def b c d) (simp add: ma_def wr64_def load_store_apart)
  show "load md g k = load m g k"
  proof (cases "k = 0")
    case False
    then have "apart g k (kpcr + 48) 8" "apart g k g_gdtr 2" "apart g k (g + of_nat k) 16" "apart g k (tss + 4) 8"
      using apart_within [OF ap(4), of 0 k 48 8] apart_within [OF ap(6), of 0 k 0 2] apart_offset_same(1) [of 0 k k 16 g]
        apart_within [OF ap(1), of 4 8 0 k] k by (simp_all add: apart_commute)
    then show ?thesis by (simp add: b c d) (simp add: ma_def wr64_def load_store_apart)
  qed simp
  have "apart kpcr 48 (kpcr + 48) 8" "apart kpcr 48 g_gdtr 2" "apart kpcr 48 (g + of_nat k) 16" "apart kpcr 48 (tss + 4) 8"
    using apart_offset_same(1) [of 0 48 48 8 kpcr] apart_within [OF ap(5), of 0 2 0 48] apart_within [OF ap(4), of k 16 0 48]
      apart_within [OF ap(3), of 4 8 0 48] k by (simp_all add: apart_commute)
  then show "load md kpcr 48 = load m kpcr 48" by (simp add: b c d) (simp add: ma_def wr64_def load_store_apart)
qed

section \<open>One processor\<close>

lemma owned_apart:
  assumes "\<And>x. unat (x - a) < n \<Longrightarrow> heap_owned pm x" "\<And>x. unat (x - b) < k \<Longrightarrow> \<not> heap_owned pm x" "0 < n" "0 < k"
  shows "apart a n b k"
proof (rule apart_outside)
  fix i assume "i < n"
  then have "unat (a + of_nat i - a) < n" by (simp add: unat_of_nat le_less_trans [OF mod_less_eq_dividend])
  then show "k \<le> unat (a + of_nat i - b)" using assms(1,2) by (meson not_le)
qed (use assms in auto)

text \<open>
  The table \<open>g\<close> of 256 descriptors and the image of its register are outside of the
  heap, and the next descriptor is the one that tss_index names.
\<close>

definition tss_room :: "'x machine_scheme \<Rightarrow> u64 \<Rightarrow> bool" where
  "tss_room s g \<longleftrightarrow> rd64 (kmem s) (g_gdtr + 2) = g \<and> unat (rd16 (kmem s) g_gdtr) = 8 * unat (tss_index s) \<and>
     (\<forall>x. unat (x - g) < 2048 \<or> unat (x - g_gdtr) < 10 \<longrightarrow> \<not> heap_owned (kpm s) x) \<and> apart g 2048 g_gdtr 10"

lemma heap_inv_fields:
  "kmem s' = kmem s \<Longrightarrow> kpm s' = kpm s \<Longrightarrow> bucket_dir s' = bucket_dir s \<Longrightarrow> free_bucket_chain s' = free_bucket_chain s \<Longrightarrow>
     heap_lock s' = heap_lock s \<Longrightarrow> heap_inv s' A = heap_inv s A \<and> stock n s' = stock n s"
  by (simp add: heap_inv_def heap_ok_def stock_def heap_ready_def clean_pages_def pages_left_def)

lemma swapgs_twice: "kpcr_swapgs ((kpcr_swapgs s)\<lparr>kmem := m\<rparr>) = s\<lparr>kmem := m\<rparr>"
  by (simp add: kpcr_swapgs_def IA32_GS_BASE_def IA32_KERNEL_GS_BASE_def fun_upd_twist)

lemma init_tss_eval:
  assumes "kzalloc s sizeof_tss = Some (s1, tss)" "kzalloc s1 PAGE_SIZE = Some (s2, stack)"
    and ma: "ma = wr64 (kmem s2) (tss + 4) (stack + 4096)"
    and g: "rd64 ma (g_gdtr + 2) = g" "rd16 ma g_gdtr = lim"
    and mb: "mb = build_x64_tss_desc ma tss (g + ucast lim)"
    and mc: "mc = wr16 mb g_gdtr (rd16 mb g_gdtr + 16)"
  shows "init_tss_current_core s = Some (s2\<lparr>kmem := wr64 mc (msr s IA32_KERNEL_GS_BASE + 48) (rd64 mc (tss + 4)),
    gdtr := (rd16 mc g_gdtr, rd64 mc (g_gdtr + 2)), task_reg := ucast (push_bit 3 (tss_index s)), tss_index := tss_index s + 2\<rparr>)"
proof -
  have m: "msr s2 = msr s" "tss_index s2 = tss_index s"
    using kzalloc_machine [OF assms(1)] kzalloc_machine [OF assms(2)] by simp_all
  have 4096: "ucast PAGE_SIZE = (4096 :: u64)" by (simp add: PAGE_SIZE_def)
  have gs: "msr (kpcr_swapgs t) IA32_GS_BASE = msr t IA32_KERNEL_GS_BASE" "kmem (kpcr_swapgs t) = kmem t" for t :: "'a machine_scheme"
    by (simp_all add: kpcr_swapgs_def IA32_GS_BASE_def IA32_KERNEL_GS_BASE_def)
  show ?thesis
    unfolding init_tss_current_core_def assms(1) bind.simps prod.case assms(2) 4096 ma [symmetric] Let_def g mb [symmetric] mc [symmetric]
      kpcr_set_offset_def gs swapgs_twice
    by (simp add: m)
qed

lemma tss_memory:
  fixes h :: "'x kheap_scheme" and tss g kp top :: u64 and lim :: u16 and k :: nat
  defines "ma \<equiv> wr64 (kmem h) (tss + 4) top"
  defines "mb \<equiv> build_x64_tss_desc ma tss (g + of_nat k)"
  defines "mc \<equiv> wr16 mb g_gdtr lim"
  defines "md \<equiv> wr64 mc (kp + 48) (rd64 mc (tss + 4))"
  assumes inv: "heap_inv h B" and T: "(tss, dt) \<in> B" "104 \<le> bsize dt" and K: "(kp, dk) \<in> B" "56 \<le> bsize dk"
    and out: "\<And>x. unat (x - g) < 2048 \<or> unat (x - g_gdtr) < 10 \<Longrightarrow> \<not> heap_owned (kpm h) x" and k: "k + 16 \<le> 2048"
  shows "heap_inv (h\<lparr>kmem := md\<rparr>) B" "same_blocks (B - {(tss, dt), (kp, dk)}) (kmem h) md"
    "stock n (h\<lparr>kmem := md\<rparr>) = stock n h"
proof -
  let ?a = "h\<lparr>kmem := ma\<rparr>" and ?c = "h\<lparr>kmem := mc\<rparr>"
  have fr: "frames (kmem h) ma [(tss, 104)]" using frames_wr64_in [of 4 104 "kmem h" tss top] by (simp add: ma_def)
  note A = write_same(1,2) [OF inv T(1) fr T(2)] write_stock [OF inv T(1) fr T(2)]
  have "mc x = ma x" if "heap_owned (kpm h) x" for x
  proof -
    have g: "2048 \<le> unat (x - g)" "10 \<le> unat (x - g_gdtr)" using out that by (meson not_le)+
    then have "16 \<le> unat (x - (g + of_nat k))" using unat_diff_offset [of 2048 x g k 16] k by simp
    then have "mb x = ma x" using frames_tss_desc [of ma tss "g + of_nat k"] by (simp add: frames_def mb_def)
    moreover have "mc x = mb x" using g(2) by (simp add: mc_def wr16_def store_apply_out)
    ultimately show ?thesis by simp
  qed
  then have "heap_owned (kpm ?a) x \<Longrightarrow> mc x = kmem ?a x" for x by simp
  note C = heap_inv_outside [OF A(1) this]
  have "frames (kmem ?c) md [(kp, 56)]" using frames_wr64_in [of 48 56 mc kp] by (simp add: md_def)
  then have D: "heap_inv (?c\<lparr>kmem := md\<rparr>) B" "same_blocks (B - {(kp, dk)}) mc md" "stock n (?c\<lparr>kmem := md\<rparr>) = stock n ?c"
    using write_same(1,2) [of ?c B kp dk md 56, OF _ K(1) _ K(2)] write_stock [of ?c B kp dk md 56, OF _ K(1) _ K(2)] C(1) by simp_all
  then show "heap_inv (h\<lparr>kmem := md\<rparr>) B" by simp
  show "same_blocks (B - {(tss, dt), (kp, dk)}) (kmem h) md" using A(2) C(2) D(2) by (simp add: same_blocks_def)
  show "stock n (h\<lparr>kmem := md\<rparr>) = stock n h" using A(3) C(3) D(3) by simp
qed

lemma tss_image:
  fixes h :: "'x kheap_scheme" and tss g kp top :: u64 and k :: nat
  assumes inv: "heap_inv h B" and T: "(tss, len_class sizeof_tss) \<in> B" and K: "(kp, len_class sizeof_kpcr) \<in> B"
    and ne: "tss \<noteq> kp"
    and out: "\<And>x. unat (x - g) < 2048 \<or> unat (x - g_gdtr) < 10 \<Longrightarrow> \<not> heap_owned (kpm h) x"
    and gg: "apart g 2048 g_gdtr 10" and k: "k + 16 \<le> 2048"
    and reg: "rd64 (kmem h) (g_gdtr + 2) = g" "unat (rd16 (kmem h) g_gdtr) = k"
    and ma: "ma = wr64 (kmem h) (tss + 4) top" and mb: "mb = build_x64_tss_desc ma tss (g + ucast (rd16 (kmem h) g_gdtr))"
    and mc: "mc = wr16 mb g_gdtr (rd16 mb g_gdtr + 16)" and md: "md = wr64 mc (kp + 48) (rd64 mc (tss + 4))"
  shows "rd64 ma (g_gdtr + 2) = g" "rd16 ma g_gdtr = rd16 (kmem h) g_gdtr" "rd16 mc g_gdtr = of_nat (k + 16)" "rd64 mc (g_gdtr + 2) = g"
    and "rd64 md (tss + 4) = top" "rd64 md (kp + 48) = top" "tss_base md (g + of_nat k) = tss" "rd16 md g_gdtr = of_nat (k + 16)"
      "rd64 md (g_gdtr + 2) = g" "load md g k = load (kmem h) g k" "load md kp 48 = load (kmem h) kp 48"
    and "heap_inv (h\<lparr>kmem := md\<rparr>) B" "same_blocks (B - {(tss, len_class sizeof_tss), (kp, len_class sizeof_kpcr)}) (kmem h) md"
      "stock n (h\<lparr>kmem := md\<rparr>) = stock n h"
proof -
  have bs: "104 \<le> bsize (len_class sizeof_tss)" "56 \<le> bsize (len_class sizeof_kpcr)"
    using len_class_bound [of sizeof_tss] len_class_bound [of sizeof_kpcr] by (simp_all add: sizeof_tss_def sizeof_kpcr_def)
  have own: "unat (x - tss) < 104 \<Longrightarrow> heap_owned (kpm h) x" "unat (x - kp) < 56 \<Longrightarrow> heap_owned (kpm h) x" for x
    using block_owned [OF inv T] block_owned [OF inv K] bs by (meson less_le_trans)+
  have ap: "apart tss 104 g 2048" "apart tss 104 g_gdtr 10" "apart kp 56 g 2048" "apart kp 56 g_gdtr 10"
    using own out by (auto intro!: owned_apart)
  have "apart tss 104 kp 56" using heap_inv_apart [OF inv T K] ne bs by (auto intro: apart_mono)
  note ap = ap(1,2) this ap(3,4) [unfolded apart_commute [of kp]] gg k
  define lim where "lim = rd16 (kmem h) g_gdtr"
  have lim: "ucast lim = (of_nat k :: u64)" "lim = of_nat k" using reg(2) by (simp_all add: lim_def flip: reg(2))
  have gs: "apart g_gdtr 2 (tss + 4) 8" "apart g_gdtr 2 (g + of_nat k) 16" "apart (g_gdtr + 2) 8 g_gdtr 2"
    "apart (g_gdtr + 2) 8 (g + of_nat k) 16" "apart (g_gdtr + 2) 8 (tss + 4) 8"
    using apart_within [OF ap(2), of 4 8 0 2] apart_within [OF gg, of k 16 0 2] apart_offset_same(2) [of 0 2 2 8 g_gdtr]
      apart_within [OF gg, of k 16 2 8] apart_within [OF ap(2), of 4 8 2 8] k by (simp_all add: apart_commute)
  show a: "rd64 ma (g_gdtr + 2) = g" "rd16 ma g_gdtr = rd16 (kmem h) g_gdtr"
    using reg(1) gs(1,5) by (simp_all add: ma rd64_def rd16_def wr64_def load_store_apart)
  have mb: "mb = build_x64_tss_desc ma tss (g + of_nat k)" using mb lim(1) by (simp add: lim_def)
  then have b: "rd16 mb g_gdtr = lim" "rd64 mb (g_gdtr + 2) = g"
    using a gs(2,4) frames_load [OF frames_tss_desc [of ma tss "g + of_nat k"]] by (simp_all add: rd16_def rd64_def lim_def)
  then have mc: "mc = wr16 mb g_gdtr (of_nat (k + 16))" using mc lim(2) by simp
  show "rd16 mc g_gdtr = of_nat (k + 16)" "rd64 mc (g_gdtr + 2) = g"
    using b(2) gs(3) by (simp_all add: mc rd16_def rd64_def wr16_def load_store_same load_store_apart of_le_le_bytes)
  note S = tss_stores [where m = "kmem h" and top = top and lim = "of_nat (k + 16)", OF ap, folded ma, folded mb, folded mc, folded md]
  show "rd64 md (tss + 4) = top" "rd64 md (kp + 48) = top" "tss_base md (g + of_nat k) = tss" "rd16 md g_gdtr = of_nat (k + 16)"
      "rd64 md (g_gdtr + 2) = g" "load md g k = load (kmem h) g k" "load md kp 48 = load (kmem h) kp 48"
    using S(2-8) reg(1) by simp_all
  note M = tss_memory [where g = g and top = top and lim = "of_nat (k + 16)", OF inv T bs(1) K bs(2) out k, folded ma, folded mb, folded mc, folded md]
  then show "heap_inv (h\<lparr>kmem := md\<rparr>) B" "same_blocks (B - {(tss, len_class sizeof_tss), (kp, len_class sizeof_kpcr)}) (kmem h) md"
      "stock n (h\<lparr>kmem := md\<rparr>) = stock n h"
    by simp_all
qed

text \<open>What the stack and the segment of one processor must satisfy afterwards.\<close>

definition tss_installed :: "'x machine_scheme \<Rightarrow> 'x machine_scheme \<Rightarrow> u64 \<Rightarrow> u64 \<Rightarrow> u64 \<Rightarrow> bool" where
  "tss_installed s s' g tss stack \<longleftrightarrow>
     task_reg s' = ucast (push_bit 3 (tss_index s)) \<and> tss_base (kmem s') (g + of_nat (8 * unat (tss_index s))) = tss \<and>
     rd64 (kmem s') (tss + 4) = stack + 4096 \<and> rd64 (kmem s') (msr s IA32_KERNEL_GS_BASE + 48) = stack + 4096 \<and>
     gdtr s' = (of_nat (8 * unat (tss_index s) + 16), g) \<and>
     load (kmem s') g (8 * unat (tss_index s)) = load (kmem s) g (8 * unat (tss_index s))"

lemma init_tss_step:
  assumes inv: "heap_inv s A" "stock (Suc (Suc n)) s" and room: "tss_room s g" "8 * unat (tss_index s) + 16 \<le> 2048"
    and kpcr: "(msr s IA32_KERNEL_GS_BASE, len_class sizeof_kpcr) \<in> A"
  shows "\<exists>s' tss stack. init_tss_current_core s = Some s' \<and> tss_installed s s' g tss stack \<and> tss_room s' g \<and> tss_index s' = tss_index s + 2 \<and>
    msr s' = msr s \<and> stock n s' \<and> tss \<notin> fst ` A \<and> stack \<notin> fst ` insert (tss, len_class sizeof_tss) A \<and>
    heap_inv s' (insert (stack, len_class PAGE_SIZE) (insert (tss, len_class sizeof_tss) A)) \<and>
    same_blocks (A - {(msr s IA32_KERNEL_GS_BASE, len_class sizeof_kpcr)}) (kmem s) (kmem s') \<and>
    load (kmem s') (msr s IA32_KERNEL_GS_BASE) 48 = load (kmem s) (msr s IA32_KERNEL_GS_BASE) 48 \<and> kpm s' = kpm s"
proof -
  let ?k = "8 * unat (tss_index s)" and ?kp = "msr s IA32_KERNEL_GS_BASE"
  have le: "unat sizeof_tss \<le> 4096" "unat PAGE_SIZE \<le> 4096" by (simp_all add: sizeof_tss_def PAGE_SIZE_def)
  obtain s1 tss where z1: "kzalloc s sizeof_tss = Some (s1, tss)" and Z1: "same_blocks A (kmem s) (kmem s1)" "stock (Suc n) s1"
    "\<And>x. \<not> heap_owned (kpm s) x \<Longrightarrow> kmem s1 x = kmem s x" "kpm s1 = kpm s" "tss \<notin> fst ` A" "heap_inv s1 (insert (tss, len_class sizeof_tss) A)"
    using kzalloc_stock [OF inv le(1)] by blast
  let ?T = "(tss, len_class sizeof_tss)"
  obtain s2 stack where z2: "kzalloc s1 PAGE_SIZE = Some (s2, stack)" and Z2: "same_blocks (insert ?T A) (kmem s1) (kmem s2)" "stock n s2"
    "\<And>x. \<not> heap_owned (kpm s1) x \<Longrightarrow> kmem s2 x = kmem s1 x" "kpm s2 = kpm s1" "stack \<notin> fst ` insert ?T A"
    "heap_inv s2 (insert (stack, len_class PAGE_SIZE) (insert ?T A))"
    using kzalloc_stock [OF Z1(6,2) le(2)] by blast
  let ?A2 = "insert (stack, len_class PAGE_SIZE) (insert ?T A)"
  have Z2: "same_blocks (insert ?T A) (kmem s1) (kmem s2)" "stock n s2" "\<And>x. \<not> heap_owned (kpm s) x \<Longrightarrow> kmem s2 x = kmem s1 x"
    "kpm s2 = kpm s" "stack \<notin> fst ` insert ?T A" "heap_inv s2 ?A2" using Z2 Z1(4) by simp_all
  have ti: "tss_index s2 = tss_index s" "msr s2 = msr s" using kzalloc_machine [OF z1] kzalloc_machine [OF z2] by simp_all
  have out: "\<And>x. unat (x - g) < 2048 \<or> unat (x - g_gdtr) < 10 \<Longrightarrow> \<not> heap_owned (kpm s2) x" and gg: "apart g 2048 g_gdtr 10"
    using room(1) Z2(4) by (auto simp: tss_room_def)
  have same: "load (kmem s2) x m = load (kmem s) x m" if "\<And>y. unat (y - x) < m \<Longrightarrow> \<not> heap_owned (kpm s2) y" for x m
    using that Z1(3) Z2(3,4) by (intro load_agree) simp
  have "10 \<le> unat (y - g_gdtr) \<Longrightarrow> 8 \<le> unat (y - (g_gdtr + 2))" for y using unat_diff_offset [of 10 y g_gdtr 2 8] by simp
  then have "load (kmem s2) (g_gdtr + 2) 8 = load (kmem s) (g_gdtr + 2) 8" "load (kmem s2) g_gdtr 2 = load (kmem s) g_gdtr 2"
    "load (kmem s2) g ?k = load (kmem s) g ?k"
    using out room(2) by (auto intro!: same) (meson not_le)
  then have reg: "rd64 (kmem s2) (g_gdtr + 2) = g" "unat (rd16 (kmem s2) g_gdtr) = ?k" "load (kmem s2) g ?k = load (kmem s) g ?k"
    using room(1) by (simp_all add: tss_room_def rd64_def rd16_def)
  have ne: "tss \<noteq> ?kp" using Z1(5) kpcr by force
  define ma where "ma = wr64 (kmem s2) (tss + 4) (stack + 4096)"
  define mb where "mb = build_x64_tss_desc ma tss (g + ucast (rd16 (kmem s2) g_gdtr))"
  define mc where "mc = wr16 mb g_gdtr (rd16 mb g_gdtr + 16)"
  define md where "md = wr64 mc (?kp + 48) (rd64 mc (tss + 4))"
  have "?T \<in> ?A2" "(?kp, len_class sizeof_kpcr) \<in> ?A2" using kpcr by simp_all
  note I = tss_image [OF Z2(6) this ne out gg room(2) reg(1,2) ma_def mb_def mc_def md_def]
  have kp: "load md ?kp 48 = load (kmem s) ?kp 48"
  proof -
    have K: "load (kmem s2) ?kp (bsize (len_class sizeof_kpcr)) = load (kmem s) ?kp (bsize (len_class sizeof_kpcr))"
      using Z1(1) Z2(1) kpcr by (simp add: same_blocks_def)
    have "48 \<le> bsize (len_class sizeof_kpcr)" using len_class_bound [of sizeof_kpcr] by (simp add: sizeof_kpcr_def)
    then show ?thesis using load_part [OF K, of 0 48] I(11) by simp
  qed
  let ?s' = "s2\<lparr>kmem := md, gdtr := (rd16 mc g_gdtr, rd64 mc (g_gdtr + 2)), task_reg := ucast (push_bit 3 (tss_index s)), tss_index := tss_index s + 2\<rparr>"
  have run: "init_tss_current_core s = Some ?s'"
    using init_tss_eval [OF z1 z2 ma_def I(1) I(2) mb_def mc_def] by (simp add: md_def)
  have "tss_installed s ?s' g tss stack" unfolding tss_installed_def using I(3-10) reg(3) by simp
  moreover have "tss_room ?s' g"
  proof -
    have "8 * unat (tss_index s + 2) = ?k + 16" using room(2) by (simp add: unat_word_ariths)
    moreover have "unat (of_nat (?k + 16) :: u16) = ?k + 16" using room(2) by (intro unat_of_nat_less) simp
    ultimately show ?thesis using I(8,9) out gg by (simp add: tss_room_def)
  qed
  moreover have "heap_inv ?s' ?A2 = heap_inv (s2\<lparr>kmem := md\<rparr>) ?A2 \<and> stock n ?s' = stock n (s2\<lparr>kmem := md\<rparr>)"
    by (rule heap_inv_fields) simp_all
  moreover have "same_blocks (A - {(?kp, len_class sizeof_kpcr)}) (kmem s) md"
  proof -
    let ?X = "A - {(?kp, len_class sizeof_kpcr)}"
    have X: "?X \<subseteq> A" "?X \<subseteq> insert ?T A" "?X \<subseteq> ?A2 - {?T, (?kp, len_class sizeof_kpcr)}" using Z1(5) by force+
    show ?thesis
      using same_blocks_trans [OF same_blocks_mono [OF Z1(1) X(1)] same_blocks_trans [OF same_blocks_mono [OF Z2(1) X(2)] same_blocks_mono [OF I(13) X(3)]]] .
  qed
  ultimately show ?thesis using run kp I(12) I(14) [of n] Z1(5) Z2(2,4,5) ti by (intro exI [of _ ?s'] exI [of _ tss] exI [of _ stack]) simp
qed

section \<open>The per-processor block\<close>

lemma write_msr_eq: "write_msr s r v = s\<lparr>msr := (msr s)(r := v)\<rparr>"
  by (simp add: write_msr_def wrmsr_def halves)

lemma get_lapic_id_state: "get_lapic_id dev s = (v, s') \<Longrightarrow> s' = s\<lparr>lapic_reads := Suc (lapic_reads s)\<rparr>"
  by (auto simp: get_lapic_id_def lapic_read_def split: prod.splits)

lemma kpcr_create_ok:
  assumes inv: "heap_inv s A" "stock (Suc (Suc n)) s" and id: "get_lapic_id dev s = (cpuid, s0)" "unat cpuid < length (g_kpcrs s)"
  shows "\<exists>s' kpcr stack. kpcr_create dev s = Some (s', kpcr) \<and> msr s' = (msr s)(IA32_KERNEL_GS_BASE := kpcr) \<and>
    tss_index s' = tss_index s \<and> kpm s' = kpm s \<and> (\<forall>x. \<not> heap_owned (kpm s) x \<longrightarrow> kmem s' x = kmem s x) \<and> stock n s' \<and>
    kpcr \<notin> fst ` A \<and> stack \<notin> fst ` insert (kpcr, len_class sizeof_kpcr) A \<and> stack \<noteq> 0 \<and>
    heap_inv s' (insert (stack, len_class PAGE_SIZE) (insert (kpcr, len_class sizeof_kpcr) A)) \<and> same_blocks A (kmem s) (kmem s') \<and>
    rd64 (kmem s') kpcr = scast cpuid \<and> rd64 (kmem s') (kpcr + 24) = stack"
proof -
  have s0: "s0 = s\<lparr>lapic_reads := Suc (lapic_reads s)\<rparr>" by (rule get_lapic_id_state [OF id(1)])
  have "heap_inv s0 A = heap_inv s A \<and> stock (Suc (Suc n)) s0 = stock (Suc (Suc n)) s" unfolding s0 by (rule heap_inv_fields) simp_all
  then have inv0: "heap_inv s0 A" "stock (Suc (Suc n)) s0" using inv by simp_all
  have le: "unat sizeof_kpcr \<le> 4096" "unat PAGE_SIZE \<le> 4096" by (simp_all add: sizeof_kpcr_def PAGE_SIZE_def)
  have bs: "56 \<le> bsize (len_class sizeof_kpcr)" using len_class_bound [of sizeof_kpcr] by (simp add: sizeof_kpcr_def)
  obtain s1 kpcr where z1: "kzalloc s0 sizeof_kpcr = Some (s1, kpcr)" and Z1: "kpcr \<noteq> 0" "same_blocks A (kmem s0) (kmem s1)" "stock (Suc n) s1"
    "\<forall>x. \<not> heap_owned (kpm s0) x \<longrightarrow> kmem s1 x = kmem s0 x" "kpm s1 = kpm s0" "kpcr \<notin> fst ` A"
    "heap_inv s1 (insert (kpcr, len_class sizeof_kpcr) A)"
    using kzalloc_stock [OF inv0 le(1)] by blast
  let ?K = "(kpcr, len_class sizeof_kpcr)"
  let ?h1 = "s1\<lparr>kmem := wr64 (kmem s1) kpcr (scast cpuid)\<rparr>"
  have f1: "frames (kmem s1) (kmem ?h1) [(kpcr, 56)]" using frames_wr64_in [of 0 56 "kmem s1" kpcr] by simp
  note W1 = write_same [OF Z1(7) insertI1 f1 bs] write_stock [OF Z1(7) insertI1 f1 bs]
  obtain s2 stack where z2: "kzalloc ?h1 PAGE_SIZE = Some (s2, stack)" and Z2: "stack \<noteq> 0" "same_blocks (insert ?K A) (kmem ?h1) (kmem s2)"
    "stock n s2" "\<forall>x. \<not> heap_owned (kpm ?h1) x \<longrightarrow> kmem s2 x = kmem ?h1 x" "kpm s2 = kpm ?h1" "stack \<notin> fst ` insert ?K A"
    "heap_inv s2 (insert (stack, len_class PAGE_SIZE) (insert ?K A))"
    using kzalloc_stock [of ?h1 "insert ?K A" n, OF _ _ le(2)] W1 Z1(3) by auto
  let ?h2 = "s2\<lparr>kmem := wr64 (kmem s2) (kpcr + 24) stack\<rparr>"
  have f2: "frames (kmem s2) (kmem ?h2) [(kpcr, 56)]" using frames_wr64_in [of 24 56 "kmem s2" kpcr] by simp
  have K2: "?K \<in> insert (stack, len_class PAGE_SIZE) (insert ?K A)" by simp
  note W2 = write_same [OF Z2(7) K2 f2 bs] write_stock [OF Z2(7) K2 f2 bs]
  let ?s' = "?h2\<lparr>msr := (msr s)(IA32_KERNEL_GS_BASE := kpcr), g_kpcrs := (g_kpcrs s)[unat cpuid := kpcr]\<rparr>"
  have m: "msr s2 = msr s" "g_kpcrs s2 = g_kpcrs s" "tss_index s2 = tss_index s"
    using kzalloc_machine [OF z1] kzalloc_machine [OF z2] by (simp_all add: s0)
  have run: "kpcr_create dev s = Some (?s', kpcr)"
    unfolding kpcr_create_def id(1) Let_def prod.case z1 bind.simps z2 write_msr_eq using Z1(1) id(2) m by simp
  have A: "A \<subseteq> insert ?K A - {?K}" "A \<subseteq> insert (stack, len_class PAGE_SIZE) (insert ?K A) - {?K}" using Z1(6) by force+
  have "same_blocks A (kmem s) (kmem ?h2)"
    using same_blocks_trans [OF Z1(2) same_blocks_trans [OF same_blocks_mono [OF W1(2) A(1)]
      same_blocks_trans [OF same_blocks_mono [OF Z2(2) subset_insertI] same_blocks_mono [OF W2(2) A(2)]]]] by (simp add: s0)
  moreover have "rd64 (kmem ?h2) kpcr = scast cpuid"
  proof -
    have "load (kmem s2) kpcr 8 = load (kmem ?h1) kpcr 8"
      using Z2(2) load_part [of "kmem s2" kpcr "bsize (len_class sizeof_kpcr)" "kmem ?h1" 0 8] bs by (simp add: same_blocks_def)
    then have "rd64 (kmem s2) kpcr = scast cpuid" by (simp add: rd64_def) (simp add: wr64_def load_store_same of_le_le_bytes)
    then show ?thesis using apart_offset_same(1) [of 0 8 24 8 kpcr] by (simp add: rd64_wr64_apart)
  qed
  moreover have "rd64 (kmem ?h2) (kpcr + 24) = stack" by (simp add: rd64_wr64_same)
  moreover have "kmem ?h2 x = kmem s x" if "\<not> heap_owned (kpm s) x" for x
    using that W2(4) [of x] Z2(4,5) W1(4) [of x] Z1(4,5) by (simp add: s0)
  moreover have "heap_inv ?s' (insert (stack, len_class PAGE_SIZE) (insert ?K A)) = heap_inv ?h2 (insert (stack, len_class PAGE_SIZE) (insert ?K A)) \<and>
      stock n ?s' = stock n ?h2" by (rule heap_inv_fields) simp_all
  ultimately show ?thesis
    using run W2(1,5) Z1(5,6) Z2(1,3,5,6) m by (intro exI [of _ ?s'] exI [of _ kpcr] exI [of _ stack]) (simp add: s0)
qed

end
