(* ===== verification/Main64.thy ===== *)
theory Main64
  imports Percpu Apic Idt64 Serial Console
begin

text \<open>
  The main functions of the 64-bit kernel (x64_kenerl/init/main.c) and the system
  calls (x64_kenerl/kernel/system_call.c, libs/unistd.c, asm/syscall.asm), composed
  from the components: the bootstrap processor runs x64_kernel_main, every other
  processor x64_ap_main. The endless loops at their ends are left out.
\<close>

section \<open>System calls\<close>

definition sys_write :: "device \<Rightarrow> mem \<Rightarrow> u32 \<Rightarrow> u64 \<Rightarrow> u32 \<Rightarrow> serial \<Rightarrow> (serial \<times> u32) option" where
  "sys_write dev m fd buf count s = map_option (\<lambda>s. (s, count)) (data_out dev m buf count s)"

definition system_call_nums :: nat where "system_call_nums = 128"

text \<open>A null pointer of the table is \<open>None\<close>.\<close>

definition system_call_table :: "(device \<Rightarrow> mem \<Rightarrow> u32 \<Rightarrow> u64 \<Rightarrow> u32 \<Rightarrow> serial \<Rightarrow> (serial \<times> u32) option) option list" where
  "system_call_table = [None, Some sys_write] @ replicate (system_call_nums - 2) None"

definition NR_write :: nat where "NR_write = 1"

text \<open>The call through the table: no check of the number, so that a null entry and an entry outside of the table do not return.\<close>

definition call_table :: "nat \<Rightarrow> device \<Rightarrow> mem \<Rightarrow> u32 \<Rightarrow> u64 \<Rightarrow> u32 \<Rightarrow> serial \<Rightarrow> (serial \<times> u32) option" where
  "call_table rax dev m fd buf count s =
     (if rax < length system_call_table
      then case system_call_table ! rax of None \<Rightarrow> None | Some f \<Rightarrow> f dev m fd buf count s
      else None)"

definition unistd_write :: "device \<Rightarrow> mem \<Rightarrow> u32 \<Rightarrow> u64 \<Rightarrow> u32 \<Rightarrow> serial \<Rightarrow> (serial \<times> u32) option" where
  "unistd_write = call_table NR_write"

text \<open>The switch to the kernel stack and back: \<open>rsp\<close> is the user's stack pointer.\<close>

definition syscall_enter :: "u64 \<Rightarrow> 'x machine_scheme \<Rightarrow> 'x machine_scheme \<times> u64" where
  "syscall_enter rsp s =
     (let s = kpcr_swapgs s;
          s = kpcr_set_offset s 40 rsp;
          rsp = kpcr_get_offset s 48
      in (kpcr_swapgs s, rsp))"

definition syscall_leave :: "'x machine_scheme \<Rightarrow> 'x machine_scheme \<times> u64" where
  "syscall_leave s =
     (let s = kpcr_swapgs s;
          rsp = kpcr_get_offset s 40
      in (kpcr_swapgs s, rsp))"

section \<open>The other processors\<close>

text \<open>
  The result has the stack pointer that the processor continues with and its number.
  \<open>entry\<close> is the address of syscall_entry.
\<close>

definition x64_ap_main ::
    "lapic_dev \<Rightarrow> u64 \<Rightarrow> idt_state \<Rightarrow> 'x machine_scheme \<Rightarrow> ('x machine_scheme \<times> idt_state \<times> u64 \<times> u32) option" where
  "x64_ap_main dev entry i s = do {
     let i = init_ap_idt i;
     let s = syscall_init entry s;
     let s = ap_local_apic_init dev s;
     let s = lapic_timer_cycle_start (of_nat INTER_ID_LAPIC_TIMER) 5000000 s;
     (s, kpcr) \<leftarrow> kpcr_create dev s;
     s \<leftarrow> init_tss_current_core s;
     let s = kpcr_swapgs s;
     let cpuid = ucast (kpcr_get_offset s 0);
     let rsp = kpcr_get_offset s 24;
     let s = kpcr_swapgs s;
     let s = s\<lparr>kmem := wr32 (kmem s) 0xB000 0\<rparr>;
     Some (s, i\<lparr>if_flag := True\<rparr>, rsp, cpuid)
   }"

section \<open>The bootstrap processor\<close>

record system =
  sys_con :: "u64 console"
  sys_serial :: serial
  sys_idt :: idt_state
  sys_mach :: machine
  sys_tasks :: "u64 list"
  sys_task_lock :: u32

text \<open>What the functions get from outside: the reads of the local APIC and of the counter of processors, and addresses.\<close>

record env =
  lapic_reg :: lapic_dev
  started :: "nat \<Rightarrow> u16"
  handlers :: entries
  idt_addr :: u64
  syscall_addr :: u64
  ap_main_addr :: u64
  thread_names :: "u64 list"
  idle_addr :: u64
  init_addr :: u64

definition x64_kernel_main :: "env \<Rightarrow> system \<Rightarrow> system option" where
  "x64_kernel_main e y = do {
     let con = console_init ((sys_con y)\<lparr>con_mem := kmem (sys_mach y)\<rparr>);
     let s = (sys_mach y)\<lparr>kmem := con_mem con\<rparr>;
     let serial = init_serial (sys_serial y);
     let (m, pm) = mm_init (kmem s, kpm s);
     let s = s\<lparr>kmem := m, kpm := pm\<rparr>;
     let i = init_idt (handlers e) (idt_addr e) (sys_idt y);
     (s, r) \<leftarrow> apic_init (lapic_reg e) s;
     s \<leftarrow> init_tss_current_core s;
     let s = syscall_init (syscall_addr e) s;
     (s, r) \<leftarrow> ap_init (lapic_reg e) (started e) (ap_main_addr e) s;
     t \<leftarrow> task_init \<lparr>kh = kheap.truncate s, g_tasks = sys_tasks y, task_lock = sys_task_lock y\<rparr>
       (thread_names e) (idle_addr e) (init_addr e);
     let s = kheap.extend (kh t) (kheap.more s);
     let s = lapic_timer_cycle_start (of_nat INTER_ID_LAPIC_TIMER) 5000000 s;
     Some \<lparr>sys_con = con, sys_serial = serial, sys_idt = i, sys_mach = s, sys_tasks = g_tasks t, sys_task_lock = task_lock t\<rparr>
   }"

section \<open>The kernel stacks\<close>

lemma swapgs_swapgs: "kpcr_swapgs (kpcr_swapgs s) = s"
  using swapgs_twice [where s = s and m = "kmem s"] by (simp add: kpcr_swapgs_def)

lemma swapgs_fields:
  "msr (kpcr_swapgs s) IA32_GS_BASE = msr s IA32_KERNEL_GS_BASE" "kmem (kpcr_swapgs s) = kmem s"
  by (simp_all add: kpcr_swapgs_def IA32_GS_BASE_def IA32_KERNEL_GS_BASE_def)

lemma syscall_stacks:
  "snd (syscall_enter rsp s) = rd64 (kmem s) (msr s IA32_KERNEL_GS_BASE + 48)"
  "snd (syscall_leave (fst (syscall_enter rsp s))) = rsp"
  using apart_offset_same(2) [of 40 8 48 8 "msr s IA32_KERNEL_GS_BASE"]
  by (simp_all add: syscall_enter_def syscall_leave_def kpcr_set_offset_def kpcr_get_offset_def swapgs_twice swapgs_fields
    rd64_wr64_same rd64_wr64_apart)

lemma tss_room_outside:
  assumes "tss_room s g" "\<forall>x. \<not> heap_owned (kpm s) x \<longrightarrow> kmem s' x = kmem s x" "kpm s' = kpm s" "tss_index s' = tss_index s"
  shows "tss_room s' g"
proof -
  have out: "unat (x - g_gdtr) < 10 \<Longrightarrow> kmem s' x = kmem s x" for x using assms(1,2) by (auto simp: tss_room_def)
  have "10 \<le> unat (y - g_gdtr) \<Longrightarrow> 8 \<le> unat (y - (g_gdtr + 2))" for y using unat_diff_offset [of 10 y g_gdtr 2 8] by simp
  then have "load (kmem s') (g_gdtr + 2) 8 = load (kmem s) (g_gdtr + 2) 8" using out by (intro load_agree) (meson not_le)
  moreover have "load (kmem s') g_gdtr 2 = load (kmem s) g_gdtr 2" using out by (intro load_agree) simp
  ultimately show ?thesis using assms by (simp add: tss_room_def rd64_def rd16_def)
qed

lemma below_apart: "0 < n \<Longrightarrow> n + k \<le> 2 ^ 64 \<Longrightarrow> 0 < k \<Longrightarrow> apart (p - of_nat n) n p k" for p :: u64
  using apart_offset_same(1) [of 0 n n k "p - of_nat n"] by simp

lemma last_word:
  assumes "heap_inv h B" "(q, d) \<in> B"
  shows "unat (q + of_nat (bsize d) - 8 - q) < bsize d"
proof -
  obtain fb hs where "heap_ok h fb hs" "heap_alloc hs = B" using assms(1) by (auto simp: heap_inv_def)
  then have d: "d < 9" using heap_alloc_in assms(2) by metis
  then have b: "16 \<le> bsize d" "bsize d \<le> 4096" using bsize_cases [of d] by auto
  then have "unat (of_nat (bsize d) - 8 :: u64) = bsize d - 8"
    by (subst unat_sub) (simp_all add: word_le_nat_alt unat_of_nat)
  moreover have "q + of_nat (bsize d) - 8 - q = of_nat (bsize d) - 8" by simp
  ultimately show ?thesis using b by simp
qed

text \<open>The set-up before the first allocation of x64_ap_main.\<close>

lemma ap_prepared:
  assumes s0: "s0 = lapic_timer_cycle_start v c (ap_local_apic_init dev (syscall_init entry s))"
  shows "kmem s0 = kmem s" "kpm s0 = kpm s" "bucket_dir s0 = bucket_dir s" "free_bucket_chain s0 = free_bucket_chain s"
    "heap_lock s0 = heap_lock s" "tss_index s0 = tss_index s" "g_kpcrs s0 = g_kpcrs s"
  by (simp_all add: s0 lapic_timer_cycle_start_def timer_start_def ap_local_apic_init_def syscall_init_def write_msr_eq
    lapic_write_def lapic_read_def Let_def)

section \<open>A demonstration state\<close>

text \<open>A machine with the table of the 32-bit kernel at 0x80000, before any allocation.\<close>

definition demo_core :: machine where
  "demo_core = demo_machine\<lparr>kmem := wr64 (wr16 (\<lambda>_. 0) g_gdtr 56) (g_gdtr + 2) 0x80000\<rparr>"

lemma range_bounds:
  fixes x a :: u64
  assumes "unat (x - a) < n" "unat a + n \<le> 2 ^ 64"
  shows "unat a \<le> unat x \<and> unat x < unat a + n"
proof -
  have "unat (a + (x - a)) = (unat a + unat (x - a)) mod 2 ^ 64" using unat_word_ariths(1) [of a "x - a"] by simp
  also have "\<dots> = unat a + unat (x - a)" using assms by simp
  finally have "unat (a + (x - a)) = unat a + unat (x - a)" .
  then show ?thesis using assms(1) by simp
qed

lemma demo_unowned:
  assumes "unat (x - a) < n" "0x510 \<le> unat a" "unat a + n \<le> 0x300000"
  shows "\<not> heap_owned demo_pm x"
  using range_bounds [OF assms(1)] assms(2,3) not_owned_below [OF demo_pm_invar demo_layout, of x]
  by (simp add: demo_pm_def bitmap_make_def)

lemma demo_core_fields: "kpm demo_core = demo_pm" "tss_index demo_core = 7" "length (g_kpcrs demo_core) = 100"
  by (simp_all add: demo_core_def demo_machine_def demo_heap_def kheap.defs TSS_INDEX_def)

lemma demo_core_heap: "heap_inv demo_core {}" "stock 4 demo_core"
proof -
  have f: "heap_inv demo_machine {} = heap_inv demo_heap {} \<and> stock 4 demo_machine = stock 4 demo_heap"
    by (rule heap_inv_fields) (simp_all add: demo_machine_def kheap.defs)
  have "inj_on (page_addr demo_pm) {i. i < bm_nbits (pm_map demo_pm)}"
  proof (rule inj_onI)
    fix i j assume "i \<in> {i. i < bm_nbits (pm_map demo_pm)}" "j \<in> {i. i < bm_nbits (pm_map demo_pm)}" "page_addr demo_pm i = page_addr demo_pm j"
    then have "unat (pm_start demo_pm) + 4096 * i = unat (pm_start demo_pm) + 4096 * j"
      using unat_page_addr [OF demo_pm_invar] by (metis mem_Collect_eq)
    then show "i = j" by linarith
  qed
  then have "card (pm_pages (\<lambda>_. 0, demo_pm)) = 128"
    by (simp add: pm_pages_def card_image demo_pm_def bitmap_make_def bm_nbits_def)
  moreover have "pm_used (\<lambda>_. 0, demo_pm) = {}" by (simp add: pm_used_def bitv_def)
  ultimately have "pages_left demo_heap = 128" by (simp add: pages_left_def demo_heap_def)
  then have "stock 4 demo_heap" using demo_heap_inv(2) [of 4] by (simp add: stock_def)
  then have m: "heap_inv demo_machine {}" "stock 4 demo_machine" using f demo_heap_inv(1) by simp_all
  have "kmem demo_core x = kmem demo_machine x" if "heap_owned (kpm demo_machine) x" for x
  proof -
    have "\<not> unat (x - g_gdtr) < 10" using that demo_unowned [of x g_gdtr 10] by (auto simp: g_gdtr_def demo_machine_def demo_heap_def kheap.defs)
    then have "2 \<le> unat (x - g_gdtr)" "8 \<le> unat (x - (g_gdtr + 2))" using unat_diff_offset [of 10 x g_gdtr 2 8] by auto
    then show ?thesis by (simp add: demo_core_def demo_machine_def demo_heap_def kheap.defs wr64_def wr16_def store_apply_out)
  qed
  note heap_inv_outside(1) [OF m(1) this] heap_inv_outside(3) [OF m(1) this, of 4]
  then show "heap_inv demo_core {}" "stock 4 demo_core" using m(2) by (simp_all add: demo_core_def)
qed

lemma demo_core_stock: "stock (Suc (Suc (Suc (Suc 0)))) demo_core"
  using demo_core_heap(2) by (simp add: eval_nat_numeral)

lemma demo_core_room: "tss_room demo_core 0x80000"
proof -
  let ?m = "wr64 (wr16 (\<lambda>_. 0) g_gdtr 56) (g_gdtr + 2) 0x80000 :: mem"
  have "rd64 ?m (g_gdtr + 2) = 0x80000" by (simp add: rd64_wr64_same)
  moreover have "rd16 ?m g_gdtr = 56"
    using apart_offset_same(1) [of 0 2 2 8 g_gdtr] by (simp add: rd16_def wr64_def wr16_def load_store_apart load_store_same of_le_le_bytes)
  moreover have "\<not> heap_owned demo_pm x" if "unat (x - 0x80000) < 2048 \<or> unat (x - g_gdtr) < 10" for x
    using that demo_unowned [of x "0x80000" 2048] demo_unowned [of x g_gdtr 10] by (auto simp: g_gdtr_def)
  moreover have "apart 0x80000 2048 g_gdtr 10" by (simp add: apart_def g_gdtr_def)
  moreover have "kmem demo_core = ?m" by (simp add: demo_core_def)
  ultimately show ?thesis by (simp add: tss_room_def demo_core_fields)
qed

section \<open>Properties\<close>

text \<open>C37.
  init_tss_current_core gives the processor its own task state segment and kernel
  stack: two new blocks, a descriptor at the place that the task register names and
  that holds the address of the segment, whose stack pointer for ring 0 is the end
  of the new stack; the earlier descriptors and the other blocks stay, and the next
  processor finds the same situation. A system call then starts at the end of that
  stack and comes back with the stack pointer of the user.
\<close>

theorem init_tss_current_core_installs:
  assumes "heap_inv s A" "stock (Suc (Suc n)) s" "tss_room s g" "8 * unat (tss_index s) + 16 \<le> 2048"
    "(msr s IA32_KERNEL_GS_BASE, len_class sizeof_kpcr) \<in> A"
  shows "\<exists>s' tss stack. init_tss_current_core s = Some s' \<and> tss_installed s s' g tss stack \<and>
    tss_room s' g \<and> tss_index s' = tss_index s + 2 \<and> stock n s' \<and>
    tss \<notin> fst ` A \<and> stack \<notin> fst ` insert (tss, len_class sizeof_tss) A \<and>
    heap_inv s' (insert (stack, len_class PAGE_SIZE) (insert (tss, len_class sizeof_tss) A)) \<and>
    same_blocks (A - {(msr s IA32_KERNEL_GS_BASE, len_class sizeof_kpcr)}) (kmem s) (kmem s') \<and>
    snd (syscall_enter rsp s') = stack + 4096 \<and> snd (syscall_leave (fst (syscall_enter rsp s'))) = rsp"
proof -
  obtain s' tss stack where I: "init_tss_current_core s = Some s'" "tss_installed s s' g tss stack" "tss_room s' g"
    "tss_index s' = tss_index s + 2" "msr s' = msr s" "stock n s'" "tss \<notin> fst ` A" "stack \<notin> fst ` insert (tss, len_class sizeof_tss) A"
    "heap_inv s' (insert (stack, len_class PAGE_SIZE) (insert (tss, len_class sizeof_tss) A))"
    "same_blocks (A - {(msr s IA32_KERNEL_GS_BASE, len_class sizeof_kpcr)}) (kmem s) (kmem s')"
    using init_tss_step [OF assms] by metis
  moreover have "snd (syscall_enter rsp s') = stack + 4096" using I(2,5) by (simp add: syscall_stacks tss_installed_def)
  ultimately show ?thesis using syscall_stacks(2) by blast
qed

theorem init_tss_current_core_installs_witness:
  "\<exists>(s :: machine) s' tss stack. init_tss_current_core s = Some s' \<and> tss_installed s s' 0x80000 tss stack \<and> task_reg s' = 56 \<and>
     snd (syscall_enter 0x1234 s') = stack + 4096"
proof -
  obtain cpuid t where id: "get_lapic_id (\<lambda>_ _. 0) demo_core = (cpuid, t)" by fastforce
  have "unat cpuid < length (g_kpcrs demo_core)"
    using id by (auto simp: get_lapic_id_def lapic_read_def demo_core_fields)
  note K = kpcr_create_ok [OF demo_core_heap(1) demo_core_stock id this]
  obtain s :: machine and kpcr st where C: "msr s = (msr demo_core)(IA32_KERNEL_GS_BASE := kpcr)" "tss_index s = tss_index demo_core" "kpm s = kpm demo_core"
    "\<forall>x. \<not> heap_owned (kpm demo_core) x \<longrightarrow> kmem s x = kmem demo_core x" "stock (Suc (Suc 0)) s"
    "heap_inv s (insert (st, len_class PAGE_SIZE) {(kpcr, len_class sizeof_kpcr)})"
    using K by (elim exE conjE) (rule that, assumption+)
  have room: "tss_room s 0x80000" "8 * unat (tss_index s) + 16 \<le> 2048"
    using tss_room_outside [OF demo_core_room C(4,3,2)] C(2) by (simp_all add: demo_core_fields)
  have "(msr s IA32_KERNEL_GS_BASE, len_class sizeof_kpcr) \<in> insert (st, len_class PAGE_SIZE) {(kpcr, len_class sizeof_kpcr)}"
    using C(1) by simp
  from init_tss_current_core_installs [OF C(6,5) room this, of "0x1234"] obtain s' tss stack where
    "init_tss_current_core s = Some s'" "tss_installed s s' 0x80000 tss stack" "snd (syscall_enter 0x1234 s') = stack + 4096" by blast
  moreover from this have "task_reg s' = 56" using C(2) by (simp add: tss_installed_def demo_core_fields)
  ultimately show ?thesis by blast
qed

text \<open>C38.
  x64_ap_main sets the stack pointer of the processor to the first address of the
  4096 bytes it got for its stack, not to their end: whatever is pushed lies outside
  of the block, and the first word pushed lies in the block that ends there, if
  there is one.
\<close>

theorem x64_ap_main_stack:
  assumes "heap_inv s A" "stock (Suc (Suc (Suc (Suc n)))) s" "tss_room s g" "8 * unat (tss_index s) + 16 \<le> 2048"
    and "\<forall>a k. unat (drop_bit 24 (dev a k)) < length (g_kpcrs s)" and "\<forall>x. unat (x - 0xB000) < 4 \<longrightarrow> \<not> heap_owned (kpm s) x"
  shows "\<exists>s' i' rsp cpuid B. x64_ap_main dev entry i s = Some (s', i', rsp, cpuid) \<and> heap_inv s' B \<and> A \<subseteq> B \<and>
    (rsp, len_class PAGE_SIZE) \<in> B - A \<and> (\<forall>k. 0 < k \<and> k + 4096 \<le> 2 ^ 64 \<longrightarrow> apart (rsp - of_nat k) k rsp 4096) \<and>
    (\<forall>(q, d) \<in> B. q + of_nat (bsize d) = rsp \<longrightarrow> unat (rsp - 8 - q) < bsize d)"
proof -
  define s0 where "s0 = lapic_timer_cycle_start (of_nat INTER_ID_LAPIC_TIMER) 5000000 (ap_local_apic_init dev (syscall_init entry s))"
  note P = ap_prepared [OF s0_def]
  have h0: "heap_inv s0 A" "stock (Suc (Suc (Suc (Suc n)))) s0" using heap_inv_fields [OF P(1-5)] assms(1,2) by simp_all
  obtain cpuid t0 where id: "get_lapic_id dev s0 = (cpuid, t0)" by fastforce
  then have "unat cpuid < length (g_kpcrs s0)" using assms(5) P(7) by (auto simp: get_lapic_id_def lapic_read_def)
  from kpcr_create_ok [OF h0 id this] obtain s1 kpcr rsp where
    C: "kpcr_create dev s0 = Some (s1, kpcr)" "msr s1 = (msr s0)(IA32_KERNEL_GS_BASE := kpcr)" "tss_index s1 = tss_index s0" "kpm s1 = kpm s0"
      "\<forall>x. \<not> heap_owned (kpm s0) x \<longrightarrow> kmem s1 x = kmem s0 x" "stock (Suc (Suc n)) s1"
      "rsp \<notin> fst ` insert (kpcr, len_class sizeof_kpcr) A"
      "heap_inv s1 (insert (rsp, len_class PAGE_SIZE) (insert (kpcr, len_class sizeof_kpcr) A))" "rd64 (kmem s1) (kpcr + 24) = rsp"
    by metis
  let ?B1 = "insert (rsp, len_class PAGE_SIZE) (insert (kpcr, len_class sizeof_kpcr) A)"
  have "tss_room s1 g" using tss_room_outside [OF assms(3), of s1] C(3-5) P by simp
  then have pre: "heap_inv s1 ?B1" "stock (Suc (Suc n)) s1" "tss_room s1 g" "8 * unat (tss_index s1) + 16 \<le> 2048"
    "(msr s1 IA32_KERNEL_GS_BASE, len_class sizeof_kpcr) \<in> ?B1"
    using C assms(4) P(6) by simp_all
  from init_tss_step [OF pre] obtain s2 tss stack where
    D: "init_tss_current_core s1 = Some s2" "msr s2 = msr s1" "heap_inv s2 (insert (stack, len_class PAGE_SIZE) (insert (tss, len_class sizeof_tss) ?B1))"
      "load (kmem s2) (msr s1 IA32_KERNEL_GS_BASE) 48 = load (kmem s1) (msr s1 IA32_KERNEL_GS_BASE) 48" "kpm s2 = kpm s1"
    by metis
  let ?B = "insert (stack, len_class PAGE_SIZE) (insert (tss, len_class sizeof_tss) ?B1)" and ?m = "wr32 (kmem s2) 0xB000 0"
  have "rd64 (kmem s2) (kpcr + 24) = rsp" using load_part [OF D(4), of 24 8] C(2,9) by (simp add: rd64_def)
  then have "kpcr_get_offset (kpcr_swapgs s2) 24 = rsp" by (simp add: kpcr_get_offset_def swapgs_fields D(2) C(2))
  then have run: "x64_ap_main dev entry i s = Some (s2\<lparr>kmem := ?m\<rparr>, (init_ap_idt i)\<lparr>if_flag := True\<rparr>, rsp, ucast (kpcr_get_offset (kpcr_swapgs s2) 0))"
    unfolding x64_ap_main_def Let_def s0_def [symmetric] C(1) bind.simps prod.case D(1) swapgs_swapgs by simp
  have "?m x = kmem s2 x" if "heap_owned (kpm s2) x" for x
  proof -
    have "4 \<le> unat (x - 0xB000)" using that assms(6) C(4) D(5) P(2) by (metis not_le)
    then show ?thesis by (simp add: wr32_def store_apply_out)
  qed
  then have inv: "heap_inv (s2\<lparr>kmem := ?m\<rparr>) ?B" by (intro heap_inv_outside [OF D(3)])
  have last: "\<forall>(q, d) \<in> ?B. q + of_nat (bsize d) = rsp \<longrightarrow> unat (rsp - 8 - q) < bsize d"
  proof (rule ballI)
    fix x assume x: "x \<in> ?B"
    obtain q d where qd: "x = (q, d)" by (cases x)
    from last_word [OF inv x [unfolded qd]] show "case x of (q, d) \<Rightarrow> q + of_nat (bsize d) = rsp \<longrightarrow> unat (rsp - 8 - q) < bsize d"
      unfolding qd by auto
  qed
  have new: "(rsp, len_class PAGE_SIZE) \<in> ?B - A" using C(7) by force
  have sub: "A \<subseteq> ?B" by blast
  have below: "\<forall>k. 0 < k \<and> k + 4096 \<le> 2 ^ 64 \<longrightarrow> apart (rsp - of_nat k) k rsp 4096" using below_apart by simp
  show ?thesis by (intro exI conjI, rule run, rule inv, rule sub, rule new, rule below, rule last)
qed

theorem x64_ap_main_stack_witness:
  "\<exists>s' i' rsp cpuid. x64_ap_main (\<lambda>_ _. 0) 0x5000 demo_idt demo_core = Some (s', i', rsp, cpuid) \<and> apart (rsp - of_nat 8) 8 rsp 4096"
proof -
  have pre: "8 * unat (tss_index demo_core) + 16 \<le> 2048" "\<forall>a k. unat (drop_bit 24 ((\<lambda>_ _. 0 :: u32) a k)) < length (g_kpcrs demo_core)"
    "\<forall>x. unat (x - 0xB000) < 4 \<longrightarrow> \<not> heap_owned (kpm demo_core) x"
    using demo_unowned [where a = "0xB000" and n = 4] by (simp_all add: demo_core_fields)
  obtain s' i' rsp cpuid where R: "x64_ap_main (\<lambda>_ _. 0) 0x5000 demo_idt demo_core = Some (s', i', rsp, cpuid)"
      "\<forall>k. 0 < k \<and> k + 4096 \<le> 2 ^ 64 \<longrightarrow> apart (rsp - of_nat k) k rsp 4096"
    using x64_ap_main_stack [OF demo_core_heap(1) demo_core_stock demo_core_room pre(1), of "\<lambda>_ _. 0", OF pre(2,3), of "0x5000" demo_idt]
    by (elim exE conjE) (rule that; assumption)
  have "0 < (8 :: nat) \<and> 8 + 4096 \<le> (2 :: nat) ^ 64" by simp
  then show ?thesis using R by blast
qed

end
