(* ===== verification/Stdio32.thy ===== *)
theory Stdio32
  imports Task32 Vsprintf Console
begin

text \<open>
  Output of the 32-bit kernel: printk and print_mem (x86_kernel/kernel/printk.c),
  printf (lib/stdio.c), the system call behind it (lib/write.c with the macro
  _syscall3 of include/lib/unistd.h, kernel/syscall.c, and syscall_handle of
  kernel/asm/int_isr.asm). The memory is that of the console. A variadic call finds
  its format at \<open>frame\<close> and its arguments behind it.
\<close>

section \<open>In the kernel\<close>

definition printk :: "u32 \<Rightarrow> u32 \<Rightarrow> u32 console \<Rightarrow> (u32 console \<times> u32) option" where
  "printk buff frame c = do {
     (m, ret) \<leftarrow> x86_vsprintf (con_mem c) buff (rd32 (con_mem c) frame) (frame + 4);
     Some (x86_console_write (c\<lparr>con_mem := m\<rparr>) buff ret, ret)
   }"

text \<open>A call pushes its arguments from the last to the first, the format, below the stack pointer.\<close>

fun push_args :: "u32 \<Rightarrow> u32 list \<Rightarrow> mem32 \<Rightarrow> mem32" where
  "push_args esp [] m = m"
| "push_args esp (a # as) m = wr32 (push_args esp as m) (esp - 4 * of_nat (length (a # as))) a"

definition call_printk :: "u32 \<Rightarrow> u32 \<Rightarrow> u32 list \<Rightarrow> u32 console \<Rightarrow> u32 console option" where
  "call_printk buff esp args c =
     map_option fst (printk buff (esp - 4 * of_nat (length args)) (c\<lparr>con_mem := push_args esp args (con_mem c)\<rparr>))"

fun print_mem_loop :: "u32 \<Rightarrow> u32 \<Rightarrow> u32 \<Rightarrow> u32 \<Rightarrow> nat \<Rightarrow> u32 console \<Rightarrow> u32 console option" where
  "print_mem_loop buff esp fmt pos 0 c = Some c"
| "print_mem_loop buff esp fmt pos (Suc left) c =
     Option.bind (call_printk buff esp [fmt, ucast (con_mem c pos)] c) (print_mem_loop buff esp fmt (pos + 1) left)"

text \<open>The addresses of the three formats are arguments.\<close>

definition print_mem :: "u32 \<Rightarrow> u32 \<Rightarrow> u32 \<times> u32 \<times> u32 \<Rightarrow> u32 \<Rightarrow> int \<Rightarrow> u32 \<Rightarrow> u32 console \<Rightarrow> u32 console option" where
  "print_mem buff esp fmts pos sz str c = do {
     let (open, byte, close) = fmts;
     c \<leftarrow> call_printk buff esp [open, str] c;
     c \<leftarrow> print_mem_loop buff esp byte pos (nat sz) c;
     call_printk buff esp [close] c
   }"

section \<open>System calls\<close>

definition x86_sys_write :: "u32 \<Rightarrow> u32 \<Rightarrow> u32 \<Rightarrow> u32 console \<Rightarrow> u32 console \<times> u32" where
  "x86_sys_write fd buf count c = (x86_console_write c buf count, 0)"

definition x86_SYSTEM_CALL_NUMS :: nat where "x86_SYSTEM_CALL_NUMS = 128"

definition x86_system_call_table :: "(u32 \<Rightarrow> u32 \<Rightarrow> u32 \<Rightarrow> u32 console \<Rightarrow> u32 console \<times> u32) option list" where
  "x86_system_call_table = Some x86_sys_write # replicate (x86_SYSTEM_CALL_NUMS - 1) None"

text \<open>
  syscall_handle: the registers go to the context of the current task, the function
  is called, and the registers come back from the context. The result of the
  function, in eax, is overwritten with the saved eax. An entry that is null or
  outside of the table does not return.
\<close>

definition syscall_handle :: "u32 \<Rightarrow> scene \<Rightarrow> u32 console \<Rightarrow> (u32 console \<times> u32) option" where
  "syscall_handle current sc c = do {
     let m = save_registers sc current (con_mem c);
     let m = set32 current C_ss (sc_ss sc) (set32 current C_esp (sc_esp sc) (set32 current C_cs (sc_cs sc) m));
     let eax = get32 m current C_eax;
     f \<leftarrow> (if unat eax < length x86_system_call_table then x86_system_call_table ! unat eax else None);
     let (c, ret) = f (get32 m current C_ebx) (get32 m current C_ecx) (get32 m current C_edx) (c\<lparr>con_mem := m\<rparr>);
     Some (c, get32 (con_mem c) current C_eax)
   }"

definition NR_write32 :: u32 where "NR_write32 = 0"
definition STDOUT_FILENO :: u32 where "STDOUT_FILENO = 1"

text \<open>\<open>errno\<close> is part of the result; the other registers of the caller are those of \<open>sc\<close>.\<close>

definition syscall3 :: "u32 \<Rightarrow> u32 \<Rightarrow> scene \<Rightarrow> u32 \<Rightarrow> u32 \<Rightarrow> u32 \<Rightarrow> u32 \<times> u32 console \<Rightarrow> ((u32 \<times> u32 console) \<times> u32) option" where
  "syscall3 nr current sc a b d ec = do {
     let (errno, c) = ec;
     (c, res) \<leftarrow> syscall_handle current (sc\<lparr>sc_eax := nr, sc_ebx := a, sc_ecx := b, sc_edx := d\<rparr>) c;
     Some (if 0 \<le> sint res then ((errno, c), res) else ((- res, c), - 1))
   }"

definition x86_write :: "u32 \<Rightarrow> scene \<Rightarrow> u32 \<Rightarrow> u32 \<Rightarrow> u32 \<Rightarrow> u32 \<times> u32 console \<Rightarrow> ((u32 \<times> u32 console) \<times> u32) option" where
  "x86_write = syscall3 NR_write32"

definition printf :: "u32 \<Rightarrow> scene \<Rightarrow> u32 \<Rightarrow> u32 \<Rightarrow> u32 \<times> u32 console \<Rightarrow> ((u32 \<times> u32 console) \<times> u32) option" where
  "printf current sc buf frame ec = do {
     let (errno, c) = ec;
     (m, i) \<leftarrow> x86_vsprintf (con_mem c) buf (rd32 (con_mem c) frame) (frame + 4);
     (ec, r) \<leftarrow> x86_write current sc STDOUT_FILENO buf i (errno, c\<lparr>con_mem := m\<rparr>);
     Some (ec, i)
   }"

end
