(* ===== verification/NetCheck.thy ===== *)
theory NetCheck
  imports Prelude
begin

text \<open>
  The checksums of the user-space protocol stack (netstack/utils/util.cpp): the
  program runs on a little-endian host, so that a 16-bit word of memory is read with
  its first byte as the lower one, and htons and ntohs swap the bytes. The buffers
  are lists of bytes. The lemmas relate both routines to the one's complement sum,
  addition modulo 65535 with the end-around carry.
\<close>

section \<open>Byte order\<close>

definition htons :: "u16 \<Rightarrow> u16" where
  "htons x = push_bit 8 x OR drop_bit 8 x"

abbreviation "ntohs \<equiv> htons"

definition htonl :: "u32 \<Rightarrow> u32" where
  "htonl x = of_le (rev (le_bytes 4 x))"

abbreviation "ntohl \<equiv> htonl"

section \<open>The routines\<close>

text \<open>\<open>while (sum >> 16) sum = (sum & 0xFFFF) + (sum >> 16);\<close>\<close>

lemma fold_step:
  fixes s :: u32
  shows "unat ((s AND 0xFFFF) + drop_bit 16 s) = unat s mod 65536 + unat s div 65536"
proof -
  have "unat (s AND 0xFFFF) = unat s mod 65536" using unat_and_mask [of s 16] by (simp add: mask_eq_exp_minus_1)
  moreover have "unat (drop_bit 16 s) = unat s div 65536" using unat_drop_bit [of 16 s] by simp
  moreover have "unat s mod 65536 < 65536" "unat s div 65536 < 65536" using unat_lt [of s] by simp_all
  then have "unat s mod 65536 + unat s div 65536 < 4294967296" by linarith
  ultimately show ?thesis by (simp add: unat_word_ariths)
qed

lemma high_half_zero: "drop_bit 16 s = 0 \<longleftrightarrow> unat s < 65536" for s :: u32
  using unat_drop_bit [of 16 s] by (simp add: unat_eq_zero [symmetric] div_eq_0_iff)

function fold_sum :: "u32 \<Rightarrow> u32" where
  "fold_sum s = (if drop_bit 16 s \<noteq> 0 then fold_sum ((s AND 0xFFFF) + drop_bit 16 s) else s)"
  by pat_completeness auto
termination
proof (relation "measure unat")
  fix s :: u32
  assume "drop_bit 16 s \<noteq> 0"
  then have "65536 \<le> unat s" by (simp add: high_half_zero)
  moreover have "unat s = 65536 * (unat s div 65536) + unat s mod 65536" by simp
  ultimately have "unat s mod 65536 + unat s div 65536 < unat s" by linarith
  then show "((s AND 0xFFFF) + drop_bit 16 s, s) \<in> measure unat" by (simp add: fold_step)
qed simp

declare fold_sum.simps [simp del]

text \<open>The first loop of ip_checksum, with the last byte of an odd length.\<close>

fun sum_words :: "u8 list \<Rightarrow> u32 \<Rightarrow> u32" where
  "sum_words (a # b # data) s = sum_words data (s + ucast (of_le [a, b] :: u16))"
| "sum_words [a] s = s + ucast a"
| "sum_words [] s = s"

definition ip_checksum :: "u8 list \<Rightarrow> u16" where
  "ip_checksum data = ucast (NOT (fold_sum (sum_words data 0)))"

text \<open>The loop of tcp_checksum over the words in network order.\<close>

fun sum_net_words :: "u8 list \<Rightarrow> u32 \<Rightarrow> u32" where
  "sum_net_words (a # b # data) s = sum_net_words data (s + ucast (ntohs (of_le [a, b])))"
| "sum_net_words _ s = s"

text \<open>\<open>alloc\<close> says whether malloc succeeds; the buffer is one byte too short for the padding, which is written all the same.\<close>

definition tcp_checksum :: "bool \<Rightarrow> u8 list \<Rightarrow> u8 list \<Rightarrow> u8 list \<Rightarrow> u8 list \<Rightarrow> u16" where
  "tcp_checksum alloc pseudo_header tcp_header options data =
     (if \<not> alloc then 0
      else let packet = pseudo_header @ tcp_header @ options @ data;
               packet = (if odd (length packet) then packet @ [0] else packet)
           in ucast (NOT (fold_sum (sum_net_words packet 0))))"

section \<open>The one's complement sum\<close>

text \<open>The sum of the words of a buffer, as a number.\<close>

fun words_sum :: "u8 list \<Rightarrow> nat" where
  "words_sum (a # b # data) = unat a + 256 * unat b + words_sum data"
| "words_sum [a] = unat a"
| "words_sum [] = 0"

text \<open>The addition of RFC 1071, with the carry added at the other end, and the sum of a buffer under it.\<close>

definition end_around :: "nat \<Rightarrow> nat \<Rightarrow> nat" where
  "end_around x y = (if x + y < 65536 then x + y else x + y - 65535)"

fun ones_sum :: "u8 list \<Rightarrow> nat" where
  "ones_sum (a # b # data) = end_around (unat a + 256 * unat b) (ones_sum data)"
| "ones_sum [a] = unat a"
| "ones_sum [] = 0"

text \<open>The representative of a class modulo 65535 that the sums use: 0 only for 0.\<close>

definition ones_rep :: "nat \<Rightarrow> nat" where
  "ones_rep n = (if n = 0 then 0 else (n - 1) mod 65535 + 1)"

lemma ones_rep_le: "ones_rep n \<le> 65535"
  by (simp add: ones_rep_def Suc_le_eq)

lemma ones_rep_id: "n \<le> 65535 \<Longrightarrow> ones_rep n = n"
  by (auto simp: ones_rep_def)

lemma ones_rep_step: "65535 < n \<Longrightarrow> ones_rep (n - 65535) = ones_rep n"
  using le_mod_geq [of 65535 "n - 1"] by (auto simp: ones_rep_def)

lemma ones_rep_cong: "0 < m \<Longrightarrow> 0 < n \<Longrightarrow> m mod 65535 = n mod 65535 \<Longrightarrow> ones_rep m = ones_rep n"
proof -
  assume a: "0 < m" "0 < n" "m mod 65535 = n mod 65535"
  have "(k - 1) mod 65535 = (k mod 65535 + 65534) mod 65535" if "0 < k" for k :: nat
  proof -
    have "(k mod 65535 + 65534) mod 65535 = (k + 65534) mod 65535" by (rule mod_add_left_eq)
    also have "\<dots> = (k - 1 + 65535) mod 65535" using that by (simp add: add.commute)
    also have "\<dots> = (k - 1) mod 65535" by (rule mod_add_self2)
    finally show ?thesis by simp
  qed
  then show ?thesis using a by (simp add: ones_rep_def)
qed

lemma ones_rep_mod: "ones_rep n mod 65535 = n mod 65535"
proof (cases "n = 0")
  case False
  then have "((n - 1) mod 65535 + 1) mod 65535 = (n - 1 + 1) mod 65535" by (simp only: mod_add_left_eq)
  then show ?thesis using False by (simp add: ones_rep_def)
qed (simp add: ones_rep_def)

lemma ones_rep_pos: "0 < ones_rep n \<longleftrightarrow> 0 < n"
  by (simp add: ones_rep_def)

text \<open>The fold of the carries computes the representative.\<close>

lemma fold_sum_rep: "unat (fold_sum s) = ones_rep (unat s)"
proof (induction s rule: fold_sum.induct)
  case (1 s)
  show ?case
  proof (cases "unat s < 65536")
    case True
    then show ?thesis by (simp add: fold_sum.simps [of s] high_half_zero ones_rep_id)
  next
    case False
    let ?t = "unat s mod 65536 + unat s div 65536"
    have s: "unat s = 65536 * (unat s div 65536) + unat s mod 65536" by simp
    then have "65535 * (unat s div 65536) + ?t = unat s" by linarith
    then have "?t mod 65535 = unat s mod 65535" by (metis mod_mult_self4)
    moreover have "0 < ?t" using False s by linarith
    ultimately have "ones_rep ?t = ones_rep (unat s)" using False by (intro ones_rep_cong) simp_all
    then show ?thesis using False 1 by (simp add: fold_sum.simps [of s] high_half_zero fold_step)
  qed
qed

section \<open>The sums of a buffer\<close>

lemma unat_of_le2: "unat (of_le [a, b] :: u16) = unat a + 256 * unat b"
proof -
  have "of_le [a, b] = (ucast a + ucast b * 256 :: u16)"
  proof -
    have "bit (ucast a AND push_bit 8 (ucast b) :: u16) n = False" for n
      using bit_imp_le_length [of a n] by (auto simp: bit_and_iff bit_push_bit_iff bit_unsigned_iff)
    then have "ucast a AND push_bit 8 (ucast b) = (0 :: u16)" by (intro bit_eqI) simp
    then have "ucast a OR push_bit 8 (ucast b) = (ucast a + push_bit 8 (ucast b) :: u16)" by (rule disjunctive_add_eq_or [symmetric])
    then show ?thesis by (simp add: push_bit_eq_mult)
  qed
  moreover have "unat a < 256" "unat b < 256" using unat_lt [of a] unat_lt [of b] by simp_all
  ultimately show ?thesis by (simp add: unat_word_ariths unsigned_ucast_eq take_bit_nat_eq_self)
qed

lemma words_sum_le: "words_sum bs \<le> 65535 * (Suc (length bs) div 2)"
proof (induction bs rule: words_sum.induct)
  case (1 a b data)
  then show ?case using unat_lt [of a] unat_lt [of b] by simp
next
  case (2 a)
  then show ?case using unat_lt [of a] by simp
qed simp

lemma words_sum_small: "length bs \<le> 131074 \<Longrightarrow> words_sum bs < 2 ^ 32"
proof -
  assume "length bs \<le> 131074"
  then have "Suc (length bs) div 2 \<le> 65537" by simp
  then show ?thesis using words_sum_le [of bs] by simp
qed

lemma sum_words_value: "unat s + words_sum bs < 2 ^ 32 \<Longrightarrow> unat (sum_words bs s) = unat s + words_sum bs"
proof (induction bs s rule: sum_words.induct)
  case (1 a b data s)
  let ?w = "ucast (of_le [a, b] :: u16) :: u32"
  have "unat ?w = unat a + 256 * unat b"
    using unat_lt [of a] unat_lt [of b] by (simp add: unsigned_ucast_eq take_bit_nat_eq_self unat_of_le2 del: of_le.simps)
  moreover from this have "unat (s + ?w) = unat s + (unat a + 256 * unat b)" using 1(2) by (simp add: unat_word_ariths del: of_le.simps)
  ultimately show ?case using 1 by (simp del: of_le.simps)
next
  case (2 a s)
  have "unat (ucast a :: u32) = unat a" using unat_lt [of a] by (simp add: unsigned_ucast_eq take_bit_nat_eq_self)
  then show ?case using 2 by (simp add: unat_word_ariths)
qed simp

lemma complement_value:
  fixes w :: u32
  assumes "unat w \<le> 65535"
  shows "unat (ucast (NOT w) :: u16) = 65535 - unat w"
proof -
  have n: "ucast (NOT w) = NOT (ucast w :: u16)" by (rule bit_eqI) (simp add: bit_unsigned_iff bit_not_iff)
  have "unat (ucast w :: u16) = unat w" using assms by (simp add: unsigned_ucast_eq take_bit_nat_eq_self)
  moreover have m: "unat (- 1 :: u16) = 65535" by (simp add: unsigned_minus_1_eq_mask mask_eq_exp_minus_1)
  have "unat (- 1 - ucast w :: u16) = 65535 - unat (ucast w :: u16)"
    using m unat_lt [of "ucast w :: u16"] by (subst unat_sub) (simp_all add: word_le_nat_alt)
  moreover have "NOT (ucast w :: u16) = - 1 - ucast w" by (simp add: not_eq_complement)
  ultimately show ?thesis unfolding n by metis
qed

lemma ip_checksum_value: "length bs \<le> 131074 \<Longrightarrow> unat (ip_checksum bs) = 65535 - ones_rep (words_sum bs)"
  using words_sum_small [of bs] sum_words_value [of 0 bs]
  by (simp add: ip_checksum_def complement_value fold_sum_rep ones_rep_le)

lemma ones_rep_add: "end_around (ones_rep m) (ones_rep n) = ones_rep (m + n)"
proof (cases "m = 0 \<or> n = 0")
  case True
  then show ?thesis using ones_rep_le [of m] ones_rep_le [of n] by (auto simp: end_around_def ones_rep_def)
next
  case False
  let ?t = "ones_rep m + ones_rep n"
  have "?t mod 65535 = (m + n) mod 65535" using ones_rep_mod [of m] ones_rep_mod [of n] by (metis mod_add_eq)
  then have r: "ones_rep ?t = ones_rep (m + n)" using False ones_rep_pos [of m] by (intro ones_rep_cong) simp_all
  show ?thesis
  proof (cases "?t < 65536")
    case True
    then show ?thesis using r by (simp add: end_around_def ones_rep_id)
  next
    case F: False
    then have "ones_rep (?t - 65535) = ones_rep ?t" by (intro ones_rep_step) simp
    then show ?thesis using F r ones_rep_le [of m] ones_rep_le [of n] by (simp add: end_around_def ones_rep_id)
  qed
qed

lemma ones_sum_rep: "ones_sum bs = ones_rep (words_sum bs)"
proof (induction bs rule: ones_sum.induct)
  case (1 a b data)
  have "ones_rep (unat a + 256 * unat b) = unat a + 256 * unat b"
    using unat_lt [of a] unat_lt [of b] by (intro ones_rep_id) simp
  then show ?case using 1 ones_rep_add [of "unat a + 256 * unat b" "words_sum data"] by simp
next
  case (2 a)
  then show ?case using unat_lt [of a] by (simp add: ones_rep_id)
qed (simp add: ones_rep_def)

section \<open>Byte order does not matter\<close>

fun net_sum :: "u8 list \<Rightarrow> nat" where
  "net_sum (a # b # data) = 256 * unat a + unat b + net_sum data"
| "net_sum _ = 0"

lemma unat_htons: "unat (htons x) = 256 * (unat x mod 256) + unat x div 256"
proof -
  have "bit (push_bit 8 x AND drop_bit 8 x) n = False" for n
    using bit_imp_le_length [of x "n + 8"] by (auto simp: bit_and_iff bit_push_bit_iff bit_drop_bit_eq add.commute)
  then have "push_bit 8 x AND drop_bit 8 x = 0" by (intro bit_eqI) simp
  then have "htons x = push_bit 8 x + drop_bit 8 x" by (simp add: htons_def disjunctive_add_eq_or)
  moreover have "unat (push_bit 8 x) = 256 * (unat x mod 256)"
    by (simp add: push_bit_eq_mult unat_word_ariths mult_mod_right mult.commute)
  moreover have "unat (drop_bit 8 x) = unat x div 256" using unat_drop_bit [of 8 x] by simp
  moreover have "unat x div 256 < 256" "unat x mod 256 < 256" using unat_lt [of x] by simp_all
  then have "256 * (unat x mod 256) + unat x div 256 < 65536" by linarith
  ultimately show ?thesis by (simp add: unat_word_ariths)
qed

lemma htons_htons [simp]: "htons (htons x) = x"
  by (rule bit_eqI) (auto simp: htons_def bit_or_iff bit_push_bit_iff bit_drop_bit_eq dest: bit_imp_le_length)

lemma htonl_htonl [simp]: "htonl (htonl x) = x"
  using le_bytes_of_le [where 'b = 32, of "rev (le_bytes 4 x)"] by (simp add: htonl_def of_le_le_bytes)

lemma htons_not: "htons (NOT x) = NOT (htons x)"
  by (rule bit_eqI) (auto simp: htons_def bit_or_iff bit_push_bit_iff bit_drop_bit_eq bit_not_iff bit_and_iff dest: bit_imp_le_length)

lemma net_sum_le: "net_sum bs \<le> 65535 * (length bs div 2)"
proof (induction bs rule: net_sum.induct)
  case (1 a b data)
  then show ?case using unat_lt [of a] unat_lt [of b] by simp
qed simp_all

lemma net_sum_mod: "even (length bs) \<Longrightarrow> net_sum bs mod 65535 = (256 * words_sum bs) mod 65535 \<and> (net_sum bs = 0 \<longleftrightarrow> words_sum bs = 0)"
proof (induction bs rule: net_sum.induct)
  case (1 a b data)
  have "(256 * (unat a + 256 * unat b)) mod 65535 = (65535 * unat b + (256 * unat a + unat b)) mod 65535" by (simp add: algebra_simps)
  also have "\<dots> = (256 * unat a + unat b) mod 65535" by (rule mod_mult_self4)
  finally have "(256 * unat a + unat b) mod 65535 = (256 * (unat a + 256 * unat b)) mod 65535" by simp
  moreover have "net_sum data mod 65535 = (256 * words_sum data) mod 65535" using 1 by simp
  ultimately have "(256 * unat a + unat b + net_sum data) mod 65535 = (256 * (unat a + 256 * unat b) + 256 * words_sum data) mod 65535"
    by (rule mod_add_cong)
  then show ?case using 1 by (simp add: distrib_left)
qed simp_all

lemma sum_net_words_value: "unat s + net_sum bs < 2 ^ 32 \<Longrightarrow> unat (sum_net_words bs s) = unat s + net_sum bs"
proof (induction bs s rule: sum_net_words.induct)
  case (1 a b data s)
  let ?w = "ucast (ntohs (of_le [a, b])) :: u32"
  have "unat a < 256" "unat b < 256" using unat_lt [of a] unat_lt [of b] by simp_all
  then have "unat ?w = 256 * unat a + unat b"
    by (simp add: unsigned_ucast_eq take_bit_nat_eq_self unat_htons unat_of_le2 del: of_le.simps)
  moreover from this have "unat (s + ?w) = unat s + (256 * unat a + unat b)" using 1(2) by (simp add: unat_word_ariths del: of_le.simps)
  ultimately show ?case using 1 by (simp del: of_le.simps)
qed simp_all

text \<open>Multiplication by 256 swaps the bytes of a representative.\<close>

lemma rep_swap:
  assumes "k \<le> 65535"
  shows "ones_rep (256 * k) = 256 * (k mod 256) + k div 256"
proof (cases "k = 0")
  case False
  let ?t = "256 * (k mod 256) + k div 256"
  have k: "k = 256 * (k div 256) + k mod 256" by simp
  then have "256 * k = 65535 * (k div 256) + ?t" by linarith
  then have "(256 * k) mod 65535 = ?t mod 65535" by (metis mod_mult_self4)
  moreover have "0 < ?t" using False k by linarith
  ultimately have "ones_rep (256 * k) = ones_rep ?t" using False by (intro ones_rep_cong) simp_all
  moreover have "k div 256 < 256" "k mod 256 < 256" using assms by simp_all
  then have "?t \<le> 65535" by linarith
  ultimately show ?thesis by (simp add: ones_rep_id)
qed (simp add: ones_rep_def)

lemma words_sum_append: "even (length bs) \<Longrightarrow> words_sum (bs @ cs) = words_sum bs + words_sum cs"
  by (induction bs rule: words_sum.induct) auto

lemma words_sum_pad: "odd (length bs) \<Longrightarrow> words_sum (bs @ [0]) = words_sum bs"
  by (induction bs rule: words_sum.induct) auto

lemma ip_checksum_rep: "length bs \<le> 131074 \<Longrightarrow> ip_checksum bs = NOT (of_nat (ones_rep (words_sum bs)))"
proof -
  assume l: "length bs \<le> 131074"
  have "ip_checksum bs = NOT (ucast (fold_sum (sum_words bs 0)))"
    unfolding ip_checksum_def by (rule bit_eqI) (simp add: bit_unsigned_iff bit_not_iff)
  moreover have "unat (fold_sum (sum_words bs 0)) = ones_rep (words_sum bs)"
    using words_sum_small [OF l] sum_words_value [of 0 bs] by (simp add: fold_sum_rep)
  ultimately show ?thesis by (metis of_nat_unat)
qed

lemma tcp_checksum_swap:
  assumes "length (p @ t @ opts @ d) \<le> 131074"
  shows "htons (tcp_checksum True p t opts d) = ip_checksum (p @ t @ opts @ d)"
proof -
  let ?bs = "p @ t @ opts @ d"
  define P where "P = (if odd (length ?bs) then ?bs @ [0] else ?bs)"
  have P: "even (length P)" "words_sum P = words_sum ?bs" "length P \<le> 131074"
    using assms words_sum_pad [of ?bs] by (auto simp: P_def) presburger+
  let ?w = "of_nat (ones_rep (words_sum P)) :: u16"
  have w: "unat ?w = ones_rep (words_sum P)" using ones_rep_le [of "words_sum P"] by (simp add: unat_of_nat_less)
  have "length P div 2 \<le> 65537" using P(3) by simp
  then have "net_sum P < 2 ^ 32" using net_sum_le [of P] by simp
  then have f: "unat (fold_sum (sum_net_words P 0)) = ones_rep (net_sum P)"
    using sum_net_words_value [of 0 P] by (simp add: fold_sum_rep)
  also have "\<dots> = ones_rep (256 * ones_rep (words_sum P))"
  proof (cases "words_sum P = 0")
    case False
    then have pos: "0 < net_sum P" "0 < 256 * ones_rep (words_sum P)" using net_sum_mod [OF P(1)] ones_rep_pos [of "words_sum P"] by auto
    have "net_sum P mod 65535 = (256 * ones_rep (words_sum P)) mod 65535"
      using net_sum_mod [OF P(1)] mod_mult_cong [OF refl ones_rep_mod [of "words_sum P"], of 256] by simp
    then show ?thesis by (rule ones_rep_cong [OF pos])
  qed (use net_sum_mod [OF P(1)] in \<open>simp add: ones_rep_def\<close>)
  also have "\<dots> = unat (htons ?w)" unfolding unat_htons w by (rule rep_swap) (rule ones_rep_le)
  finally have "ucast (fold_sum (sum_net_words P 0)) = htons ?w" by (metis of_nat_unat unsigned_ucast_eq ucast_id)
  moreover have "ucast (NOT v) = NOT (ucast v :: u16)" for v :: u32 by (rule bit_eqI) (simp add: bit_unsigned_iff bit_not_iff)
  ultimately have "tcp_checksum True p t opts d = NOT (htons ?w)" by (simp add: tcp_checksum_def Let_def P_def)
  then show ?thesis using assms P(2) by (simp add: htons_not ip_checksum_rep)
qed

text \<open>A checksum put into an even place of the buffer, where it was 0, makes the checksum of the whole 0.\<close>

lemma checksum_verifies:
  assumes "even (length pre)" "length (pre @ [0, 0] @ post) \<le> 131074"
  shows "ip_checksum (pre @ le_bytes 2 (ip_checksum (pre @ [0, 0] @ post)) @ post) = 0"
proof -
  let ?c = "ip_checksum (pre @ [0, 0] @ post)" and ?n = "words_sum pre + words_sum post"
  have n: "words_sum (pre @ [0, 0] @ post) = ?n" using assms(1) words_sum_append [of pre "[0, 0] @ post"] by simp
  have "of_le (le_bytes 2 ?c) = ?c" by (rule of_le_le_bytes) simp
  moreover obtain a b where ab: "le_bytes 2 ?c = [a, b]" by (simp add: le_bytes_def upt_rec)
  ultimately have "unat a + 256 * unat b = unat ?c" using unat_of_le2 [of a b] by simp
  then have "words_sum (pre @ [a, b] @ post) = ?n + (65535 - ones_rep ?n)"
    using assms words_sum_append [of pre "[a, b] @ post"] ip_checksum_value [OF assms(2)] n by simp
  moreover have "ones_rep (?n + (65535 - ones_rep ?n)) = 65535"
  proof -
    let ?r = "ones_rep ?n"
    have "(?n + (65535 - ?r)) mod 65535 = (?r + (65535 - ?r)) mod 65535" using ones_rep_mod [of ?n] by (metis mod_add_left_eq)
    also have "?r + (65535 - ?r) = 65535" using ones_rep_le [of ?n] by simp
    finally have m: "(?n + (65535 - ?r)) mod 65535 = 65535 mod 65535" .
    have "0 < ?n + (65535 - ?r)" using ones_rep_pos [of ?n] ones_rep_le [of ?n] by (cases "?n = 0") (simp_all add: ones_rep_def)
    then have "ones_rep (?n + (65535 - ?r)) = ones_rep 65535" using m by (intro ones_rep_cong) simp_all
    then show ?thesis by (simp add: ones_rep_id)
  qed
  ultimately have "unat (ip_checksum (pre @ [a, b] @ post)) = 0" using assms(2) by (simp add: ip_checksum_value)
  then show ?thesis using ab by (simp add: unat_eq_zero)
qed

section \<open>Properties\<close>

text \<open>C26.
  ip_checksum is the complement of the sum of the 16-bit words with end-around carry
  that RFC 1071 prescribes, an odd last byte included, although it adds in 32 bits
  and folds the carries at the end; tcp_checksum, which adds the words in network
  order and pads an odd length, gives the same checksum with its bytes swapped, so
  that storing htons of one and storing the other put the same bytes into a packet.
  The bound is the greatest length for which the 32-bit sum cannot overflow.
\<close>

theorem checksum_ones_complement:
  assumes "length (p @ t @ opts @ d) \<le> 131074"
  shows "ip_checksum (p @ t @ opts @ d) = NOT (of_nat (ones_sum (p @ t @ opts @ d))) \<and>
    htons (tcp_checksum True p t opts d) = ip_checksum (p @ t @ opts @ d)"
  using ip_checksum_rep [OF assms] tcp_checksum_swap [OF assms] by (simp only: ones_sum_rep)

theorem checksum_ones_complement_witness:
  "ip_checksum [0xff, 0xff, 0x01, 0x00, 0x7] = 0xfff7 \<and> htons (tcp_checksum True [0xff, 0xff] [0x01] [0x00] [0x7]) = 0xfff7"
  using checksum_ones_complement [of "[0xff, 0xff]" "[0x01]" "[0x00]" "[0x7]"] by (simp add: end_around_def)

end
