(* ===== verification/NetPacket.thy ===== *)
theory NetPacket
  imports NetCheck
begin

text \<open>
  The packets of the user-space protocol stack: the headers (netstack/protocol/arp.h,
  ip.h, icmp.h, udp.h, tcp.h) and the functions that build and send packets (arp.cpp,
  ip.cpp, icmp.cpp, udp.cpp, tcp.cpp). The fields of a header hold the numbers as the
  program stores them, in host order after htons; the bytes of a header are those of
  the packed struct. Allocations succeed, as the code takes for granted.
  pcap_sendpacket belongs to libpcap: it is the argument \<open>pcap\<close>, whether a packet is
  accepted, and an accepted packet is appended to \<open>sent\<close>.
\<close>

section \<open>The state of the stack\<close>

datatype tcp_state = TCP_CLOSED | TCP_HAND_1 | TCP_HAND_2 | TCP_CONNECTED

record inet_info =
  local_ip :: u32
  remote_ip :: u32
  local_mac :: "u8 list"
  remote_mac :: "u8 list"
  local_port :: u64
  remote_port :: u64
  ping_success :: bool
  recv_data :: "u8 list"
  data_valid :: u64
  seq_num :: u32
  ack_num :: u32
  tcp_status :: tcp_state
  sent :: "u8 list list"

definition MTU :: nat where "MTU = 1500"

definition pcap_sendpacket :: "(u8 list \<Rightarrow> bool) \<Rightarrow> u8 list \<Rightarrow> inet_info \<Rightarrow> inet_info option" where
  "pcap_sendpacket pcap packet s = (if pcap packet then Some (s\<lparr>sent := sent s @ [packet]\<rparr>) else None)"

section \<open>Ethernet and ARP\<close>

definition ETHERTYPE_IP :: u16 where "ETHERTYPE_IP = 0x0800"
definition ETHERTYPE_ARP :: u16 where "ETHERTYPE_ARP = 0x0806"

record ether_header =
  ether_dhost :: "u8 list"
  ether_shost :: "u8 list"
  ether_type :: u16

definition ether_bytes :: "ether_header \<Rightarrow> u8 list" where
  "ether_bytes h = ether_dhost h @ ether_shost h @ le_bytes 2 (ether_type h)"

definition create_ether_header :: "u8 list \<Rightarrow> u8 list \<Rightarrow> u16 \<Rightarrow> ether_header" where
  "create_ether_header dst_mac src_mac type =
     \<lparr>ether_dhost = take 6 dst_mac, ether_shost = take 6 src_mac, ether_type = htons type\<rparr>"

record arp_header =
  hardware_type :: u16
  protocol_type :: u16
  hlen :: u8
  plen :: u8
  opcode :: u16
  sender_mac :: "u8 list"
  sender_ip :: u32
  target_mac :: "u8 list"
  target_ip :: u32

definition arp_bytes :: "arp_header \<Rightarrow> u8 list" where
  "arp_bytes h = le_bytes 2 (hardware_type h) @ le_bytes 2 (protocol_type h) @ [hlen h, plen h] @ le_bytes 2 (opcode h) @
     sender_mac h @ le_bytes 4 (sender_ip h) @ target_mac h @ le_bytes 4 (target_ip h)"

definition create_arp_header :: "inet_info \<Rightarrow> arp_header" where
  "create_arp_header inet =
     \<lparr>hardware_type = htons 1, protocol_type = htons ETHERTYPE_IP, hlen = 6, plen = 4, opcode = htons 1,
      sender_mac = take 6 (local_mac inet), sender_ip = local_ip inet, target_mac = replicate 6 0, target_ip = remote_ip inet\<rparr>"

text \<open>A packet that is not accepted is only reported.\<close>

definition send_arp_req :: "(u8 list \<Rightarrow> bool) \<Rightarrow> inet_info \<Rightarrow> inet_info" where
  "send_arp_req pcap inet =
     (let ether = create_ether_header (replicate 6 0xff) (local_mac inet) ETHERTYPE_ARP;
          arp = create_arp_header inet
      in case pcap_sendpacket pcap (ether_bytes ether @ arp_bytes arp) inet of None \<Rightarrow> inet | Some s \<Rightarrow> s)"

section \<open>IP\<close>

record ip_header =
  version_ihl :: u8
  ip_tos :: u8
  total_length :: u16
  identification :: u16
  flags_fragment :: u16
  ttl :: u8
  ip_protocol :: u8
  ip_check :: u16
  src_ip :: u32
  dst_ip :: u32

definition ip_bytes :: "ip_header \<Rightarrow> u8 list" where
  "ip_bytes h = [version_ihl h, ip_tos h] @ le_bytes 2 (total_length h) @ le_bytes 2 (identification h) @ le_bytes 2 (flags_fragment h) @
     [ttl h, ip_protocol h] @ le_bytes 2 (ip_check h) @ le_bytes 4 (src_ip h) @ le_bytes 4 (dst_ip h)"

definition sizeof_ip :: nat where "sizeof_ip = 20"
definition IP_LOAD_ICMP :: u8 where "IP_LOAD_ICMP = 1"
definition IP_LOAD_TCP :: u8 where "IP_LOAD_TCP = 6"
definition IP_LOAD_UDP :: u8 where "IP_LOAD_UDP = 17"

definition create_ip_header :: "u8 \<Rightarrow> u16 \<Rightarrow> u16 \<Rightarrow> u16 \<Rightarrow> u8 \<Rightarrow> u8 \<Rightarrow> u32 \<Rightarrow> u32 \<Rightarrow> ip_header" where
  "create_ip_header tos len ident flags time protocol src dst =
     (let header = \<lparr>version_ihl = 0x45, ip_tos = tos, total_length = len, identification = htons ident, flags_fragment = htons flags,
                    ttl = time, ip_protocol = protocol, ip_check = 0, src_ip = src, dst_ip = dst\<rparr>
      in header\<lparr>ip_check := ip_checksum (ip_bytes header)\<rparr>)"

definition create_ip_protocol_header :: "inet_info \<Rightarrow> u16 \<Rightarrow> u8 \<Rightarrow> ip_header" where
  "create_ip_protocol_header inet len protocol =
     (let header = \<lparr>version_ihl = 0x45, ip_tos = 0, total_length = len, identification = htons 0xd0f1, flags_fragment = htons 0x4000,
                    ttl = 64, ip_protocol = protocol, ip_check = 0, src_ip = local_ip inet, dst_ip = remote_ip inet\<rparr>
      in header\<lparr>ip_check := ip_checksum (ip_bytes header)\<rparr>)"

section \<open>ICMP\<close>

record icmp_header =
  icmp_type :: u8
  icmp_code :: u8
  icmp_check :: u16
  icmp_id :: u16
  icmp_seq :: u16

definition icmp_bytes :: "icmp_header \<Rightarrow> u8 list" where
  "icmp_bytes h = [icmp_type h, icmp_code h] @ le_bytes 2 (icmp_check h) @ le_bytes 2 (icmp_id h) @ le_bytes 2 (icmp_seq h)"

definition ICMP_TYPE_REQ_ECHO :: u8 where "ICMP_TYPE_REQ_ECHO = 8"
definition ICMP_TYPE_REPLY_ECHO :: u8 where "ICMP_TYPE_REPLY_ECHO = 0"
definition ICMP_TYPE_REPLY_TS :: u8 where "ICMP_TYPE_REPLY_TS = 14"
definition sizeof_icmp :: nat where "sizeof_icmp = 8"

definition create_ip_icmp_protocol_header :: "inet_info \<Rightarrow> u8 \<Rightarrow> ip_header" where
  "create_ip_icmp_protocol_header inet protocol =
     (let header = \<lparr>version_ihl = 0x45, ip_tos = 0, total_length = htons (of_nat (sizeof_ip + sizeof_icmp)), identification = htons 1,
                    flags_fragment = htons 0x4000, ttl = 64, ip_protocol = protocol, ip_check = 0, src_ip = local_ip inet, dst_ip = remote_ip inet\<rparr>
      in header\<lparr>ip_check := ip_checksum (ip_bytes header)\<rparr>)"

definition create_icmp_protocol_header :: "u8 \<Rightarrow> icmp_header" where
  "create_icmp_protocol_header type =
     (let header = \<lparr>icmp_type = type, icmp_code = 0, icmp_check = 0, icmp_id = htons 1, icmp_seq = htons 1\<rparr>
      in header\<lparr>icmp_check := ip_checksum (icmp_bytes header)\<rparr>)"

text \<open>
  The packet gets the room of an ARP header where it holds an IP header: 8 bytes more,
  which stay 0.
\<close>

definition sizeof_arp :: nat where "sizeof_arp = 28"

definition send_icmp_echo_request_packet :: "(u8 list \<Rightarrow> bool) \<Rightarrow> inet_info \<Rightarrow> inet_info" where
  "send_icmp_echo_request_packet pcap inet =
     (let ether = create_ether_header (remote_mac inet) (local_mac inet) ETHERTYPE_IP;
          ip = create_ip_icmp_protocol_header inet IP_LOAD_ICMP;
          icmp = create_icmp_protocol_header ICMP_TYPE_REQ_ECHO;
          packet = ether_bytes ether @ ip_bytes ip @ icmp_bytes icmp @ replicate (sizeof_arp - sizeof_ip) 0
      in case pcap_sendpacket pcap packet inet of None \<Rightarrow> inet | Some s \<Rightarrow> s)"

section \<open>UDP\<close>

record pseudo_header =
  src_addr :: u32
  dest_addr :: u32
  reserved :: u8
  ps_protocol :: u8
  ps_length :: u16

definition pseudo_bytes :: "pseudo_header \<Rightarrow> u8 list" where
  "pseudo_bytes h = le_bytes 4 (src_addr h) @ le_bytes 4 (dest_addr h) @ [reserved h, ps_protocol h] @ le_bytes 2 (ps_length h)"

record udp_header =
  udp_source_port :: u16
  udp_dest_port :: u16
  udp_length :: u16
  udp_check :: u16

definition udp_bytes :: "udp_header \<Rightarrow> u8 list" where
  "udp_bytes h = le_bytes 2 (udp_source_port h) @ le_bytes 2 (udp_dest_port h) @ le_bytes 2 (udp_length h) @ le_bytes 2 (udp_check h)"

definition sizeof_udp :: nat where "sizeof_udp = 8"

definition udp_checksum :: "pseudo_header \<Rightarrow> udp_header \<Rightarrow> u8 list \<Rightarrow> u16" where
  "udp_checksum psh udph data = ip_checksum (pseudo_bytes psh @ udp_bytes udph @ data)"

text \<open>The header and the data behind it. The length is cut to 16 bits.\<close>

definition create_udp_header :: "inet_info \<Rightarrow> u8 list \<Rightarrow> udp_header \<times> u8 list" where
  "create_udp_header inet data =
     (let len = of_nat (sizeof_udp + length data);
          header = \<lparr>udp_source_port = htons (ucast (local_port inet)), udp_dest_port = htons (ucast (remote_port inet)),
                    udp_length = htons len, udp_check = 0\<rparr>;
          ps_header = \<lparr>src_addr = local_ip inet, dest_addr = remote_ip inet, reserved = 0, ps_protocol = 17, ps_length = htons len\<rparr>
      in (header\<lparr>udp_check := udp_checksum ps_header header data\<rparr>, data))"

text \<open>The result is the length, or \<open>None\<close> for the error \<open>-1\<close>.\<close>

definition udp_send :: "(u8 list \<Rightarrow> bool) \<Rightarrow> inet_info \<Rightarrow> u8 list \<Rightarrow> inet_info \<times> nat option" where
  "udp_send pcap inet data =
     (let ethernet = create_ether_header (remote_mac inet) (local_mac inet) ETHERTYPE_IP;
          (udp, load) = create_udp_header inet data;
          ip_header_len = of_nat (sizeof_ip + sizeof_udp + length data);
          ip = create_ip_header 0 (htons ip_header_len) 0x3fa6 0x4000 64 IP_LOAD_UDP (local_ip inet) (remote_ip inet)
      in case pcap_sendpacket pcap (ether_bytes ethernet @ ip_bytes ip @ udp_bytes udp @ load) inet of
           None \<Rightarrow> (inet, None)
         | Some s \<Rightarrow> (s, Some (length data)))"

section \<open>TCP\<close>

definition TCP_ACK :: u8 where "TCP_ACK = 0x10"
definition TCP_PSH :: u8 where "TCP_PSH = 0x08"
definition TCP_SYN :: u8 where "TCP_SYN = 0x02"
definition TCP_SYN_ACK :: u8 where "TCP_SYN_ACK = TCP_SYN OR TCP_ACK"
definition TCP_PSH_ACK :: u8 where "TCP_PSH_ACK = TCP_PSH OR TCP_ACK"

record tcp_header =
  source_port :: u16
  dest_port :: u16
  sequence_num :: u32
  tcp_ack_num :: u32
  data_offset :: u8
  tcp_flags :: u8
  window_size :: u16
  tcp_check :: u16
  urgent_pointer :: u16

definition tcp_bytes :: "tcp_header \<Rightarrow> u8 list" where
  "tcp_bytes h = le_bytes 2 (source_port h) @ le_bytes 2 (dest_port h) @ le_bytes 4 (sequence_num h) @ le_bytes 4 (tcp_ack_num h) @
     [data_offset h, tcp_flags h] @ le_bytes 2 (window_size h) @ le_bytes 2 (tcp_check h) @ le_bytes 2 (urgent_pointer h)"

definition sizeof_tcp :: nat where "sizeof_tcp = 20"

definition create_tcp_header :: "inet_info \<Rightarrow> u8 \<Rightarrow> u32 \<Rightarrow> u32 \<Rightarrow> u8 list \<Rightarrow> u8 list \<Rightarrow> tcp_header" where
  "create_tcp_header inet flag seq ack options s =
     (let pseudo = \<lparr>src_addr = local_ip inet, dest_addr = remote_ip inet, reserved = 0, ps_protocol = 6,
                    ps_length = htons (of_nat (sizeof_tcp + length options + length s))\<rparr>;
          tcp = \<lparr>source_port = htons (ucast (local_port inet)), dest_port = htons (ucast (remote_port inet)),
                 sequence_num = htonl seq, tcp_ack_num = htonl ack,
                 data_offset = push_bit 4 (of_nat ((sizeof_tcp + length options) div 4)), tcp_flags = flag,
                 window_size = htons 0xfaf0, tcp_check = 0, urgent_pointer = 0\<rparr>;
          checksum = tcp_checksum True (pseudo_bytes pseudo) (tcp_bytes tcp) options s
      in tcp\<lparr>tcp_check := htons checksum\<rparr>)"

text \<open>\<open>rand\<close> is the number that rand returns.\<close>

definition tcp_init_seq :: "u32 \<Rightarrow> inet_info \<Rightarrow> inet_info" where
  "tcp_init_seq rand inet = inet\<lparr>seq_num := rand, ack_num := 0, tcp_status := TCP_CLOSED\<rparr>"

definition tcp_options :: "u8 list" where
  "tcp_options = [0x02, 0x04, 0x05, 0xb4, 0x04, 0x02, 0x08, 0x0a, 0xaf, 0xef, 0x15, 0x2c, 0x00, 0x00, 0x00, 0x00, 0x01, 0x03, 0x03, 0x07]"

text \<open>If the packet is not accepted the program exits: \<open>None\<close>.\<close>

definition tcp_send_control :: "(u8 list \<Rightarrow> bool) \<Rightarrow> u8 \<Rightarrow> inet_info \<Rightarrow> inet_info option" where
  "tcp_send_control pcap flag inet =
     (let tcp = create_tcp_header inet flag (seq_num inet) (ack_num inet) tcp_options [];
          ethernet = create_ether_header (remote_mac inet) (local_mac inet) ETHERTYPE_IP;
          ip = create_ip_protocol_header inet (htons (of_nat (sizeof_ip + sizeof_tcp + length tcp_options))) IP_LOAD_TCP
      in pcap_sendpacket pcap (ether_bytes ethernet @ ip_bytes ip @ tcp_bytes tcp @ tcp_options) inet)"

definition tcp_send :: "(u8 list \<Rightarrow> bool) \<Rightarrow> u8 list \<Rightarrow> inet_info \<Rightarrow> inet_info option" where
  "tcp_send pcap data inet =
     (let tcp = create_tcp_header inet TCP_PSH_ACK (seq_num inet) (ack_num inet) [] data;
          ethernet = create_ether_header (remote_mac inet) (local_mac inet) ETHERTYPE_IP;
          ip = create_ip_protocol_header inet (htons (of_nat (sizeof_ip + sizeof_tcp + length data))) IP_LOAD_TCP
      in pcap_sendpacket pcap (ether_bytes ethernet @ ip_bytes ip @ tcp_bytes tcp @ data) inet)"

section \<open>What a receiver checks\<close>

text \<open>
  A host accepts a frame with an IP datagram if the checksum of the IP header, read
  with its checksum, is 0, the total length is that of the frame without the
  Ethernet header, and for TCP and UDP the checksum over the addresses, the
  protocol, the length and the segment is 0.
\<close>

definition receiver_accepts :: "u8 list \<Rightarrow> bool" where
  "receiver_accepts packet \<longleftrightarrow>
     (let ip = take 20 (drop 14 packet);
          segment = drop 34 packet
      in ip_checksum ip = 0 \<and> unat (ntohs (of_le (take 2 (drop 2 ip)))) = 20 + length segment \<and>
         (ip ! 9 \<in> {6, 17} \<longrightarrow>
          ip_checksum (take 8 (drop 12 ip) @ [0, ip ! 9] @ le_bytes 2 (htons (of_nat (length segment))) @ segment) = 0))"

text \<open>The flags and the numbers of a TCP segment in a frame.\<close>

definition segment_numbers :: "u8 list \<Rightarrow> u8 \<times> u32 \<times> u32" where
  "segment_numbers packet = (packet ! 47, ntohl (of_le (take 4 (drop 38 packet))), ntohl (of_le (take 4 (drop 42 packet))))"

lemma le_bytes_2: "le_bytes 2 w = [ucast w, ucast (drop_bit 8 w)]"
  by (simp add: le_bytes_def upt_rec)

lemma le_bytes_4: "le_bytes 4 w = [ucast w, ucast (drop_bit 8 w), ucast (drop_bit 16 w), ucast (drop_bit 24 w)]"
  by (simp add: le_bytes_def upt_rec)

lemma length_headers [simp]:
  "length (ip_bytes h) = 20" "length (tcp_bytes t) = 20" "length (udp_bytes u) = 8" "length (pseudo_bytes p) = 12" "length (icmp_bytes i) = 8"
  by (simp_all add: ip_bytes_def tcp_bytes_def udp_bytes_def pseudo_bytes_def icmp_bytes_def)

lemma length_ether:
  "length d = 6 \<Longrightarrow> length s = 6 \<Longrightarrow> length (ether_bytes (create_ether_header d s type)) = 14"
  by (simp add: ether_bytes_def create_ether_header_def)

lemma accepts_frame:
  assumes "length E = 14"
  shows "receiver_accepts (E @ ip_bytes h @ seg) \<longleftrightarrow>
    ip_checksum (ip_bytes h) = 0 \<and> unat (ntohs (total_length h)) = 20 + length seg \<and>
    (ip_protocol h \<in> {6, 17} \<longrightarrow>
     ip_checksum (pseudo_bytes \<lparr>src_addr = src_ip h, dest_addr = dst_ip h, reserved = 0, ps_protocol = ip_protocol h,
       ps_length = htons (of_nat (length seg))\<rparr> @ seg) = 0)"
proof -
  have d: "drop 34 (E @ ip_bytes h @ seg) = seg" "take 20 (drop 14 (E @ ip_bytes h @ seg)) = ip_bytes h"
    using assms by simp_all
  have i: "take 2 (drop 2 (ip_bytes h)) = le_bytes 2 (total_length h)" "ip_bytes h ! 9 = ip_protocol h"
    "take 8 (drop 12 (ip_bytes h)) = le_bytes 4 (src_ip h) @ le_bytes 4 (dst_ip h)"
    by (simp_all add: ip_bytes_def le_bytes_2 le_bytes_4)
  have "of_le (le_bytes 2 (total_length h)) = total_length h" by (rule of_le_le_bytes) simp
  then show ?thesis unfolding receiver_accepts_def d Let_def i by (simp add: pseudo_bytes_def)
qed

lemma zero_field: "le_bytes 2 (0 :: u16) = [0, 0]"
  by (simp add: le_bytes_2)

lemma ip_verifies: "ip_checksum (ip_bytes (h\<lparr>ip_check := ip_checksum (ip_bytes (h\<lparr>ip_check := 0\<rparr>))\<rparr>)) = 0"
  using checksum_verifies [of "[version_ihl h, ip_tos h] @ le_bytes 2 (total_length h) @ le_bytes 2 (identification h) @
      le_bytes 2 (flags_fragment h) @ [ttl h, ip_protocol h]" "le_bytes 4 (src_ip h) @ le_bytes 4 (dst_ip h)"]
  by (simp add: ip_bytes_def zero_field)

lemma udp_verifies:
  assumes "length data \<le> 131000"
  shows "ip_checksum (pseudo_bytes p @ udp_bytes (u\<lparr>udp_check := udp_checksum p (u\<lparr>udp_check := 0\<rparr>) data\<rparr>) @ data) = 0"
  using checksum_verifies [of "pseudo_bytes p @ le_bytes 2 (udp_source_port u) @ le_bytes 2 (udp_dest_port u) @ le_bytes 2 (udp_length u)" data] assms
  by (simp add: udp_bytes_def udp_checksum_def zero_field)

lemma tcp_verifies:
  assumes "length (options @ s) \<le> 131000"
  shows "ip_checksum (pseudo_bytes p @
    tcp_bytes (t\<lparr>tcp_check := htons (tcp_checksum True (pseudo_bytes p) (tcp_bytes (t\<lparr>tcp_check := 0\<rparr>)) options s)\<rparr>) @ options @ s) = 0"
proof -
  let ?pre = "pseudo_bytes p @ le_bytes 2 (source_port t) @ le_bytes 2 (dest_port t) @ le_bytes 4 (sequence_num t) @
      le_bytes 4 (tcp_ack_num t) @ [data_offset t, tcp_flags t] @ le_bytes 2 (window_size t)"
  let ?post = "le_bytes 2 (urgent_pointer t) @ options @ s"
  have "htons (tcp_checksum True (pseudo_bytes p) (tcp_bytes (t\<lparr>tcp_check := 0\<rparr>)) options s) = ip_checksum (?pre @ [0, 0] @ ?post)"
    using assms by (subst tcp_checksum_swap) (simp_all add: tcp_bytes_def zero_field)
  then show ?thesis using checksum_verifies [of ?pre ?post] assms by (simp add: tcp_bytes_def)
qed

lemma icmp_verifies: "ip_checksum (icmp_bytes (create_icmp_protocol_header type)) = 0"
  using checksum_verifies [of "[type, 0]" "le_bytes 2 (htons 1) @ le_bytes 2 (htons 1)"]
  by (simp add: icmp_bytes_def create_icmp_protocol_header_def zero_field Let_def)

section \<open>The frames that are sent\<close>

definition control_frame :: "u8 \<Rightarrow> inet_info \<Rightarrow> u8 list" where
  "control_frame flag inet =
     ether_bytes (create_ether_header (remote_mac inet) (local_mac inet) ETHERTYPE_IP) @
     ip_bytes (create_ip_protocol_header inet (htons (of_nat (sizeof_ip + sizeof_tcp + length tcp_options))) IP_LOAD_TCP) @
     tcp_bytes (create_tcp_header inet flag (seq_num inet) (ack_num inet) tcp_options []) @ tcp_options"

definition data_frame :: "u8 list \<Rightarrow> inet_info \<Rightarrow> u8 list" where
  "data_frame data inet =
     ether_bytes (create_ether_header (remote_mac inet) (local_mac inet) ETHERTYPE_IP) @
     ip_bytes (create_ip_protocol_header inet (htons (of_nat (sizeof_ip + sizeof_tcp + length data))) IP_LOAD_TCP) @
     tcp_bytes (create_tcp_header inet TCP_PSH_ACK (seq_num inet) (ack_num inet) [] data) @ data"

lemma send_frames:
  "tcp_send_control pcap flag inet = pcap_sendpacket pcap (control_frame flag inet) inet"
  "tcp_send pcap data inet = pcap_sendpacket pcap (data_frame data inet) inet"
  by (simp_all add: tcp_send_control_def tcp_send_def control_frame_def data_frame_def Let_def)

definition macs_ok :: "inet_info \<Rightarrow> bool" where
  "macs_ok inet \<longleftrightarrow> length (local_mac inet) = 6 \<and> length (remote_mac inet) = 6"

lemma ip_protocol_header:
  fixes inet :: inet_info and len :: u16 and proto :: u8
  defines "h \<equiv> create_ip_protocol_header inet len proto"
  shows "ip_checksum (ip_bytes h) = 0" "total_length h = len" "ip_protocol h = proto" "src_ip h = local_ip inet" "dst_ip h = remote_ip inet"
  using ip_verifies [of "\<lparr>version_ihl = 0x45, ip_tos = 0, total_length = len, identification = htons 0xd0f1, flags_fragment = htons 0x4000,
                    ttl = 64, ip_protocol = proto, ip_check = 0, src_ip = local_ip inet, dst_ip = remote_ip inet\<rparr>"]
  by (simp_all add: h_def create_ip_protocol_header_def Let_def)

lemma tcp_frame_accepted:
  assumes "macs_ok inet" "length (options @ s) \<le> 65495"
  shows "receiver_accepts (ether_bytes (create_ether_header (remote_mac inet) (local_mac inet) ETHERTYPE_IP) @
     ip_bytes (create_ip_protocol_header inet (htons (of_nat (sizeof_ip + sizeof_tcp + length (options @ s)))) IP_LOAD_TCP) @
     tcp_bytes (create_tcp_header inet flag q a options s) @ options @ s)"
proof -
  let ?p = "\<lparr>src_addr = local_ip inet, dest_addr = remote_ip inet, reserved = 0, ps_protocol = 6,
     ps_length = htons (of_nat (sizeof_tcp + length options + length s))\<rparr>"
  let ?t = "\<lparr>source_port = htons (ucast (local_port inet)), dest_port = htons (ucast (remote_port inet)), sequence_num = htonl q, tcp_ack_num = htonl a,
     data_offset = push_bit 4 (of_nat ((sizeof_tcp + length options) div 4)), tcp_flags = flag, window_size = htons 0xfaf0, tcp_check = 0, urgent_pointer = 0\<rparr>"
  have "ip_checksum (pseudo_bytes ?p @ tcp_bytes (create_tcp_header inet flag q a options s) @ options @ s) = 0"
    using tcp_verifies [of options s ?p ?t] assms(2) by (simp add: create_tcp_header_def Let_def)
  moreover have "unat (of_nat (sizeof_ip + sizeof_tcp + length (options @ s)) :: u16) = sizeof_ip + sizeof_tcp + length (options @ s)"
    using assms(2) by (intro unat_of_nat_less) (simp add: sizeof_ip_def sizeof_tcp_def)
  ultimately show ?thesis using assms(1) length_ether [of "remote_mac inet" "local_mac inet"]
    by (simp add: accepts_frame ip_protocol_header macs_ok_def IP_LOAD_TCP_def sizeof_ip_def sizeof_tcp_def add.assoc)
qed

lemma frame_numbers:
  assumes "macs_ok inet"
  shows "segment_numbers (control_frame flag inet) = (flag, seq_num inet, ack_num inet)"
    "segment_numbers (data_frame data inet) = (TCP_PSH_ACK, seq_num inet, ack_num inet)"
proof -
  have e: "length (ether_bytes (create_ether_header (remote_mac inet) (local_mac inet) ETHERTYPE_IP)) = 14"
    using assms by (simp add: length_ether macs_ok_def)
  have n: "segment_numbers (E @ ip_bytes h @ tcp_bytes (create_tcp_header inet f (seq_num inet) (ack_num inet) opts d) @ xs) = (f, seq_num inet, ack_num inet)"
    if "length E = 14" for E h f opts d xs
  proof -
    let ?T = "tcp_bytes (create_tcp_header inet f (seq_num inet) (ack_num inet) opts d)"
    have t: "?T ! 13 = f" "take 4 (drop 4 ?T) = le_bytes 4 (htonl (seq_num inet))" "take 4 (drop 8 ?T) = le_bytes 4 (htonl (ack_num inet))"
      by (simp_all add: tcp_bytes_def create_tcp_header_def Let_def le_bytes_2 le_bytes_4)
    have "(E @ ip_bytes h @ ?T @ xs) ! 47 = ?T ! 13" using that by (simp add: nth_append)
    moreover have "take 4 (drop 38 (E @ ip_bytes h @ ?T @ xs)) = take 4 (drop 4 ?T)" "take 4 (drop 42 (E @ ip_bytes h @ ?T @ xs)) = take 4 (drop 8 ?T)"
      using that by simp_all
    moreover have "of_le (le_bytes 4 w) = w" for w :: u32 by (rule of_le_le_bytes) simp
    ultimately show ?thesis unfolding segment_numbers_def t by simp
  qed
  show "segment_numbers (control_frame flag inet) = (flag, seq_num inet, ack_num inet)"
    "segment_numbers (data_frame data inet) = (TCP_PSH_ACK, seq_num inet, ack_num inet)"
    unfolding control_frame_def data_frame_def by (rule n [OF e])+
qed

lemma control_accepted: "macs_ok inet \<Longrightarrow> receiver_accepts (control_frame flag inet)"
  using tcp_frame_accepted [of inet tcp_options "[]" flag "seq_num inet" "ack_num inet"] by (simp add: control_frame_def tcp_options_def)

lemma data_accepted: "macs_ok inet \<Longrightarrow> length data \<le> 65495 \<Longrightarrow> receiver_accepts (data_frame data inet)"
  using tcp_frame_accepted [of inet "[]" data TCP_PSH_ACK "seq_num inet" "ack_num inet"] by (simp add: data_frame_def)

definition datagram_frame :: "u8 list \<Rightarrow> inet_info \<Rightarrow> u8 list" where
  "datagram_frame data inet =
     ether_bytes (create_ether_header (remote_mac inet) (local_mac inet) ETHERTYPE_IP) @
     ip_bytes (create_ip_header 0 (htons (of_nat (sizeof_ip + sizeof_udp + length data))) 0x3fa6 0x4000 64 IP_LOAD_UDP (local_ip inet) (remote_ip inet)) @
     udp_bytes (fst (create_udp_header inet data)) @ data"

lemma udp_send_frame:
  "udp_send pcap inet data = (case pcap_sendpacket pcap (datagram_frame data inet) inet of None \<Rightarrow> (inet, None) | Some s \<Rightarrow> (s, Some (length data)))"
  by (simp add: udp_send_def create_udp_header_def datagram_frame_def Let_def)

lemma ip_header_fields:
  fixes tos time proto :: u8 and len ident flags :: u16 and src dst :: u32
  defines "h \<equiv> create_ip_header tos len ident flags time proto src dst"
  shows "ip_checksum (ip_bytes h) = 0" "total_length h = len" "ip_protocol h = proto" "src_ip h = src" "dst_ip h = dst"
  using ip_verifies [of "\<lparr>version_ihl = 0x45, ip_tos = tos, total_length = len, identification = htons ident, flags_fragment = htons flags,
                    ttl = time, ip_protocol = proto, ip_check = 0, src_ip = src, dst_ip = dst\<rparr>"]
  by (simp_all add: h_def create_ip_header_def Let_def)

lemma datagram_accepted:
  assumes "macs_ok inet" "length data \<le> 65507"
  shows "receiver_accepts (datagram_frame data inet)" "drop 42 (datagram_frame data inet) = data"
proof -
  let ?ulen = "htons (of_nat (sizeof_udp + length data)) :: u16"
  let ?p = "\<lparr>src_addr = local_ip inet, dest_addr = remote_ip inet, reserved = 0, ps_protocol = 17, ps_length = ?ulen\<rparr>"
  let ?u = "\<lparr>udp_source_port = htons (ucast (local_port inet)), udp_dest_port = htons (ucast (remote_port inet)), udp_length = ?ulen, udp_check = 0\<rparr>"
  have E: "length (ether_bytes (create_ether_header (remote_mac inet) (local_mac inet) ETHERTYPE_IP)) = 14"
    using assms(1) length_ether by (simp add: macs_ok_def)
  have "unat (of_nat (sizeof_ip + sizeof_udp + length data) :: u16) = sizeof_ip + sizeof_udp + length data"
    using assms(2) by (intro unat_of_nat_less) (simp add: sizeof_ip_def sizeof_udp_def)
  moreover have "ip_checksum (pseudo_bytes ?p @ udp_bytes (fst (create_udp_header inet data)) @ data) = 0"
    using udp_verifies [of data ?p ?u] assms(2) by (simp add: create_udp_header_def Let_def)
  ultimately show "receiver_accepts (datagram_frame data inet)"
    by (simp add: datagram_frame_def accepts_frame [OF E] ip_header_fields IP_LOAD_UDP_def sizeof_ip_def sizeof_udp_def add.assoc)
  show "drop 42 (datagram_frame data inet) = data" using E by (simp add: datagram_frame_def)
qed

section \<open>Properties\<close>

text \<open>C24.
  What the stack sends over TCP and UDP is a frame that a receiver accepts: the
  lengths are right, the checksums of the IP header and of the segment verify, the
  payload stands at the end, and a TCP segment carries the flags and the sequence
  and acknowledgement numbers of the connection, which sending does not advance.
  The bounds are those of the 16-bit length of IP. A frame that libpcap refuses ends
  the program for TCP and is reported by the result for UDP.
\<close>

theorem sent_frames_accepted:
  assumes "macs_ok inet" "length data \<le> 65495"
  shows "\<exists>control packet datagram. receiver_accepts control \<and> receiver_accepts packet \<and> receiver_accepts datagram \<and>
    segment_numbers control = (flag, seq_num inet, ack_num inet) \<and> segment_numbers packet = (TCP_PSH_ACK, seq_num inet, ack_num inet) \<and>
    drop 54 packet = data \<and> drop 42 datagram = data \<and>
    tcp_send_control pcap flag inet = (if pcap control then Some (inet\<lparr>sent := sent inet @ [control]\<rparr>) else None) \<and>
    tcp_send pcap data inet = (if pcap packet then Some (inet\<lparr>sent := sent inet @ [packet]\<rparr>) else None) \<and>
    udp_send pcap inet data = (if pcap datagram then (inet\<lparr>sent := sent inet @ [datagram]\<rparr>, Some (length data)) else (inet, None))"
proof -
  note u = datagram_accepted [OF assms(1), of data]
  have "drop 54 (data_frame data inet) = data"
    using assms(1) length_ether [of "remote_mac inet" "local_mac inet"] by (simp add: data_frame_def macs_ok_def)
  then show ?thesis
    using u assms control_accepted [OF assms(1), of flag] data_accepted [OF assms] frame_numbers(1) [OF assms(1), of flag] frame_numbers(2) [OF assms(1), of data]
    by (intro exI [of _ "control_frame flag inet"] exI [of _ "data_frame data inet"] exI [of _ "datagram_frame data inet"])
      (simp add: send_frames udp_send_frame pcap_sendpacket_def)
qed

definition demo_inet :: inet_info where
  "demo_inet = \<lparr>local_ip = 0x8a85a8c0, remote_ip = 0x8b85a8c0, local_mac = [0, 12, 41, 1, 2, 3], remote_mac = [0, 12, 41, 4, 5, 6],
     local_port = 1234, remote_port = 8080, ping_success = True, recv_data = replicate MTU 0, data_valid = 0,
     seq_num = 7, ack_num = 0, tcp_status = TCP_CLOSED, sent = []\<rparr>"

theorem sent_frames_accepted_witness:
  "\<exists>packet. receiver_accepts packet \<and> drop 54 packet = [104, 105, 33] \<and> segment_numbers packet = (TCP_PSH_ACK, 7, 0) \<and>
     tcp_send (\<lambda>_. True) [104, 105, 33] demo_inet = Some (demo_inet\<lparr>sent := [packet]\<rparr>)"
  using sent_frames_accepted [of demo_inet "[104, 105, 33]" TCP_SYN "\<lambda>_. True"] by (auto simp: macs_ok_def demo_inet_def)

end
