(* ===== verification/NetRecv.thy ===== *)
theory NetRecv
  imports NetPacket "HOL-Library.Monad_Syntax"
begin

text \<open>
  The receiving side of the user-space protocol stack (netstack/protocol/entry.cpp,
  arp.cpp, ip.cpp, icmp.cpp, udp.cpp, tcp.cpp), the threads that wait for each other
  by name (thread/thread.cpp) and the commands of main.cpp.

  A received packet is the memory from its start on that belongs to libpcap, a list
  of bytes: the code ignores the captured length. An access outside of that memory,
  or outside of the buffer for received data, is \<open>None\<close>. The last effect of a
  handler, a call of nst_post_by_name, the acknowledgement, or the wait before it, is
  an \<open>action\<close> that the monitor thread performs in a step of its own.
\<close>

section \<open>Reading a packet\<close>

definition get8 :: "u8 list \<Rightarrow> nat \<Rightarrow> u8 option" where
  "get8 p i = (if i < length p then Some (p ! i) else None)"

definition get16 :: "u8 list \<Rightarrow> nat \<Rightarrow> u16 option" where
  "get16 p i = (if i + 2 \<le> length p then Some (of_le (take 2 (drop i p))) else None)"

definition get32 :: "u8 list \<Rightarrow> nat \<Rightarrow> u32 option" where
  "get32 p i = (if i + 4 \<le> length p then Some (of_le (take 4 (drop i p))) else None)"

definition get_bytes :: "u8 list \<Rightarrow> nat \<Rightarrow> nat \<Rightarrow> u8 list option" where
  "get_bytes p i n = (if i + n \<le> length p then Some (take n (drop i p)) else None)"

section \<open>The handlers of the protocols\<close>

datatype action = Nothing | Post string | Ack | Wait_ack

text \<open>The result also says whether the reply is the awaited one (return value 0).\<close>

definition deal_arp_reply :: "u8 list \<Rightarrow> inet_info \<Rightarrow> (inet_info \<times> bool) option" where
  "deal_arp_reply packet inet = do {
     sender \<leftarrow> get32 packet (14 + 14);
     if sender = remote_ip inet then do {
       target \<leftarrow> get32 packet (14 + 24);
       if target = local_ip inet then do {
         mac \<leftarrow> get_bytes packet (14 + 8) 6;
         Some (inet\<lparr>remote_mac := mac\<rparr>, True)
       } else Some (inet, False)
     } else Some (inet, False)
   }"

definition distribute_icmp_reply :: "u8 list \<Rightarrow> inet_info \<Rightarrow> (inet_info \<times> action) option" where
  "distribute_icmp_reply packet inet = do {
     type \<leftarrow> get8 packet (14 + 20);
     Some (if type = ICMP_TYPE_REPLY_ECHO then (inet\<lparr>ping_success := True\<rparr>, Post ''icmp_req_handle'') else (inet, Nothing))
   }"

definition distribute_udp_recv :: "u8 list \<Rightarrow> inet_info \<Rightarrow> (inet_info \<times> action) option" where
  "distribute_udp_recv packet inet = do {
     len \<leftarrow> get16 packet (34 + 4);
     let datalen = (ucast (ntohs len) - of_nat sizeof_udp :: u64);
     data \<leftarrow> get_bytes packet (34 + sizeof_udp) (unat datalen);
     if unat datalen \<le> MTU
     then Some (inet\<lparr>recv_data := data @ drop (unat datalen) (recv_data inet), data_valid := datalen\<rparr>, Post ''udp_recv_handle'')
     else None
   }"

text \<open>
  The reads of print_hex_string, whose length is an int, and of printf with a string:
  whether they stay inside of the packet.
\<close>

definition print_hex_reads :: "u8 list \<Rightarrow> nat \<Rightarrow> u64 \<Rightarrow> unit option" where
  "print_hex_reads packet i len =
     (let n = sint (ucast len :: u32) in if n \<le> 0 \<or> i + nat n \<le> length packet then Some () else None)"

definition printf_reads :: "u8 list \<Rightarrow> nat \<Rightarrow> unit option" where
  "printf_reads packet i = (if 0 \<in> set (drop i packet) then Some () else None)"

text \<open>The data starts at \<open>i\<close>; the zero byte behind the data is written into the packet.\<close>

definition deal_tcp_data_recv :: "u8 list \<Rightarrow> nat \<Rightarrow> u64 \<Rightarrow> inet_info \<Rightarrow> action option" where
  "deal_tcp_data_recv packet i len inet = do {
     let last = unat (of_nat i + len);
     packet \<leftarrow> (if last < length packet then Some (packet[last := 0]) else None);
     if tcp_status inet = TCP_CONNECTED
     then do { printf_reads packet i; Some Wait_ack }
     else Some Ack
   }"

definition distribute_tcp_recv :: "u8 list \<Rightarrow> u64 \<Rightarrow> inet_info \<Rightarrow> (inet_info \<times> action) option" where
  "distribute_tcp_recv packet tcp_len inet = do {
     print_hex_reads packet 34 tcp_len;
     flags \<leftarrow> get8 packet (34 + 13);
     if flags = TCP_ACK then Some (inet, Nothing)
     else if flags = TCP_SYN_ACK then
       (if tcp_status inet = TCP_HAND_1 then do {
          seq \<leftarrow> get32 packet (34 + 4);
          Some (inet\<lparr>tcp_status := TCP_HAND_2, seq_num := seq_num inet + 1, ack_num := ntohl seq + 1\<rparr>, Post ''tcp_connect_handle'')
        } else Some (inet, Nothing))
     else if flags = TCP_PSH_ACK then do {
       offset \<leftarrow> get8 packet (34 + 12);
       let start = (ucast (drop_bit 4 offset) * 4 :: u64);
       let datalen = tcp_len - start;
       seq \<leftarrow> get32 packet (34 + 4);
       let inet = inet\<lparr>seq_num := seq_num inet + 1, ack_num := ntohl seq + ucast datalen\<rparr>;
       a \<leftarrow> deal_tcp_data_recv packet (34 + unat start) datalen inet;
       Some (inet, a)
     }
     else Some (inet, Nothing)
   }"

definition distribute_ip_reply :: "u8 list \<Rightarrow> inet_info \<Rightarrow> (inet_info \<times> action) option" where
  "distribute_ip_reply packet inet = do {
     src \<leftarrow> get32 packet (14 + 12);
     dst \<leftarrow> get32 packet (14 + 16);
     if src \<noteq> remote_ip inet \<or> dst \<noteq> local_ip inet then Some (inet, Nothing)
     else do {
       protocol \<leftarrow> get8 packet (14 + 9);
       if protocol = IP_LOAD_ICMP then distribute_icmp_reply packet inet
       else if protocol = IP_LOAD_TCP then do {
         total \<leftarrow> get16 packet (14 + 2);
         distribute_tcp_recv packet (ucast (ntohs total) - of_nat sizeof_ip) inet
       }
       else if protocol = IP_LOAD_UDP then distribute_udp_recv packet inet
       else Some (inet, Nothing)
     }
   }"

definition packet_recv :: "u8 list \<Rightarrow> inet_info \<Rightarrow> (inet_info \<times> action) option" where
  "packet_recv packet inet = do {
     type \<leftarrow> get16 packet 12;
     if ntohs type = ETHERTYPE_ARP then do {
       (inet, hit) \<leftarrow> deal_arp_reply packet inet;
       Some (inet, if hit then Post ''icmp_req_handle'' else Nothing)
     }
     else if ntohs type = ETHERTYPE_IP then distribute_ip_reply packet inet
     else Some (inet, Nothing)
   }"

section \<open>Threads\<close>

record ns_thread =
  be_posted :: bool
  wait_this :: "string set"

type_synonym threads = "string \<Rightarrow> ns_thread option"

text \<open>A thread that is not registered is a null pointer: \<open>None\<close>.\<close>

definition thread_insert :: "string \<Rightarrow> ns_thread \<Rightarrow> threads \<Rightarrow> threads" where
  "thread_insert name t ts = (if ts name = None then ts(name \<mapsto> t) else ts)"

definition thread_remove :: "string \<Rightarrow> threads \<Rightarrow> threads" where
  "thread_remove name ts = ts(name := None)"

text \<open>
  A thread that starts is registered, as pre_start_routine does; its list of waiting
  threads is that of the variable, \<open>t\<close>. After the join it is removed.
\<close>

definition nst_create :: "string \<Rightarrow> ns_thread \<Rightarrow> threads \<Rightarrow> threads" where
  "nst_create name t ts = thread_insert name (t\<lparr>be_posted := False\<rparr>) ts"

definition nst_destroy :: "string \<Rightarrow> threads \<Rightarrow> threads" where
  "nst_destroy name ts = thread_remove name ts"

text \<open>nst_wait_by_name up to the lock, under the lock, the condition of its loop, and behind the loop.\<close>

definition wait_unpost :: "string \<Rightarrow> string \<Rightarrow> threads \<Rightarrow> threads option" where
  "wait_unpost cur wait ts = do {
     c \<leftarrow> ts cur;
     w \<leftarrow> ts wait;
     Some (ts(cur \<mapsto> c\<lparr>be_posted := False\<rparr>))
   }"

definition wait_enroll :: "string \<Rightarrow> string \<Rightarrow> threads \<Rightarrow> threads option" where
  "wait_enroll cur wait ts = do { w \<leftarrow> ts wait; Some (ts(wait \<mapsto> w\<lparr>wait_this := insert cur (wait_this w)\<rparr>)) }"

definition wait_over :: "string \<Rightarrow> threads \<Rightarrow> bool" where
  "wait_over cur ts = (case ts cur of None \<Rightarrow> False | Some c \<Rightarrow> be_posted c)"

definition wait_reset :: "string \<Rightarrow> threads \<Rightarrow> threads option" where
  "wait_reset cur ts = do { c \<leftarrow> ts cur; Some (ts(cur \<mapsto> c\<lparr>be_posted := False\<rparr>)) }"

definition nst_post_by_name :: "string \<Rightarrow> string \<Rightarrow> threads \<Rightarrow> threads option" where
  "nst_post_by_name cur name ts = do {
     c \<leftarrow> ts cur;
     if name \<in> wait_this c then do {
       let ts = ts(cur \<mapsto> c\<lparr>wait_this := wait_this c - {name}\<rparr>);
       p \<leftarrow> ts name;
       Some (ts(name \<mapsto> p\<lparr>be_posted := True\<rparr>))
     } else Some ts
   }"

section \<open>Data for the user\<close>

text \<open>The bytes that udp_recv copies, after its wait; it returns their number.\<close>

definition udp_recv :: "inet_info \<Rightarrow> nat \<Rightarrow> u8 list" where
  "udp_recv inet len = take (min (unat (data_valid inet)) len) (recv_data inet)"

text \<open>One round of udp_recv_handle with its buffer of MTU bytes: the zero byte goes one place too far.\<close>

definition udp_recv_handle :: "inet_info \<Rightarrow> u8 list \<Rightarrow> u8 list option" where
  "udp_recv_handle inet data =
     (let bytes = udp_recv inet MTU;
          len = length bytes;
          data = bytes @ drop len data
      in if len + 1 < MTU then Some (data[len + 1 := 0]) else None)"

text \<open>
  performAction, with the effect of the thread of tcp_connect_handle up to the join as
  the argument \<open>connect\<close>, and \<open>rand\<close> as above; \<open>None\<close> is the exit of the program.
\<close>

definition performAction ::
    "(u8 list \<Rightarrow> bool) \<Rightarrow> u32 \<Rightarrow> (inet_info \<Rightarrow> inet_info option) \<Rightarrow> string \<Rightarrow> u8 list \<Rightarrow> inet_info \<Rightarrow> inet_info option" where
  "performAction pcap rand connect command message inet =
     (if command = ''udp'' then Some (fst (udp_send pcap inet message))
      else if command = ''tcpconect'' then
        (if tcp_status inet \<noteq> TCP_CONNECTED then do {
           inet \<leftarrow> connect inet;
           Some (if tcp_status inet \<noteq> TCP_CONNECTED then tcp_init_seq rand inet else inet)
         } else Some inet)
      else if command = ''tcpsend'' then
        (if tcp_status inet = TCP_CONNECTED then tcp_send pcap message inet else Some inet)
      else Some inet)"

section \<open>A datagram from one stack to another\<close>

lemma get_frame:
  assumes "length E = 14"
  shows "get8 (E @ ip_bytes h @ rest) 23 = Some (ip_protocol h)" "get32 (E @ ip_bytes h @ rest) 26 = Some (src_ip h)"
    "get32 (E @ ip_bytes h @ rest) 30 = Some (dst_ip h)" "get16 (E @ ip_bytes h @ rest) 16 = Some (total_length h)"
proof -
  have "of_le (le_bytes 4 w) = w" for w :: u32 by (rule of_le_le_bytes) simp
  moreover have "of_le (le_bytes 2 w) = w" for w :: u16 by (rule of_le_le_bytes) simp
  moreover have "ip_bytes h ! 9 = ip_protocol h" "take 4 (drop 12 (ip_bytes h)) = le_bytes 4 (src_ip h)"
    "take 4 (drop 16 (ip_bytes h)) = le_bytes 4 (dst_ip h)" "take 2 (drop 2 (ip_bytes h)) = le_bytes 2 (total_length h)"
    by (simp_all add: ip_bytes_def le_bytes_2 le_bytes_4)
  moreover have "(E @ ip_bytes h @ rest) ! 23 = ip_bytes h ! 9" using assms by (simp add: nth_append)
  ultimately show "get8 (E @ ip_bytes h @ rest) 23 = Some (ip_protocol h)" "get32 (E @ ip_bytes h @ rest) 26 = Some (src_ip h)"
    "get32 (E @ ip_bytes h @ rest) 30 = Some (dst_ip h)" "get16 (E @ ip_bytes h @ rest) 16 = Some (total_length h)"
    using assms by (simp_all add: get8_def get16_def get32_def)
qed

lemma get_ether_type:
  assumes "length d = 6" "length s = 6"
  shows "get16 (ether_bytes (create_ether_header d s type) @ rest) 12 = Some (htons type)"
proof -
  have "of_le (le_bytes 2 (htons type)) = htons type" by (rule of_le_le_bytes) simp
  then show ?thesis using assms by (simp add: get16_def ether_bytes_def create_ether_header_def)
qed

lemma get_udp_length:
  assumes "length E = 34"
  shows "get16 (E @ udp_bytes u @ rest) 38 = Some (udp_length u)"
proof -
  have "of_le (le_bytes 2 (udp_length u)) = udp_length u" by (rule of_le_le_bytes) simp
  then show ?thesis using assms by (simp add: get16_def udp_bytes_def)
qed

text \<open>What packet_recv does with a datagram for this host.\<close>

lemma packet_recv_udp:
  assumes "get16 p 12 = Some (htons ETHERTYPE_IP)" "get32 p 26 = Some (remote_ip inet)" "get32 p 30 = Some (local_ip inet)"
    "get8 p 23 = Some IP_LOAD_UDP" "get16 p 38 = Some len" "unat (ntohs len) = 8 + n" "42 + n \<le> length p"
  shows "packet_recv p inet = (if n \<le> MTU then Some (inet\<lparr>recv_data := take n (drop 42 p) @ drop n (recv_data inet), data_valid := of_nat n\<rparr>,
    Post ''udp_recv_handle'') else None)"
proof -
  have l: "8 + n < 65536" using assms(6) unat_lt [of "ntohs len"] by simp
  have "ucast (ntohs len) = (of_nat (unat (ntohs len)) :: u64)" by simp
  then have "ucast (ntohs len) - of_nat sizeof_udp = (of_nat n :: u64)" unfolding assms(6) by (simp add: sizeof_udp_def)
  moreover have "unat (of_nat n :: u64) = n" using l by (intro unat_of_nat_less) simp
  ultimately show ?thesis using assms
    by (simp add: packet_recv_def distribute_ip_reply_def distribute_udp_recv_def get_bytes_def ETHERTYPE_IP_def ETHERTYPE_ARP_def
      IP_LOAD_ICMP_def IP_LOAD_TCP_def IP_LOAD_UDP_def sizeof_udp_def)
qed

section \<open>Properties\<close>

text \<open>C25.
  A datagram that one stack sends with udp_send, arriving at the stack of the other
  host with anything behind it, is handed to udp_recv there: the first bytes, up to
  the length asked for, are the data. That holds for at most 1500 bytes of data:
  distribute_udp_recv copies what the header announces, and the datagrams of more
  than 1500 bytes, which udp_send sends as valid ones, overrun the buffer.
\<close>

theorem udp_transfer:
  assumes "macs_ok inet" "length data \<le> 65507" "remote_ip peer = local_ip inet" "local_ip peer = remote_ip inet"
  shows "\<exists>frame. udp_send pcap inet data = (if pcap frame then (inet\<lparr>sent := sent inet @ [frame]\<rparr>, Some (length data)) else (inet, None)) \<and>
    (if length data \<le> 1500
     then \<exists>peer'. packet_recv (frame @ rest) peer = Some (peer', Post ''udp_recv_handle'') \<and> (\<forall>n. udp_recv peer' n = take n data) \<and>
       tcp_status peer' = tcp_status peer \<and> seq_num peer' = seq_num peer \<and> ack_num peer' = ack_num peer
     else packet_recv (frame @ rest) peer = None)"
proof -
  let ?f = "datagram_frame data inet" and ?u = "fst (create_udp_header inet data)"
  let ?E = "ether_bytes (create_ether_header (remote_mac inet) (local_mac inet) ETHERTYPE_IP)"
  let ?I = "create_ip_header 0 (htons (of_nat (sizeof_ip + sizeof_udp + length data))) 0x3fa6 0x4000 64 IP_LOAD_UDP (local_ip inet) (remote_ip inet)"
  have E: "length ?E = 14" and E34: "length (?E @ ip_bytes ?I) = 34" using assms(1) length_ether by (simp_all add: macs_ok_def)
  have f: "?f @ rest = ?E @ ip_bytes ?I @ (udp_bytes ?u @ data @ rest)" "?f @ rest = (?E @ ip_bytes ?I) @ udp_bytes ?u @ (data @ rest)"
    by (simp_all add: datagram_frame_def)
  have g: "get16 (?f @ rest) 12 = Some (htons ETHERTYPE_IP)" "get32 (?f @ rest) 26 = Some (remote_ip peer)" "get32 (?f @ rest) 30 = Some (local_ip peer)"
    "get8 (?f @ rest) 23 = Some IP_LOAD_UDP"
    unfolding f(1) using assms(1,3,4) by (simp_all add: get_frame [OF E] get_ether_type macs_ok_def ip_header_fields)
  have l: "get16 (?f @ rest) 38 = Some (htons (of_nat (8 + length data)))"
    unfolding f(2) by (subst get_udp_length [OF E34]) (simp add: create_udp_header_def Let_def sizeof_udp_def)
  have "unat (of_nat (8 + length data) :: u16) = 8 + length data" using assms(2) by (intro unat_of_nat_less) simp
  then have n: "unat (ntohs (htons (of_nat (8 + length data)))) = 8 + length data" by simp
  have "length (?f @ rest) = 42 + length data + length rest" using E34 by (simp add: datagram_frame_def)
  then have p: "packet_recv (?f @ rest) peer = (if length data \<le> MTU then Some (peer\<lparr>recv_data := take (length data) (drop 42 (?f @ rest)) @
      drop (length data) (recv_data peer), data_valid := of_nat (length data)\<rparr>, Post ''udp_recv_handle'') else None)"
    using packet_recv_udp [OF g l n] by simp
  have "drop 42 (?f @ rest) = data @ rest" unfolding f(2) using E34 by simp
  moreover have "unat (of_nat (length data) :: u64) = length data" using assms(2) by (intro unat_of_nat_less) simp
  ultimately have r: "udp_recv (peer\<lparr>recv_data := take (length data) (drop 42 (?f @ rest)) @ drop (length data) (recv_data peer),
      data_valid := of_nat (length data)\<rparr>) n = take n data" for n
    by (simp add: udp_recv_def min_def)
  show ?thesis using p r by (intro exI [of _ ?f]) (simp add: udp_send_frame pcap_sendpacket_def MTU_def)
qed

definition demo_peer :: inet_info where
  "demo_peer = demo_inet\<lparr>local_ip := remote_ip demo_inet, remote_ip := local_ip demo_inet\<rparr>"

theorem udp_transfer_witness:
  "\<exists>frame peer'. udp_send (\<lambda>_. True) demo_inet [104, 105] = (demo_inet\<lparr>sent := [frame]\<rparr>, Some 2) \<and>
     packet_recv (frame @ [0, 0]) demo_peer = Some (peer', Post ''udp_recv_handle'') \<and> udp_recv peer' 1 = [104]"
  using udp_transfer [of demo_inet "[104, 105]" demo_peer "\<lambda>_. True" "[0, 0]"] by (auto simp: macs_ok_def demo_inet_def demo_peer_def)

end
