(* ===== verification/NetTcp.thy ===== *)
theory NetTcp
  imports NetRecv
begin

text \<open>
  The TCP connection of the user-space protocol stack as threads in every
  interleaving: tcp_connect_handle (netstack/protocol/entry.cpp), which sends SYN,
  waits to be posted and sends ACK, and the monitor thread, which receives packets
  (packet_recv) and performs the last effect of their handlers. A step is a statement
  that touches the shared state. The thread of udp_recv_handle, which also waits for
  the monitor, takes part with its steps of nst_wait_by_name; the thread
  tcp_data_recv_handle only looks at the shared state. While the connection is made
  the main thread waits in a join; its steps before and after that are those of the
  theory NetMain, which also shows that, up to the join, nothing else is possible.
\<close>

section \<open>The threads\<close>

datatype connect_pc = Send_syn | Set_hand_1 | Unpost | Enroll | Waiting | Reset | Check | Set_connected | Ended

datatype monitor_pc = Recv | Act action | Monitor_enroll | Monitor_waiting | Monitor_reset | Send_ack

record net =
  inet :: inet_info
  threads :: threads
  connect :: connect_pc
  monitor :: monitor_pc

text \<open>tcp_connect_handle. No step: the thread waits, has ended, or the program exits.\<close>

definition tcp_connect_handle :: "(u8 list \<Rightarrow> bool) \<Rightarrow> 'z net_scheme \<Rightarrow> 'z net_scheme option" where
  "tcp_connect_handle pcap s = (case connect s of
     Send_syn \<Rightarrow> map_option (\<lambda>i. s\<lparr>inet := i, connect := Set_hand_1\<rparr>) (tcp_send_control pcap TCP_SYN (inet s))
   | Set_hand_1 \<Rightarrow> Some (s\<lparr>inet := (inet s)\<lparr>tcp_status := TCP_HAND_1\<rparr>, connect := Unpost\<rparr>)
   | Unpost \<Rightarrow> map_option (\<lambda>ts. s\<lparr>threads := ts, connect := Enroll\<rparr>) (wait_unpost ''tcp_connect_handle'' ''monitor_handle'' (threads s))
   | Enroll \<Rightarrow> map_option (\<lambda>ts. s\<lparr>threads := ts, connect := Waiting\<rparr>) (wait_enroll ''tcp_connect_handle'' ''monitor_handle'' (threads s))
   | Waiting \<Rightarrow> if wait_over ''tcp_connect_handle'' (threads s) then Some (s\<lparr>connect := Reset\<rparr>) else None
   | Reset \<Rightarrow> map_option (\<lambda>ts. s\<lparr>threads := ts, connect := Check\<rparr>) (wait_reset ''tcp_connect_handle'' (threads s))
   | Check \<Rightarrow>
       if tcp_status (inet s) = TCP_HAND_2
       then map_option (\<lambda>i. s\<lparr>inet := i, connect := Set_connected\<rparr>) (tcp_send_control pcap TCP_ACK (inet s))
       else Some (s\<lparr>connect := Ended\<rparr>)
   | Set_connected \<Rightarrow> Some (s\<lparr>inet := (inet s)\<lparr>tcp_status := TCP_CONNECTED\<rparr>, connect := Ended\<rparr>)
   | Ended \<Rightarrow> None)"

text \<open>The monitor: a packet arrives, and what its handler has left to do.\<close>

definition monitor_recv :: "u8 list \<Rightarrow> 'z net_scheme \<Rightarrow> 'z net_scheme option" where
  "monitor_recv packet s =
     (if monitor s = Recv
      then map_option (\<lambda>(i, a). s\<lparr>inet := i, monitor := Act a\<rparr>) (packet_recv packet (inet s))
      else None)"

definition monitor_act :: "(u8 list \<Rightarrow> bool) \<Rightarrow> 'z net_scheme \<Rightarrow> 'z net_scheme option" where
  "monitor_act pcap s = (case monitor s of
     Recv \<Rightarrow> None
   | Act Nothing \<Rightarrow> Some (s\<lparr>monitor := Recv\<rparr>)
   | Act (Post name) \<Rightarrow> map_option (\<lambda>ts. s\<lparr>threads := ts, monitor := Recv\<rparr>) (nst_post_by_name ''monitor_handle'' name (threads s))
   | Act Ack \<Rightarrow> Some (s\<lparr>monitor := Send_ack\<rparr>)
   | Act Wait_ack \<Rightarrow> map_option (\<lambda>ts. s\<lparr>threads := ts, monitor := Monitor_enroll\<rparr>)
       (wait_unpost ''monitor_handle'' ''tcp_data_recv_handle'' (threads s))
   | Monitor_enroll \<Rightarrow> map_option (\<lambda>ts. s\<lparr>threads := ts, monitor := Monitor_waiting\<rparr>)
       (wait_enroll ''monitor_handle'' ''tcp_data_recv_handle'' (threads s))
   | Monitor_waiting \<Rightarrow> if wait_over ''monitor_handle'' (threads s) then Some (s\<lparr>monitor := Monitor_reset\<rparr>) else None
   | Monitor_reset \<Rightarrow> map_option (\<lambda>ts. s\<lparr>threads := ts, monitor := Send_ack\<rparr>) (wait_reset ''monitor_handle'' (threads s))
   | Send_ack \<Rightarrow> map_option (\<lambda>i. s\<lparr>inet := i, monitor := Recv\<rparr>) (tcp_send_control pcap TCP_ACK (inet s)))"

text \<open>The steps of nst_wait_by_name that udp_recv makes.\<close>

definition udp_recv_wait :: "'z net_scheme \<Rightarrow> 'z net_scheme option" where
  "udp_recv_wait s = map_option (\<lambda>ts. s\<lparr>threads := ts\<rparr>) (wait_unpost ''udp_recv_handle'' ''monitor_handle'' (threads s))"

definition udp_recv_enroll :: "'z net_scheme \<Rightarrow> 'z net_scheme option" where
  "udp_recv_enroll s = map_option (\<lambda>ts. s\<lparr>threads := ts\<rparr>) (wait_enroll ''udp_recv_handle'' ''monitor_handle'' (threads s))"

text \<open>
  The executions of one connection, from a state in which the main thread waits for
  its end, with the packets received so far.
\<close>

inductive net_run :: "(u8 list \<Rightarrow> bool) \<Rightarrow> net \<Rightarrow> u8 list list \<Rightarrow> net \<Rightarrow> bool" for pcap s0 where
  start: "net_run pcap s0 [] s0"
| connect: "net_run pcap s0 tr s \<Longrightarrow> tcp_connect_handle pcap s = Some s' \<Longrightarrow> net_run pcap s0 tr s'"
| recv: "net_run pcap s0 tr s \<Longrightarrow> monitor_recv packet s = Some s' \<Longrightarrow> net_run pcap s0 (tr @ [packet]) s'"
| act: "net_run pcap s0 tr s \<Longrightarrow> monitor_act pcap s = Some s' \<Longrightarrow> net_run pcap s0 tr s'"
| udp_wait: "net_run pcap s0 tr s \<Longrightarrow> udp_recv_wait s = Some s' \<Longrightarrow> net_run pcap s0 tr s'"
| udp_enroll: "net_run pcap s0 tr s \<Longrightarrow> udp_recv_enroll s = Some s' \<Longrightarrow> net_run pcap s0 tr s'"

text \<open>
  The contract of an invariant of the threads: every step of every thread keeps it,
  for packets that satisfy \<open>ok\<close>. It may depend on the packets received.
\<close>

locale net_invariant =
  fixes I :: "u8 list list \<Rightarrow> net \<Rightarrow> bool" and ok :: "u8 list \<Rightarrow> bool" and pcap :: "u8 list \<Rightarrow> bool"
  assumes connect_keeps: "I tr s \<Longrightarrow> tcp_connect_handle pcap s = Some s' \<Longrightarrow> I tr s'"
    and recv_keeps: "I tr s \<Longrightarrow> monitor_recv p s = Some s' \<Longrightarrow> ok p \<Longrightarrow> I (tr @ [p]) s'"
    and act_keeps: "I tr s \<Longrightarrow> monitor_act pcap s = Some s' \<Longrightarrow> I tr s'"
    and udp_keeps: "I tr s \<Longrightarrow> udp_recv_wait s = Some s' \<or> udp_recv_enroll s = Some s' \<Longrightarrow> I tr s'"
begin

lemma run_keeps: "net_run pcap s0 tr s \<Longrightarrow> I [] s0 \<Longrightarrow> \<forall>p \<in> set tr. ok p \<Longrightarrow> I tr s"
proof (induction rule: net_run.induct)
  case (recv tr s packet s')
  then show ?case using recv_keeps by simp
qed (use connect_keeps act_keeps udp_keeps in blast)+

end

section \<open>What a packet changes\<close>

text \<open>The connection of a state: what only the TCP handlers change.\<close>

definition same_connection :: "inet_info \<Rightarrow> inet_info \<Rightarrow> bool" where
  "same_connection i j \<longleftrightarrow> tcp_status i = tcp_status j \<and> seq_num i = seq_num j \<and> ack_num i = ack_num j \<and> sent i = sent j \<and> (macs_ok j \<longrightarrow> macs_ok i)"

text \<open>The segment of a packet: its flags and its sequence number.\<close>

definition is_syn_ack :: "u8 list \<Rightarrow> u32 \<Rightarrow> bool" where
  "is_syn_ack p q \<longleftrightarrow> get8 p 47 = Some TCP_SYN_ACK \<and> map_option ntohl (get32 p 38) = Some q"

definition is_data :: "u8 list \<Rightarrow> bool" where
  "is_data p \<longleftrightarrow> get16 p 12 = Some (htons ETHERTYPE_IP) \<and> get8 p 23 = Some IP_LOAD_TCP \<and> get8 p 47 = Some TCP_PSH_ACK"

lemma flags_distinct: "TCP_ACK \<noteq> TCP_SYN_ACK" "TCP_ACK \<noteq> TCP_PSH_ACK" "TCP_SYN_ACK \<noteq> TCP_PSH_ACK"
  by (simp_all add: TCP_ACK_def TCP_SYN_ACK_def TCP_PSH_ACK_def TCP_SYN_def TCP_PSH_def)

lemma types_distinct: "ETHERTYPE_IP \<noteq> ETHERTYPE_ARP" "IP_LOAD_TCP \<noteq> IP_LOAD_ICMP" "IP_LOAD_TCP \<noteq> IP_LOAD_UDP"
  by (simp_all add: ETHERTYPE_IP_def ETHERTYPE_ARP_def IP_LOAD_TCP_def IP_LOAD_ICMP_def IP_LOAD_UDP_def)

lemma same_connection_refl [simp]: "same_connection i i"
  by (simp add: same_connection_def)

definition quiet :: "action \<Rightarrow> bool" where
  "quiet a \<longleftrightarrow> a = Nothing \<or> a = Post ''icmp_req_handle'' \<or> a = Post ''udp_recv_handle''"

lemma arp_quiet: "deal_arp_reply p i = Some (j, hit) \<Longrightarrow> same_connection j i"
  by (auto simp: deal_arp_reply_def get_bytes_def same_connection_def macs_ok_def bind_eq_Some_conv split: if_splits)

lemma icmp_quiet: "distribute_icmp_reply p i = Some (j, a) \<Longrightarrow> same_connection j i \<and> quiet a"
  by (auto simp: distribute_icmp_reply_def same_connection_def macs_ok_def quiet_def bind_eq_Some_conv split: if_splits)

lemma udp_quiet: "distribute_udp_recv p i = Some (j, a) \<Longrightarrow> same_connection j i \<and> quiet a"
  by (auto simp: distribute_udp_recv_def same_connection_def macs_ok_def quiet_def bind_eq_Some_conv Let_def split: if_splits)

definition handshake_effect :: "u8 list \<Rightarrow> inet_info \<Rightarrow> inet_info \<Rightarrow> action \<Rightarrow> bool" where
  "handshake_effect p i j a \<longleftrightarrow> (\<exists>q. is_syn_ack p q \<and> tcp_status i = TCP_HAND_1 \<and> a = Post ''tcp_connect_handle'' \<and>
     j = i\<lparr>tcp_status := TCP_HAND_2, seq_num := seq_num i + 1, ack_num := q + 1\<rparr>)"

definition data_effect :: "u8 list \<Rightarrow> inet_info \<Rightarrow> inet_info \<Rightarrow> action \<Rightarrow> bool" where
  "data_effect p i j a \<longleftrightarrow> get8 p 47 = Some TCP_PSH_ACK \<and> (\<exists>n. j = i\<lparr>seq_num := seq_num i + 1, ack_num := n\<rparr>) \<and>
     a = (if tcp_status i = TCP_CONNECTED then Wait_ack else Ack)"

lemma data_action: "deal_tcp_data_recv p k n i = Some a \<Longrightarrow> a = (if tcp_status i = TCP_CONNECTED then Wait_ack else Ack)"
  by (auto simp: deal_tcp_data_recv_def Let_def bind_eq_Some_conv split: if_splits)

lemma tcp_effects:
  assumes "distribute_tcp_recv p n i = Some (j, a)"
  shows "same_connection j i \<and> quiet a \<or> handshake_effect p i j a \<or> data_effect p i j a"
proof -
  obtain f where f: "get8 p 47 = Some f" using assms by (auto simp: distribute_tcp_recv_def bind_eq_Some_conv)
  consider "f = TCP_SYN_ACK" "tcp_status i = TCP_HAND_1" | "f = TCP_PSH_ACK" | "f \<noteq> TCP_PSH_ACK" "\<not> (f = TCP_SYN_ACK \<and> tcp_status i = TCP_HAND_1)"
    by blast
  then show ?thesis
  proof cases
    case 1
    then show ?thesis using assms f flags_distinct
      by (auto simp: distribute_tcp_recv_def bind_eq_Some_conv handshake_effect_def is_syn_ack_def)
  next
    case 2
    then show ?thesis using assms f flags_distinct
      by (auto simp: distribute_tcp_recv_def bind_eq_Some_conv data_effect_def Let_def dest: data_action)
  next
    case 3
    then have "j = i \<and> a = Nothing" using assms f by (auto simp: distribute_tcp_recv_def bind_eq_Some_conv split: if_splits)
    then show ?thesis by (simp add: quiet_def)
  qed
qed

lemma ip_effects:
  assumes "distribute_ip_reply p i = Some (j, a)"
  shows "same_connection j i \<and> quiet a \<or> handshake_effect p i j a \<or> (get8 p 23 = Some IP_LOAD_TCP \<and> data_effect p i j a)"
proof -
  consider "j = i" "a = Nothing" | "distribute_icmp_reply p i = Some (j, a)" | "distribute_udp_recv p i = Some (j, a)"
    | n where "distribute_tcp_recv p n i = Some (j, a)" "get8 p 23 = Some IP_LOAD_TCP"
    using assms by (auto simp: distribute_ip_reply_def bind_eq_Some_conv split: if_splits)
  then show ?thesis
  proof cases
    case 1
    then show ?thesis by (simp add: quiet_def)
  next
    case 2
    then show ?thesis using icmp_quiet by blast
  next
    case 3
    then show ?thesis using udp_quiet by blast
  next
    case 4
    then show ?thesis using tcp_effects by blast
  qed
qed

lemma packet_effects:
  assumes "packet_recv p i = Some (j, a)"
  shows "same_connection j i \<and> quiet a \<or> handshake_effect p i j a \<or> (is_data p \<and> data_effect p i j a)"
proof -
  obtain t where t: "get16 p 12 = Some t" using assms by (auto simp: packet_recv_def bind_eq_Some_conv)
  consider "distribute_ip_reply p i = Some (j, a)" "ntohs t = ETHERTYPE_IP" | hit where "deal_arp_reply p i = Some (j, hit)" "quiet a" | "j = i" "a = Nothing"
    using assms t by (auto simp: packet_recv_def bind_eq_Some_conv quiet_def split: if_splits)
  then show ?thesis
  proof cases
    case 1
    then have "get16 p 12 = Some (htons ETHERTYPE_IP)" using t by (metis htons_htons)
    then show ?thesis using ip_effects [OF 1(1)] by (auto simp: is_data_def data_effect_def)
  next
    case 2
    then show ?thesis using arp_quiet by blast
  next
    case 3
    then show ?thesis by (simp add: quiet_def)
  qed
qed

section \<open>The handshake\<close>

lemma unpost_over: "wait_unpost cur w ts = Some ts' \<Longrightarrow> wait_over n ts' \<longleftrightarrow> n \<noteq> cur \<and> wait_over n ts"
  by (auto simp: wait_unpost_def wait_over_def bind_eq_Some_conv split: option.splits if_splits)

lemma reset_over: "wait_reset cur ts = Some ts' \<Longrightarrow> wait_over n ts' \<longleftrightarrow> n \<noteq> cur \<and> wait_over n ts"
  by (auto simp: wait_reset_def wait_over_def bind_eq_Some_conv split: option.splits if_splits)

lemma enroll_over: "wait_enroll cur w ts = Some ts' \<Longrightarrow> wait_over n ts' \<longleftrightarrow> wait_over n ts"
  by (auto simp: wait_enroll_def wait_over_def bind_eq_Some_conv split: option.splits if_splits)

lemma post_over: "nst_post_by_name cur name ts = Some ts' \<Longrightarrow> wait_over n ts' \<Longrightarrow> n = name \<or> wait_over n ts"
  by (auto simp: nst_post_by_name_def wait_over_def Let_def bind_eq_Some_conv split: option.splits if_splits)

definition syn_sent :: "u32 \<Rightarrow> u8 list list \<Rightarrow> u8 list list \<Rightarrow> bool" where
  "syn_sent isn old out \<longleftrightarrow> (\<exists>syn. out = old @ [syn] \<and> receiver_accepts syn \<and> segment_numbers syn = (TCP_SYN, isn, 0))"

definition answered :: "u8 list list \<Rightarrow> u32 \<Rightarrow> u32 \<Rightarrow> inet_info \<Rightarrow> bool" where
  "answered tr isn q i \<longleftrightarrow> seq_num i = isn + 1 \<and> ack_num i = q + 1 \<and> (\<exists>p \<in> set tr. is_syn_ack p q)"

definition ack_sent :: "u32 \<Rightarrow> u32 \<Rightarrow> u8 list list \<Rightarrow> u8 list list \<Rightarrow> bool" where
  "ack_sent isn q old out \<longleftrightarrow> (\<exists>syn ack. out = old @ [syn, ack] \<and> receiver_accepts syn \<and> receiver_accepts ack \<and>
     segment_numbers syn = (TCP_SYN, isn, 0) \<and> segment_numbers ack = (TCP_ACK, isn + 1, q + 1))"

definition fresh :: "u32 \<Rightarrow> inet_info \<Rightarrow> bool" where
  "fresh isn i \<longleftrightarrow> seq_num i = isn \<and> ack_num i = 0"

fun phase :: "u32 \<Rightarrow> u8 list list \<Rightarrow> u8 list list \<Rightarrow> connect_pc \<Rightarrow> inet_info \<Rightarrow> bool" where
  "phase isn old tr Send_syn i = (tcp_status i = TCP_CLOSED \<and> fresh isn i \<and> sent i = old)"
| "phase isn old tr Set_hand_1 i = (tcp_status i = TCP_CLOSED \<and> fresh isn i \<and> syn_sent isn old (sent i))"
| "phase isn old tr Reset i = (tcp_status i = TCP_HAND_2 \<and> (\<exists>q. answered tr isn q i) \<and> syn_sent isn old (sent i))"
| "phase isn old tr Check i = (tcp_status i = TCP_HAND_2 \<and> (\<exists>q. answered tr isn q i) \<and> syn_sent isn old (sent i))"
| "phase isn old tr Set_connected i = (tcp_status i = TCP_HAND_2 \<and> (\<exists>q. answered tr isn q i \<and> ack_sent isn q old (sent i)))"
| "phase isn old tr Ended i = (tcp_status i = TCP_CONNECTED \<and> (\<exists>q. answered tr isn q i \<and> ack_sent isn q old (sent i)))"
| "phase isn old tr _ i = ((tcp_status i = TCP_HAND_1 \<and> fresh isn i \<or> tcp_status i = TCP_HAND_2 \<and> (\<exists>q. answered tr isn q i)) \<and> syn_sent isn old (sent i))"

definition handshake_inv :: "u32 \<Rightarrow> u8 list list \<Rightarrow> u8 list list \<Rightarrow> net \<Rightarrow> bool" where
  "handshake_inv isn old tr s \<longleftrightarrow> macs_ok (inet s) \<and> phase isn old tr (connect s) (inet s) \<and>
     (monitor s = Recv \<or> (\<exists>a. monitor s = Act a \<and> (quiet a \<or> a = Post ''tcp_connect_handle'' \<and> tcp_status (inet s) \<in> {TCP_HAND_2, TCP_CONNECTED}))) \<and>
     (wait_over ''tcp_connect_handle'' (threads s) \<longrightarrow> tcp_status (inet s) \<in> {TCP_HAND_2, TCP_CONNECTED})"

lemma phase_same: "same_connection j i \<Longrightarrow> phase isn old tr pc j = phase isn old tr pc i"
  by (cases pc) (auto simp: same_connection_def answered_def fresh_def)

lemma phase_trace: "phase isn old tr pc i \<Longrightarrow> phase isn old (tr @ [p]) pc i"
  by (cases pc) (auto simp: answered_def)

lemma phase_answer:
  assumes "phase isn old tr pc i" "handshake_effect p i j a"
  shows "phase isn old (tr @ [p]) pc j"
proof -
  have "pc = Unpost \<or> pc = Enroll \<or> pc = Waiting" using assms by (cases pc) (auto simp: handshake_effect_def)
  moreover obtain q where "is_syn_ack p q" "tcp_status i = TCP_HAND_1" "j = i\<lparr>tcp_status := TCP_HAND_2, seq_num := seq_num i + 1, ack_num := q + 1\<rparr>"
    using assms(2) by (auto simp: handshake_effect_def)
  ultimately show ?thesis using assms(1) by (auto simp: answered_def fresh_def)
qed

lemma control_sent:
  assumes "tcp_send_control pcap f i = Some j" "macs_ok i"
  obtains frame where "j = i\<lparr>sent := sent i @ [frame]\<rparr>" "receiver_accepts frame" "segment_numbers frame = (f, seq_num i, ack_num i)"
  using assms control_accepted [of i f] frame_numbers(1) [of i f] by (auto simp: send_frames pcap_sendpacket_def split: if_splits)

lemma handshake_recv:
  assumes "handshake_inv isn old tr s" "monitor_recv p s = Some s'" "\<not> is_data p"
  shows "handshake_inv isn old (tr @ [p]) s'"
proof -
  obtain j a where r: "packet_recv p (inet s) = Some (j, a)" "s' = s\<lparr>inet := j, monitor := Act a\<rparr>"
    using assms(2) by (auto simp: monitor_recv_def split: if_splits)
  from packet_effects [OF r(1)] assms(3) consider "same_connection j (inet s)" "quiet a" | "handshake_effect p (inet s) j a" by blast
  then show ?thesis
  proof cases
    case 1
    moreover from this have "phase isn old (tr @ [p]) (connect s) j" using assms(1) by (simp add: handshake_inv_def phase_same phase_trace)
    ultimately show ?thesis using assms(1) r(2) by (auto simp: handshake_inv_def same_connection_def)
  next
    case 2
    then have "phase isn old (tr @ [p]) (connect s) j" using assms(1) by (intro phase_answer) (auto simp: handshake_inv_def)
    then show ?thesis using 2 assms(1) r(2) by (auto simp: handshake_inv_def handshake_effect_def macs_ok_def)
  qed
qed

lemma handshake_connect:
  assumes inv: "handshake_inv isn old tr s" and step: "tcp_connect_handle pcap s = Some s'"
  shows "handshake_inv isn old tr s'"
proof (cases "connect s")
  case Send_syn
  then obtain j where "tcp_send_control pcap TCP_SYN (inet s) = Some j" "s' = s\<lparr>inet := j, connect := Set_hand_1\<rparr>"
    using step by (auto simp: tcp_connect_handle_def)
  moreover from this(1) inv obtain f where "j = (inet s)\<lparr>sent := sent (inet s) @ [f]\<rparr>" "receiver_accepts f"
    "segment_numbers f = (TCP_SYN, seq_num (inet s), ack_num (inet s))" by (auto simp: handshake_inv_def elim: control_sent)
  ultimately show ?thesis using inv Send_syn by (auto simp: handshake_inv_def fresh_def syn_sent_def macs_ok_def)
next
  case Check
  then have st: "tcp_status (inet s) = TCP_HAND_2" using inv by (simp add: handshake_inv_def)
  then obtain j where "tcp_send_control pcap TCP_ACK (inet s) = Some j" "s' = s\<lparr>inet := j, connect := Set_connected\<rparr>"
    using Check step by (auto simp: tcp_connect_handle_def)
  moreover from this(1) inv obtain f where "j = (inet s)\<lparr>sent := sent (inet s) @ [f]\<rparr>" "receiver_accepts f"
    "segment_numbers f = (TCP_ACK, seq_num (inet s), ack_num (inet s))" by (auto simp: handshake_inv_def elim: control_sent)
  ultimately show ?thesis using inv Check st
    by (auto simp: handshake_inv_def answered_def syn_sent_def ack_sent_def macs_ok_def)
next
  case Set_hand_1
  then show ?thesis using inv step by (auto simp: tcp_connect_handle_def handshake_inv_def fresh_def macs_ok_def)
next
  case Set_connected
  then show ?thesis using inv step by (auto simp: tcp_connect_handle_def handshake_inv_def answered_def macs_ok_def)
next
  case Unpost
  then show ?thesis using inv step unpost_over by (auto simp: tcp_connect_handle_def handshake_inv_def)
next
  case Enroll
  then show ?thesis using inv step enroll_over by (auto simp: tcp_connect_handle_def handshake_inv_def)
next
  case Waiting
  then show ?thesis using inv step by (auto simp: tcp_connect_handle_def handshake_inv_def split: if_splits)
next
  case Reset
  then show ?thesis using inv step reset_over by (auto simp: tcp_connect_handle_def handshake_inv_def)
next
  case Ended
  then show ?thesis using step by (simp add: tcp_connect_handle_def)
qed

lemma quiet_cases: "quiet a \<Longrightarrow> a = Nothing \<or> (\<exists>n. a = Post n \<and> n \<noteq> ''tcp_connect_handle'')"
  by (auto simp: quiet_def)

lemma handshake_act:
  assumes inv: "handshake_inv isn old tr s" and step: "monitor_act pcap s = Some s'"
  shows "handshake_inv isn old tr s'"
proof -
  consider "monitor s = Act Nothing" | n where "monitor s = Act (Post n)"
      "n = ''tcp_connect_handle'' \<longrightarrow> tcp_status (inet s) \<in> {TCP_HAND_2, TCP_CONNECTED}"
    using inv step quiet_cases by (fastforce simp: handshake_inv_def monitor_act_def)
  then show ?thesis
  proof cases
    case 1
    then show ?thesis using inv step by (auto simp: monitor_act_def handshake_inv_def)
  next
    case 2
    then obtain ts where "nst_post_by_name ''monitor_handle'' n (threads s) = Some ts" "s' = s\<lparr>threads := ts, monitor := Recv\<rparr>"
      using step by (auto simp: monitor_act_def)
    then show ?thesis using 2 inv post_over [of "''monitor_handle''" n "threads s" ts "''tcp_connect_handle''"]
      by (auto simp: handshake_inv_def)
  qed
qed

lemma handshake_udp:
  assumes "handshake_inv isn old tr s" "udp_recv_wait s = Some s' \<or> udp_recv_enroll s = Some s'"
  shows "handshake_inv isn old tr s'"
  using assms unpost_over enroll_over by (auto simp: udp_recv_wait_def udp_recv_enroll_def handshake_inv_def)

interpretation handshake: net_invariant "handshake_inv isn old" "\<lambda>p. \<not> is_data p" pcap
  by unfold_locales (fact handshake_connect handshake_recv handshake_act handshake_udp)+

section \<open>Segments from the stack of the other host\<close>

lemma get_tcp:
  assumes "length E = 34"
  shows "get8 (E @ tcp_bytes t @ rest) 47 = Some (tcp_flags t)" "get8 (E @ tcp_bytes t @ rest) 46 = Some (data_offset t)"
    "get32 (E @ tcp_bytes t @ rest) 38 = Some (sequence_num t)"
proof -
  have t: "tcp_bytes t ! 13 = tcp_flags t" "tcp_bytes t ! 12 = data_offset t" "take 4 (drop 4 (tcp_bytes t)) = le_bytes 4 (sequence_num t)"
    by (simp_all add: tcp_bytes_def le_bytes_2 le_bytes_4)
  have "(E @ tcp_bytes t @ rest) ! 47 = tcp_bytes t ! 13" "(E @ tcp_bytes t @ rest) ! 46 = tcp_bytes t ! 12"
    using assms by (simp_all add: nth_append)
  moreover have "of_le (le_bytes 4 w) = w" for w :: u32 by (rule of_le_le_bytes) simp
  ultimately show "get8 (E @ tcp_bytes t @ rest) 47 = Some (tcp_flags t)" "get8 (E @ tcp_bytes t @ rest) 46 = Some (data_offset t)"
    "get32 (E @ tcp_bytes t @ rest) 38 = Some (sequence_num t)"
    using assms t by (simp_all add: get8_def get32_def)
qed

lemma sint_small:
  assumes "n < 2 ^ 31"
  shows "sint (ucast (of_nat n :: u64) :: u32) = int n"
proof -
  have "unat (of_nat n :: u64) = n" using assms by (intro unat_of_nat_less) simp
  then have "ucast (of_nat n :: u64) = (of_nat n :: u32)" by (metis of_nat_unat)
  moreover have "unat (of_nat n :: u32) = n" using assms by (intro unat_of_nat_less) simp
  then have "uint (of_nat n :: u32) = int n" by (metis uint_nat)
  ultimately show ?thesis using assms by (simp add: sint_uint signed_take_bit_int_eq_self)
qed

definition hosts :: "inet_info \<Rightarrow> inet_info \<Rightarrow> bool" where
  "hosts i peer \<longleftrightarrow> remote_ip i = local_ip peer \<and> local_ip i = remote_ip peer \<and> macs_ok peer"

lemma tcp_frame_recv:
  fixes peer :: inet_info and opts d rest :: "u8 list" and f :: u8 and q a :: u32
  defines "p \<equiv> ether_bytes (create_ether_header (remote_mac peer) (local_mac peer) ETHERTYPE_IP) @
     ip_bytes (create_ip_protocol_header peer (htons (of_nat (sizeof_ip + sizeof_tcp + length (opts @ d)))) IP_LOAD_TCP) @
     tcp_bytes (create_tcp_header peer f q a opts d) @ opts @ d @ rest"
  assumes "hosts i peer" "length (opts @ d) \<le> 65495"
  shows "packet_recv p i = distribute_tcp_recv p (of_nat (20 + length (opts @ d))) i" "get8 p 47 = Some f"
    "get8 p 46 = Some (push_bit 4 (of_nat ((20 + length opts) div 4)))" "get32 p 38 = Some (htonl q)"
    "print_hex_reads p 34 (of_nat (20 + length (opts @ d))) = Some ()" "length p = 54 + length (opts @ d) + length rest"
    "is_data p \<longleftrightarrow> f = TCP_PSH_ACK"
proof -
  let ?E = "ether_bytes (create_ether_header (remote_mac peer) (local_mac peer) ETHERTYPE_IP)" and ?n = "length (opts @ d)"
  let ?I = "create_ip_protocol_header peer (htons (of_nat (sizeof_ip + sizeof_tcp + ?n))) IP_LOAD_TCP"
  let ?T = "create_tcp_header peer f q a opts d"
  have E: "length ?E = 14" and E34: "length (?E @ ip_bytes ?I) = 34" using assms(2) length_ether by (simp_all add: hosts_def macs_ok_def)
  have p: "p = ?E @ ip_bytes ?I @ (tcp_bytes ?T @ opts @ d @ rest)" "p = (?E @ ip_bytes ?I) @ tcp_bytes ?T @ (opts @ d @ rest)"
    by (simp_all add: p_def)
  have g: "get16 p 12 = Some (htons ETHERTYPE_IP)" "get32 p 26 = Some (remote_ip i)" "get32 p 30 = Some (local_ip i)"
    "get8 p 23 = Some IP_LOAD_TCP" "get16 p 16 = Some (htons (of_nat (40 + ?n)))"
    unfolding p(1) using assms(2) by (simp_all add: get_frame [OF E] get_ether_type hosts_def macs_ok_def ip_protocol_header sizeof_ip_def sizeof_tcp_def)
  have "unat (of_nat (40 + ?n) :: u16) = 40 + ?n" using assms(3) by (intro unat_of_nat_less) simp
  then have "ucast (of_nat (40 + ?n) :: u16) = (of_nat (40 + ?n) :: u64)" by (metis of_nat_unat)
  then have "ucast (ntohs (htons (of_nat (40 + ?n)))) - of_nat sizeof_ip = (of_nat (20 + ?n) :: u64)" by (simp add: sizeof_ip_def)
  then show "packet_recv p i = distribute_tcp_recv p (of_nat (20 + ?n)) i"
    using g types_distinct by (simp add: packet_recv_def distribute_ip_reply_def)
  show t: "get8 p 47 = Some f" "get8 p 46 = Some (push_bit 4 (of_nat ((20 + length opts) div 4)))" "get32 p 38 = Some (htonl q)"
    unfolding p(2) using get_tcp [OF E34] by (simp_all add: create_tcp_header_def Let_def sizeof_tcp_def)
  show l: "length p = 54 + ?n + length rest" unfolding p(2) using E34 by simp
  have "sint (ucast (of_nat (20 + ?n) :: u64) :: u32) = int (20 + ?n)" using assms(3) by (intro sint_small) simp
  then show "print_hex_reads p 34 (of_nat (20 + ?n)) = Some ()" using l by (simp add: print_hex_reads_def Let_def)
  show "is_data p \<longleftrightarrow> f = TCP_PSH_ACK" using g t by (simp add: is_data_def)
qed

lemma syn_ack_recv:
  assumes "hosts i peer" "tcp_status i = TCP_HAND_1"
  shows "packet_recv (control_frame TCP_SYN_ACK peer @ rest) i =
    Some (i\<lparr>tcp_status := TCP_HAND_2, seq_num := seq_num i + 1, ack_num := seq_num peer + 1\<rparr>, Post ''tcp_connect_handle'')"
proof -
  let ?p = "control_frame TCP_SYN_ACK peer @ rest"
  have "length (tcp_options @ []) \<le> 65495" by (simp add: tcp_options_def)
  note r = tcp_frame_recv [OF assms(1) this, where f = TCP_SYN_ACK and q = "seq_num peer" and a = "ack_num peer" and rest = rest]
  have p: "ether_bytes (create_ether_header (remote_mac peer) (local_mac peer) ETHERTYPE_IP) @
     ip_bytes (create_ip_protocol_header peer (htons (of_nat (sizeof_ip + sizeof_tcp + length (tcp_options @ [])))) IP_LOAD_TCP) @
     tcp_bytes (create_tcp_header peer TCP_SYN_ACK (seq_num peer) (ack_num peer) tcp_options []) @ tcp_options @ [] @ rest = ?p"
    by (simp add: control_frame_def)
  show ?thesis using r(1,2,4,5) flags_distinct(1) assms(2) unfolding p by (simp add: distribute_tcp_recv_def)
qed

lemma data_recv:
  assumes "hosts i peer" "length data \<le> 65495" "rest \<noteq> []"
  shows "packet_recv (data_frame data peer @ rest) i =
    Some (i\<lparr>seq_num := seq_num i + 1, ack_num := seq_num peer + of_nat (length data)\<rparr>, if tcp_status i = TCP_CONNECTED then Wait_ack else Ack)"
proof -
  let ?p = "data_frame data peer @ rest" and ?n = "length data"
  have "length ([] @ data) \<le> 65495" using assms(2) by simp
  note r = tcp_frame_recv [OF assms(1) this, where f = TCP_PSH_ACK and q = "seq_num peer" and a = "ack_num peer" and rest = rest]
  have p: "ether_bytes (create_ether_header (remote_mac peer) (local_mac peer) ETHERTYPE_IP) @
     ip_bytes (create_ip_protocol_header peer (htons (of_nat (sizeof_ip + sizeof_tcp + length ([] @ data)))) IP_LOAD_TCP) @
     tcp_bytes (create_tcp_header peer TCP_PSH_ACK (seq_num peer) (ack_num peer) [] data) @ [] @ data @ rest = ?p"
    by (simp add: data_frame_def)
  have o5: "push_bit 4 (of_nat ((20 + length ([] :: u8 list)) div 4)) = (0x50 :: u8)" by simp
  have s20: "ucast (drop_bit 4 (0x50 :: u8)) * 4 = (20 :: u64)" by simp
  have len: "of_nat (20 + length ([] @ data)) - (20 :: u64) = of_nat ?n" by simp
  have un: "unat (of_nat (54 + ?n) :: u64) = 54 + ?n" using assms(2) by (intro unat_of_nat_less) simp
  then have last: "unat (54 + of_nat ?n :: u64) = 54 + ?n" by simp
  have lp: "54 + ?n < length ?p" using r(6) assms(3) unfolding p by simp
  have "unat (of_nat ?n :: u64) = ?n" using assms(2) by (intro unat_of_nat_less) simp
  then have uc: "ucast (of_nat ?n :: u64) = (of_nat ?n :: u32)" by (metis of_nat_unat)
  have "drop 54 (?p[54 + ?n := 0]) ! ?n = 0" "?n < length (drop 54 (?p[54 + ?n := 0]))" using lp by simp_all
  then have "0 \<in> set (drop 54 (?p[54 + ?n := 0]))" by (metis nth_mem)
  then have "deal_tcp_data_recv ?p (34 + unat (20 :: u64)) (of_nat ?n) j = Some (if tcp_status j = TCP_CONNECTED then Wait_ack else Ack)" for j
    using lp by (simp add: deal_tcp_data_recv_def last printf_reads_def Let_def del: drop_append list_update_append)
  then show ?thesis using r(1-5) flags_distinct unfolding p o5
    by (simp add: distribute_tcp_recv_def s20 len [simplified] uc del: append.simps)
qed

section \<open>A lost wake-up\<close>

definition lost :: "net \<Rightarrow> bool" where
  "lost s \<longleftrightarrow> tcp_status (inet s) = TCP_HAND_2 \<and> connect s \<in> {Unpost, Enroll, Waiting} \<and>
     (connect s = Unpost \<or> \<not> wait_over ''tcp_connect_handle'' (threads s)) \<and>
     (monitor s = Recv \<or> monitor s = Send_ack \<or> (\<exists>a. monitor s = Act a \<and> (quiet a \<or> a = Ack)))"

lemma lost_connect: "lost s \<Longrightarrow> tcp_connect_handle pcap s = Some s' \<Longrightarrow> lost s'"
  using unpost_over enroll_over by (auto simp: lost_def tcp_connect_handle_def)

lemma lost_recv:
  assumes "lost s" "monitor_recv p s = Some s'"
  shows "lost s'"
proof -
  obtain j a where r: "packet_recv p (inet s) = Some (j, a)" "s' = s\<lparr>inet := j, monitor := Act a\<rparr>"
    using assms(2) by (auto simp: monitor_recv_def split: if_splits)
  have "tcp_status j = TCP_HAND_2 \<and> (quiet a \<or> a = Ack)"
    using packet_effects [OF r(1)] assms(1) by (auto simp: lost_def same_connection_def handshake_effect_def data_effect_def)
  then show ?thesis using assms(1) r(2) by (auto simp: lost_def)
qed

lemma lost_act:
  assumes "lost s" "monitor_act pcap s = Some s'"
  shows "lost s'"
proof -
  consider "monitor s = Act Nothing" | "monitor s = Act Ack" | "monitor s = Send_ack" | n where "monitor s = Act (Post n)" "n \<noteq> ''tcp_connect_handle''"
    using assms quiet_cases by (fastforce simp: lost_def monitor_act_def)
  then show ?thesis
  proof cases
    case 3
    then show ?thesis using assms by (auto simp: lost_def monitor_act_def send_frames pcap_sendpacket_def split: if_splits)
  next
    case 4
    then obtain ts where t: "nst_post_by_name ''monitor_handle'' n (threads s) = Some ts" "s' = s\<lparr>threads := ts, monitor := Recv\<rparr>"
      using assms(2) by (auto simp: monitor_act_def)
    then show ?thesis using assms(1) 4(2) post_over [OF t(1)] by (auto simp: lost_def)
  qed (use assms in \<open>auto simp: lost_def monitor_act_def\<close>)
qed

lemma lost_udp: "lost s \<Longrightarrow> udp_recv_wait s = Some s' \<or> udp_recv_enroll s = Some s' \<Longrightarrow> lost s'"
  using unpost_over enroll_over by (auto simp: udp_recv_wait_def udp_recv_enroll_def lost_def)

interpretation lost: net_invariant "\<lambda>tr. lost" "\<lambda>p. True" pcap
  by unfold_locales (use lost_connect lost_recv lost_act lost_udp in blast)+

section \<open>Properties\<close>

text \<open>The state in which performAction starts the thread of tcp_connect_handle.\<close>

definition tcp_started :: "u32 \<Rightarrow> net \<Rightarrow> bool" where
  "tcp_started isn s \<longleftrightarrow> connect s = Send_syn \<and> monitor s = Recv \<and> macs_ok (inet s) \<and> tcp_status (inet s) = TCP_CLOSED \<and>
     seq_num (inet s) = isn \<and> ack_num (inet s) = 0 \<and> \<not> wait_over ''tcp_connect_handle'' (threads s)"

lemma run_connect: "net_run pcap s0 tr s \<Longrightarrow> tcp_connect_handle pcap s = Some s' \<Longrightarrow> net_run pcap s0 tr s'"
  by (rule net_run.connect)

text \<open>The handshake can be completed: the SYN-ACK arrives when the thread waits.\<close>

lemma handshake_completes:
  assumes "tcp_started isn s0" "hosts (inet s0) peer" "\<forall>frame. pcap frame"
    "threads s0 ''monitor_handle'' = Some m" "threads s0 ''tcp_connect_handle'' = Some c"
  shows "\<exists>s. net_run pcap s0 [control_frame TCP_SYN_ACK peer @ rest] s \<and> connect s = Ended"
proof -
  let ?p = "control_frame TCP_SYN_ACK peer @ rest" and ?M = "''monitor_handle''" and ?C = "''tcp_connect_handle''"
  define i1 where "i1 = (inet s0)\<lparr>sent := sent (inet s0) @ [control_frame TCP_SYN (inet s0)], tcp_status := TCP_HAND_1\<rparr>"
  define i2 where "i2 = i1\<lparr>tcp_status := TCP_HAND_2, seq_num := seq_num i1 + 1, ack_num := seq_num peer + 1\<rparr>"
  define i3 where "i3 = i2\<lparr>sent := sent i2 @ [control_frame TCP_ACK i2]\<rparr>"
  define t1 where "t1 = (threads s0)(?C \<mapsto> c\<lparr>be_posted := False\<rparr>)"
  define t2 where "t2 = t1(?M \<mapsto> m\<lparr>wait_this := insert ?C (wait_this m)\<rparr>)"
  define t3 where "t3 = t2(?M \<mapsto> m\<lparr>wait_this := wait_this m - {?C}\<rparr>, ?C \<mapsto> c\<lparr>be_posted := True\<rparr>)"
  define st where "st t i k mo = s0\<lparr>inet := i, threads := t, connect := k, monitor := mo\<rparr>" for t i k mo
  note defs = tcp_connect_handle_def st_def send_frames pcap_sendpacket_def
  have "net_run pcap s0 [] s0" by (rule net_run.start)
  then have "net_run pcap s0 [] (st (threads s0) ((inet s0)\<lparr>sent := sent (inet s0) @ [control_frame TCP_SYN (inet s0)]\<rparr>) Set_hand_1 Recv)"
    by (rule run_connect) (use assms(1,3) in \<open>simp add: defs tcp_started_def\<close>)
  then have "net_run pcap s0 [] (st (threads s0) i1 Unpost Recv)" by (rule run_connect) (simp add: defs i1_def)
  then have "net_run pcap s0 [] (st t1 i1 Enroll Recv)" by (rule run_connect) (use assms(4,5) in \<open>simp add: defs wait_unpost_def t1_def\<close>)
  then have "net_run pcap s0 [] (st t2 i1 Waiting Recv)" by (rule run_connect) (use assms(4) in \<open>simp add: defs wait_enroll_def t1_def t2_def\<close>)
  moreover have "hosts i1 peer" using assms(2) by (simp add: hosts_def i1_def)
  then have "monitor_recv ?p (st t2 i1 Waiting Recv) = Some (st t2 i2 Waiting (Act (Post ?C)))"
    using syn_ack_recv [of i1 peer rest] by (simp add: monitor_recv_def st_def i1_def i2_def)
  ultimately have "net_run pcap s0 ([] @ [?p]) (st t2 i2 Waiting (Act (Post ?C)))" by (rule net_run.recv)
  then have "net_run pcap s0 [?p] (st t2 i2 Waiting (Act (Post ?C)))" by (simp only: append_Nil)
  moreover have "nst_post_by_name ?M ?C t2 = Some t3" by (simp add: nst_post_by_name_def t2_def t1_def t3_def Let_def)
  then have "monitor_act pcap (st t2 i2 Waiting (Act (Post ?C))) = Some (st t3 i2 Waiting Recv)" by (simp add: monitor_act_def st_def)
  ultimately have "net_run pcap s0 [?p] (st t3 i2 Waiting Recv)" by (rule net_run.act)
  then have "net_run pcap s0 [?p] (st t3 i2 Reset Recv)" by (rule run_connect) (simp add: defs wait_over_def t3_def)
  then have "net_run pcap s0 [?p] (st (t3(?C \<mapsto> c\<lparr>be_posted := False\<rparr>)) i2 Check Recv)" by (rule run_connect) (simp add: defs wait_reset_def t3_def)
  then have "net_run pcap s0 [?p] (st (t3(?C \<mapsto> c\<lparr>be_posted := False\<rparr>)) i3 Set_connected Recv)"
    by (rule run_connect) (use assms(3) in \<open>simp add: defs i2_def i3_def\<close>)
  then have "net_run pcap s0 [?p] (st (t3(?C \<mapsto> c\<lparr>be_posted := False\<rparr>)) (i3\<lparr>tcp_status := TCP_CONNECTED\<rparr>) Ended Recv)"
    by (rule run_connect) (simp add: defs)
  moreover have "connect (st (t3(?C \<mapsto> c\<lparr>be_posted := False\<rparr>)) (i3\<lparr>tcp_status := TCP_CONNECTED\<rparr>) Ended Recv) = Ended" by (simp add: st_def)
  ultimately show ?thesis by blast
qed

definition demo_threads :: threads where
  "demo_threads name =
     (if name \<in> {''monitor_handle'', ''tcp_connect_handle'', ''tcp_data_recv_handle'', ''udp_recv_handle''}
      then Some \<lparr>be_posted = False, wait_this = {}\<rparr> else None)"

definition demo_net :: net where
  "demo_net = \<lparr>inet = demo_inet, threads = demo_threads, connect = Send_syn, monitor = Recv\<rparr>"

lemma demo_started: "tcp_started 7 demo_net" "hosts demo_inet demo_peer"
  by (simp_all add: tcp_started_def demo_net_def demo_inet_def demo_peer_def hosts_def macs_ok_def wait_over_def demo_threads_def)

text \<open>C21.
  The three-way handshake, in every interleaving of the threads and with any packets
  but data segments: the thread has ended exactly if the connection stands, and then
  exactly two frames were sent, both acceptable to the other host: SYN with the
  initial sequence number, and ACK with the number after it, which acknowledges the
  sequence number of a SYN-ACK that was received; the connection keeps those numbers.
\<close>

theorem tcp_handshake:
  assumes "net_run pcap s0 tr s" "tcp_started isn s0" "\<forall>p \<in> set tr. \<not> is_data p"
  shows "(connect s = Ended \<longleftrightarrow> tcp_status (inet s) = TCP_CONNECTED) \<and>
    (connect s = Ended \<longrightarrow> (\<exists>syn ack q. sent (inet s) = sent (inet s0) @ [syn, ack] \<and> receiver_accepts syn \<and> receiver_accepts ack \<and>
       segment_numbers syn = (TCP_SYN, isn, 0) \<and> segment_numbers ack = (TCP_ACK, isn + 1, q + 1) \<and>
       seq_num (inet s) = isn + 1 \<and> ack_num (inet s) = q + 1 \<and> (\<exists>p \<in> set tr. is_syn_ack p q)))"
proof -
  have "handshake_inv isn (sent (inet s0)) [] s0" using assms(2) by (simp add: tcp_started_def handshake_inv_def fresh_def)
  then have "phase isn (sent (inet s0)) tr (connect s) (inet s)" using handshake.run_keeps [OF assms(1)] assms(3) by (simp add: handshake_inv_def)
  then show ?thesis by (cases "connect s") (auto simp: answered_def ack_sent_def)
qed

theorem tcp_handshake_witness:
  "\<exists>s syn ack. net_run (\<lambda>_. True) demo_net [control_frame TCP_SYN_ACK demo_peer] s \<and> tcp_status (inet s) = TCP_CONNECTED \<and>
     sent (inet s) = [syn, ack] \<and> segment_numbers syn = (TCP_SYN, 7, 0) \<and> fst (segment_numbers ack) = TCP_ACK \<and> seq_num (inet s) = 8"
proof -
  let ?p = "control_frame TCP_SYN_ACK demo_peer"
  have "hosts (inet demo_net) demo_peer" using demo_started(2) by (simp add: demo_net_def)
  from handshake_completes [OF demo_started(1) this, of "\<lambda>_. True" _ _ "[]"] obtain s where s: "net_run (\<lambda>_. True) demo_net [?p] s" "connect s = Ended"
    by (auto simp: demo_net_def demo_threads_def)
  have "length (tcp_options @ []) \<le> 65495" by (simp add: tcp_options_def)
  from tcp_frame_recv(7) [OF demo_started(2) this, where f = TCP_SYN_ACK and q = "seq_num demo_peer" and a = "ack_num demo_peer" and rest = "[]"]
  have "\<not> is_data ?p" using flags_distinct(3) by (simp add: control_frame_def)
  then show ?thesis using tcp_handshake [OF s(1) demo_started(1)] s by (auto simp: demo_net_def demo_inet_def)
qed

text \<open>C22.
  A SYN-ACK that is handled after the status has been set but before the thread has
  entered itself as a waiting one is lost: from then on the thread waits for ever and
  the connection is never made, whatever else arrives, because only the change from
  the first to the second state posts the thread.
\<close>

theorem tcp_connect_lost_wakeup:
  assumes "tcp_started isn s0" "hosts (inet s0) peer" "threads s0 ''monitor_handle'' = Some m" "''tcp_connect_handle'' \<notin> wait_this m"
    "\<forall>frame. pcap frame"
  shows "\<exists>s. net_run pcap s0 [control_frame TCP_SYN_ACK peer @ rest] s \<and>
    (\<forall>tr s'. net_run pcap s tr s' \<longrightarrow> connect s' \<in> {Unpost, Enroll, Waiting} \<and> tcp_status (inet s') = TCP_HAND_2)"
proof -
  let ?p = "control_frame TCP_SYN_ACK peer @ rest"
  define s1 where "s1 = s0\<lparr>inet := (inet s0)\<lparr>sent := sent (inet s0) @ [control_frame TCP_SYN (inet s0)]\<rparr>, connect := Set_hand_1\<rparr>"
  define s2 where "s2 = s1\<lparr>inet := (inet s1)\<lparr>tcp_status := TCP_HAND_1\<rparr>, connect := Unpost\<rparr>"
  define j where "j = (inet s2)\<lparr>tcp_status := TCP_HAND_2, seq_num := seq_num (inet s2) + 1, ack_num := seq_num peer + 1\<rparr>"
  define s3 where "s3 = s2\<lparr>inet := j, monitor := Act (Post ''tcp_connect_handle'')\<rparr>"
  have "tcp_connect_handle pcap s0 = Some s1" using assms(1,5)
    by (simp add: tcp_started_def tcp_connect_handle_def send_frames pcap_sendpacket_def s1_def)
  then have r1: "net_run pcap s0 [] s1" using net_run.start net_run.connect by metis
  have "tcp_connect_handle pcap s1 = Some s2" by (simp add: tcp_connect_handle_def s1_def s2_def)
  then have r2: "net_run pcap s0 [] s2" using r1 net_run.connect by metis
  have "hosts (inet s2) peer" using assms(2) by (simp add: hosts_def s1_def s2_def)
  then have "monitor_recv ?p s2 = Some s3"
    using syn_ack_recv [of "inet s2" peer rest] assms(1) by (simp add: monitor_recv_def s1_def s2_def s3_def j_def tcp_started_def)
  then have r3: "net_run pcap s0 [?p] s3" using r2 net_run.recv by (metis append_Nil)
  have "nst_post_by_name ''monitor_handle'' ''tcp_connect_handle'' (threads s3) = Some (threads s3)"
    using assms(3,4) by (simp add: nst_post_by_name_def s1_def s2_def s3_def)
  then have "monitor_act pcap s3 = Some (s3\<lparr>monitor := Recv\<rparr>)" by (simp add: monitor_act_def s3_def)
  then have r4: "net_run pcap s0 [?p] (s3\<lparr>monitor := Recv\<rparr>)" using r3 net_run.act by metis
  have "lost (s3\<lparr>monitor := Recv\<rparr>)" by (simp add: lost_def s3_def s2_def j_def)
  then show ?thesis using r4 lost.run_keeps by (intro exI [of _ "s3\<lparr>monitor := Recv\<rparr>"]) (auto simp: lost_def)
qed

theorem tcp_connect_lost_wakeup_witness:
  "\<exists>s. net_run (\<lambda>_. True) demo_net [control_frame TCP_SYN_ACK demo_peer] s \<and>
     (\<forall>tr s'. net_run (\<lambda>_. True) s tr s' \<longrightarrow> connect s' \<noteq> Ended)"
proof -
  have "hosts (inet demo_net) demo_peer" "threads demo_net ''monitor_handle'' = Some \<lparr>be_posted = False, wait_this = {}\<rparr>"
    using demo_started(2) by (simp_all add: demo_net_def demo_threads_def)
  from tcp_connect_lost_wakeup [OF demo_started(1) this, of "\<lambda>_. True" "[]"] obtain s where
    "net_run (\<lambda>_. True) demo_net [control_frame TCP_SYN_ACK demo_peer] s"
    "\<forall>tr s'. net_run (\<lambda>_. True) s tr s' \<longrightarrow> connect s' \<in> {Unpost, Enroll, Waiting}"
    by auto
  then show ?thesis by (intro exI [of _ s]) fastforce
qed

end
