(* ===== verification/NetMain.thy ===== *)
theory NetMain
  imports NetTcp
begin

text \<open>
  The main thread of the protocol stack (netstack/main.cpp) beside the threads of NetTcp:
  it reads the user's commands, performs them and, for a connection, creates the
  thread of tcp_connect_handle and joins it. An execution records the commands that were
  performed and the packets that were received.
\<close>

section \<open>The main thread\<close>

datatype main_pc = Prompt | Joining | After_join | Leaving

text \<open>The variable tcp_connect_thread is kept while no such thread is registered.\<close>

record net_main = net +
  main_thread :: main_pc
  tcp_connect_thread :: ns_thread

text \<open>performAction, up to the join of a new thread. No step: the main thread is elsewhere, or the program exits.\<close>

definition performs :: "(u8 list \<Rightarrow> bool) \<Rightarrow> string \<Rightarrow> u8 list \<Rightarrow> net_main \<Rightarrow> net_main option" where
  "performs pcap command message s =
     (if main_thread s \<noteq> Prompt then None
      else if command = ''udp'' then Some (s\<lparr>inet := fst (udp_send pcap (inet s) message)\<rparr>)
      else if command = ''tcpconect'' then
        (if tcp_status (inet s) \<noteq> TCP_CONNECTED
         then Some (s\<lparr>threads := nst_create ''tcp_connect_handle'' (tcp_connect_thread s) (threads s),
                      connect := Send_syn, main_thread := Joining\<rparr>)
         else Some s)
      else if command = ''tcpsend'' then
        (if tcp_status (inet s) = TCP_CONNECTED
         then map_option (\<lambda>i. s\<lparr>inet := i\<rparr>) (tcp_send pcap message (inet s))
         else Some s)
      else Some s)"

text \<open>nst_destroy: the join of the thread, and its removal from the registered ones.\<close>

definition joins :: "net_main \<Rightarrow> net_main option" where
  "joins s =
     (if main_thread s = Joining \<and> connect s = Ended
      then Some (s\<lparr>threads := nst_destroy ''tcp_connect_handle'' (threads s),
                   tcp_connect_thread := (case threads s ''tcp_connect_handle'' of None \<Rightarrow> tcp_connect_thread s | Some t \<Rightarrow> t),
                   main_thread := After_join\<rparr>)
      else None)"

text \<open>The rest of performAction after the join; \<open>rand\<close> is the number that rand returns.\<close>

definition checks :: "u32 \<Rightarrow> net_main \<Rightarrow> net_main option" where
  "checks rand s =
     (if main_thread s = After_join
      then Some (s\<lparr>inet := (if tcp_status (inet s) \<noteq> TCP_CONNECTED then tcp_init_seq rand (inet s) else inet s), main_thread := Prompt\<rparr>)
      else None)"

text \<open>The line q: the main thread leaves its loop and waits for the end of the monitor thread.\<close>

definition leaves :: "net_main \<Rightarrow> net_main option" where
  "leaves s = (if main_thread s = Prompt then Some (s\<lparr>main_thread := Leaving\<rparr>) else None)"

inductive main_run :: "(u8 list \<Rightarrow> bool) \<Rightarrow> net_main \<Rightarrow> (string \<times> u8 list) list \<Rightarrow> u8 list list \<Rightarrow> net_main \<Rightarrow> bool" for pcap s0 where
  main_start: "main_run pcap s0 [] [] s0"
| main_performs: "main_run pcap s0 cs tr s \<Longrightarrow> performs pcap command message s = Some s' \<Longrightarrow> main_run pcap s0 (cs @ [(command, message)]) tr s'"
| main_joins: "main_run pcap s0 cs tr s \<Longrightarrow> joins s = Some s' \<Longrightarrow> main_run pcap s0 cs tr s'"
| main_checks: "main_run pcap s0 cs tr s \<Longrightarrow> checks rand s = Some s' \<Longrightarrow> main_run pcap s0 cs tr s'"
| main_leaves: "main_run pcap s0 cs tr s \<Longrightarrow> leaves s = Some s' \<Longrightarrow> main_run pcap s0 cs tr s'"
| main_connect: "main_run pcap s0 cs tr s \<Longrightarrow> tcp_connect_handle pcap s = Some s' \<Longrightarrow> main_run pcap s0 cs tr s'"
| main_recv: "main_run pcap s0 cs tr s \<Longrightarrow> monitor_recv packet s = Some s' \<Longrightarrow> main_run pcap s0 cs (tr @ [packet]) s'"
| main_act: "main_run pcap s0 cs tr s \<Longrightarrow> monitor_act pcap s = Some s' \<Longrightarrow> main_run pcap s0 cs tr s'"
| main_udp_wait: "main_run pcap s0 cs tr s \<Longrightarrow> udp_recv_wait s = Some s' \<Longrightarrow> main_run pcap s0 cs tr s'"
| main_udp_enroll: "main_run pcap s0 cs tr s \<Longrightarrow> udp_recv_enroll s = Some s' \<Longrightarrow> main_run pcap s0 cs tr s'"

section \<open>One connection\<close>

text \<open>
  From the creation of the thread to the join the main thread makes no step: the
  executions are those of net_run.
\<close>

lemma threads_truncate:
  fixes s :: net_main
  shows
  "tcp_connect_handle pcap (net.truncate s) = map_option net.truncate (tcp_connect_handle pcap s)"
  "monitor_recv packet (net.truncate s) = map_option net.truncate (monitor_recv packet s)"
  "monitor_act pcap (net.truncate s) = map_option net.truncate (monitor_act pcap s)"
  "udp_recv_wait (net.truncate s) = map_option net.truncate (udp_recv_wait s)"
  "udp_recv_enroll (net.truncate s) = map_option net.truncate (udp_recv_enroll s)"
proof -
  show "tcp_connect_handle pcap (net.truncate s) = map_option net.truncate (tcp_connect_handle pcap s)"
    by (simp add: tcp_connect_handle_def net.defs option.map_comp comp_def split: connect_pc.split)
  show "monitor_recv packet (net.truncate s) = map_option net.truncate (monitor_recv packet s)"
    by (simp add: monitor_recv_def net.defs option.map_comp comp_def case_prod_unfold)
  show "monitor_act pcap (net.truncate s) = map_option net.truncate (monitor_act pcap s)"
    by (simp add: monitor_act_def net.defs option.map_comp comp_def split: monitor_pc.split action.split)
  show "udp_recv_wait (net.truncate s) = map_option net.truncate (udp_recv_wait s)"
    "udp_recv_enroll (net.truncate s) = map_option net.truncate (udp_recv_enroll s)"
    by (simp_all add: udp_recv_wait_def udp_recv_enroll_def net.defs option.map_comp comp_def)
qed

lemma threads_main:
  "tcp_connect_handle pcap s = Some s' \<Longrightarrow> main_thread s' = main_thread s"
  "monitor_recv packet s = Some s' \<Longrightarrow> main_thread s' = main_thread s"
  "monitor_act pcap s = Some s' \<Longrightarrow> main_thread s' = main_thread s"
  "udp_recv_wait s = Some s' \<Longrightarrow> main_thread s' = main_thread s"
  "udp_recv_enroll s = Some s' \<Longrightarrow> main_thread s' = main_thread s"
  by (auto simp: tcp_connect_handle_def monitor_recv_def monitor_act_def udp_recv_wait_def udp_recv_enroll_def
      split: connect_pc.splits monitor_pc.splits action.splits if_splits)

lemma joining_net_run:
  assumes "main_run pcap s0 cs tr s" "main_thread s0 = Joining"
  shows "cs = [] \<Longrightarrow> main_thread s = Joining \<Longrightarrow> net_run pcap (net.truncate s0) tr (net.truncate s)"
  using assms
proof (induction rule: main_run.induct)
  case main_start
  show ?case by (rule net_run.start)
next
  case (main_connect cs tr s s')
  then show ?case using threads_main(1) [OF main_connect.hyps(2)] threads_truncate(1) [of pcap s] by (auto intro: net_run.connect)
next
  case (main_recv cs tr s packet s')
  then show ?case using threads_main(2) [OF main_recv.hyps(2)] threads_truncate(2) [of packet s] by (auto intro: net_run.recv)
next
  case (main_act cs tr s s')
  then show ?case using threads_main(3) [OF main_act.hyps(2)] threads_truncate(3) [of pcap s] by (auto intro: net_run.act)
next
  case (main_udp_wait cs tr s s')
  then show ?case using threads_main(4) [OF main_udp_wait.hyps(2)] threads_truncate(4) [of s] by (auto intro: net_run.udp_wait)
next
  case (main_udp_enroll cs tr s s')
  then show ?case using threads_main(5) [OF main_udp_enroll.hyps(2)] threads_truncate(5) [of s] by (auto intro: net_run.udp_enroll)
qed (auto simp: joins_def checks_def leaves_def split: if_splits)

section \<open>A wait without end\<close>

text \<open>What a command sends on a connection.\<close>

definition command_frames :: "inet_info \<Rightarrow> string \<times> u8 list \<Rightarrow> u8 list list" where
  "command_frames i c =
     (if fst c = ''udp'' then [datagram_frame (snd c) i] else if fst c = ''tcpsend'' then [data_frame (snd c) i] else [])"

definition blocked :: "(u8 list \<Rightarrow> bool) \<Rightarrow> inet_info \<Rightarrow> (string \<times> u8 list) list \<Rightarrow> net_main \<Rightarrow> bool" where
  "blocked pcap i cs s \<longleftrightarrow> connect s = Ended \<and> inet s = i\<lparr>sent := sent i @ filter pcap (concat (map (command_frames i) cs))\<rparr> \<and>
     (monitor s = Act Wait_ack \<or> (monitor s = Monitor_enroll \<or> monitor s = Monitor_waiting) \<and> \<not> wait_over ''monitor_handle'' (threads s))"

text \<open>The frames do not depend on what was sent before.\<close>

lemma frames_sent [simp]: "data_frame data (i\<lparr>sent := out\<rparr>) = data_frame data i" "datagram_frame data (i\<lparr>sent := out\<rparr>) = datagram_frame data i"
  by (simp_all add: data_frame_def datagram_frame_def create_ip_protocol_header_def create_tcp_header_def create_udp_header_def Let_def)

lemma blocked_performs:
  assumes "blocked pcap i cs s" "tcp_status i = TCP_CONNECTED" "performs pcap command message s = Some s'"
  shows "blocked pcap i (cs @ [(command, message)]) s'"
proof -
  have c: "tcp_status (inet s) = TCP_CONNECTED" using assms(1,2) by (simp add: blocked_def)
  consider "command = ''udp''" | "command = ''tcpsend''" | "command \<noteq> ''udp''" "command \<noteq> ''tcpsend''" by blast
  then show ?thesis
  proof cases
    case 1
    then have "s' = s\<lparr>inet := fst (udp_send pcap (inet s) message)\<rparr>" using assms(3) by (simp add: performs_def split: if_splits)
    then show ?thesis using 1 assms(1) by (simp add: blocked_def udp_send_frame pcap_sendpacket_def command_frames_def)
  next
    case 2
    then obtain j where "tcp_send pcap message (inet s) = Some j" "s' = s\<lparr>inet := j\<rparr>"
      using assms(3) c by (auto simp: performs_def split: if_splits)
    then show ?thesis using 2 assms(1) by (simp add: blocked_def send_frames pcap_sendpacket_def command_frames_def split: if_splits)
  next
    case 3
    then have "s' = s" using assms(3) c by (auto simp: performs_def split: if_splits)
    then show ?thesis using 3 assms(1) by (simp add: blocked_def command_frames_def)
  qed
qed

lemma blocked_act: "blocked pcap i cs s \<Longrightarrow> monitor_act pcap s = Some s' \<Longrightarrow> blocked pcap i cs s'"
  using unpost_over enroll_over by (auto simp: blocked_def monitor_act_def)

lemma blocked_run:
  assumes "main_run pcap s0 cs tr s" "blocked pcap i [] s0" "tcp_status i = TCP_CONNECTED"
  shows "tr = [] \<and> blocked pcap i cs s"
  using assms
proof (induction rule: main_run.induct)
  case (main_performs cs tr s command message s')
  then show ?case using blocked_performs by blast
next
  case (main_act cs tr s s')
  then show ?case using blocked_act by blast
next
  case (main_checks cs tr s rand s')
  then show ?case by (auto simp: blocked_def checks_def split: if_splits)
next
  case (main_joins cs tr s s')
  then have "wait_over ''monitor_handle'' (threads s') = wait_over ''monitor_handle'' (threads s)"
    by (auto simp: joins_def wait_over_def nst_destroy_def thread_remove_def split: if_splits)
  then show ?case using main_joins by (auto simp: blocked_def joins_def split: if_splits)
next
  case (main_recv cs tr s packet s')
  then show ?case by (auto simp: blocked_def monitor_recv_def)
next
  case (main_udp_wait cs tr s s')
  then show ?case using unpost_over by (auto simp: blocked_def udp_recv_wait_def)
next
  case (main_udp_enroll cs tr s s')
  then show ?case using enroll_over by (auto simp: blocked_def udp_recv_enroll_def)
qed (auto simp: blocked_def leaves_def tcp_connect_handle_def split: if_splits)

section \<open>Properties\<close>

text \<open>C23.
  A data segment of the other host on a connection ends all receiving: the monitor
  thread waits to be posted by the thread tcp_data_recv_handle, which posts nobody,
  so that no packet is taken any more, whatever the threads and the user do. The stack never
  sends the acknowledgement by itself: all that is sent afterwards are the datagrams and
  the data segments that the user's commands ask for, and only these segments carry the
  new number; the numbers and the status of the connection do not change any more.
\<close>

theorem tcp_data_blocks:
  assumes "connect s = Ended" "monitor s = Recv" "tcp_status (inet s) = TCP_CONNECTED" "hosts (inet s) peer" "macs_ok (inet s)"
    "length data \<le> 65495" "rest \<noteq> []"
  shows "\<exists>s'. monitor_recv (data_frame data peer @ rest) s = Some s' \<and>
    inet s' = (inet s)\<lparr>seq_num := seq_num (inet s) + 1, ack_num := seq_num peer + of_nat (length data)\<rparr> \<and>
    (\<forall>cs tr s''. main_run pcap s' cs tr s'' \<longrightarrow> tr = [] \<and>
       inet s'' = (inet s')\<lparr>sent := sent (inet s) @ filter pcap (concat (map (command_frames (inet s')) cs))\<rparr>) \<and>
    (\<forall>message. segment_numbers (data_frame message (inet s')) = (TCP_PSH_ACK, seq_num (inet s) + 1, seq_num peer + of_nat (length data)))"
proof -
  define i where "i = (inet s)\<lparr>seq_num := seq_num (inet s) + 1, ack_num := seq_num peer + of_nat (length data)\<rparr>"
  define s' where "s' = s\<lparr>inet := i, monitor := Act Wait_ack\<rparr>"
  have "monitor_recv (data_frame data peer @ rest) s = Some s'"
    using data_recv [OF assms(4,6,7)] assms(2,3) by (simp add: monitor_recv_def s'_def i_def)
  moreover have i: "inet s' = i" "sent i = sent (inet s)" by (simp_all add: s'_def i_def)
  have "blocked pcap i [] s'" using assms(1) by (simp add: blocked_def s'_def)
  moreover have c: "tcp_status i = TCP_CONNECTED" using assms(3) by (simp add: i_def)
  ultimately have "tr = [] \<and> inet s'' = i\<lparr>sent := sent (inet s) @ filter pcap (concat (map (command_frames i) cs))\<rparr>"
    if "main_run pcap s' cs tr s''" for cs tr s'' using blocked_run [OF that] i by (simp add: blocked_def)
  moreover have "segment_numbers (data_frame message i) = (TCP_PSH_ACK, seq_num (inet s) + 1, seq_num peer + of_nat (length data))" for message
    using frame_numbers(2) [of i message] assms(5) by (simp add: i_def macs_ok_def)
  ultimately show ?thesis using i(1) \<open>monitor_recv _ s = Some s'\<close> unfolding i_def by (intro exI [of _ s']) auto
qed

text \<open>A connection of the demonstration state, with the main thread at its prompt.\<close>

definition demo_main :: net_main where
  "demo_main = net.extend (demo_net\<lparr>inet := demo_inet\<lparr>tcp_status := TCP_CONNECTED\<rparr>, connect := Ended\<rparr>)
     (net_main.fields Prompt \<lparr>be_posted = False, wait_this = {}\<rparr>)"

theorem tcp_data_blocks_witness:
  "\<exists>s' s''. monitor_recv (data_frame [104, 105] demo_peer @ [0]) demo_main = Some s' \<and>
     main_run (\<lambda>_. True) s' [(''tcpsend'', [1])] [] s'' \<and> sent (inet s'') = [data_frame [1] (inet s')] \<and>
     segment_numbers (data_frame [1] (inet s')) = (TCP_PSH_ACK, 8, 9)"
proof -
  have d: "connect demo_main = Ended" "monitor demo_main = Recv" "inet demo_main = demo_inet\<lparr>tcp_status := TCP_CONNECTED\<rparr>" "main_thread demo_main = Prompt"
    by (simp_all add: demo_main_def demo_net_def net.defs net_main.defs)
  have h: "hosts (inet demo_main) demo_peer" "macs_ok (inet demo_main)" "tcp_status (inet demo_main) = TCP_CONNECTED"
    using demo_started(2) by (simp_all add: hosts_def d demo_inet_def macs_ok_def)
  obtain s' where s': "monitor_recv (data_frame [104, 105] demo_peer @ [0]) demo_main = Some s'"
    "\<forall>cs tr s''. main_run (\<lambda>_. True) s' cs tr s'' \<longrightarrow> tr = [] \<and>
       inet s'' = (inet s')\<lparr>sent := sent (inet demo_main) @ filter (\<lambda>_. True) (concat (map (command_frames (inet s')) cs))\<rparr>"
    "segment_numbers (data_frame [1] (inet s')) = (TCP_PSH_ACK, seq_num (inet demo_main) + 1, seq_num demo_peer + of_nat (length [104 :: u8, 105]))"
    "inet s' = (inet demo_main)\<lparr>seq_num := seq_num (inet demo_main) + 1, ack_num := seq_num demo_peer + of_nat (length [104 :: u8, 105])\<rparr>"
    using tcp_data_blocks [OF d(1,2) h(3,1,2), of "[104, 105]" "[0]" "\<lambda>_. True"] by auto
  have m: "main_thread s' = Prompt" using threads_main(2) [OF s'(1)] d(4) by simp
  have st: "tcp_status (inet s') = TCP_CONNECTED" using s'(4) h(3) by simp
  obtain s'' where p: "performs (\<lambda>_. True) ''tcpsend'' [1] s' = Some s''"
    using m st by (auto simp: performs_def send_frames pcap_sendpacket_def)
  have "main_run (\<lambda>_. True) s' ([] @ [(''tcpsend'', [1])]) [] s''" by (rule main_run.main_performs [OF main_run.main_start p])
  then have r: "main_run (\<lambda>_. True) s' [(''tcpsend'', [1])] [] s''" by simp
  then have "sent (inet s'') = [data_frame [1] (inet s')]" using s'(2) d(3) by (simp add: command_frames_def demo_inet_def)
  then show ?thesis using r s'(1,3) d(3) by (auto simp: demo_inet_def demo_peer_def)
qed

end
