(* ===== verification/NetPing.thy ===== *)
theory NetPing
  imports NetTcp
begin

text \<open>
  The first thread of the protocol stack, icmp_req_handle
  (netstack/protocol/entry.cpp), together with the monitor thread: it asks for the
  hardware address of the other host, waits, sends an echo request and waits again.
  Both waits are for the name of the same thread, so that either reply ends either.
\<close>

section \<open>The thread\<close>

datatype ping_pc =
    Send_arp | Arp_unpost | Arp_enroll | Arp_waiting | Arp_reset
  | Send_echo | Echo_unpost | Echo_enroll | Echo_waiting | Echo_reset | Print | Ping_ended

record ping_net = net +
  ping :: ping_pc
  printed :: "bool option"

text \<open>What the thread prints at the end, success or not, is the field \<open>printed\<close>.\<close>

definition icmp_req_handle :: "(u8 list \<Rightarrow> bool) \<Rightarrow> ping_net \<Rightarrow> ping_net option" where
  "icmp_req_handle pcap s = (case ping s of
     Send_arp \<Rightarrow> Some (s\<lparr>inet := send_arp_req pcap (inet s), ping := Arp_unpost\<rparr>)
   | Arp_unpost \<Rightarrow> map_option (\<lambda>ts. s\<lparr>threads := ts, ping := Arp_enroll\<rparr>) (wait_unpost ''icmp_req_handle'' ''monitor_handle'' (threads s))
   | Arp_enroll \<Rightarrow> map_option (\<lambda>ts. s\<lparr>threads := ts, ping := Arp_waiting\<rparr>) (wait_enroll ''icmp_req_handle'' ''monitor_handle'' (threads s))
   | Arp_waiting \<Rightarrow> if wait_over ''icmp_req_handle'' (threads s) then Some (s\<lparr>ping := Arp_reset\<rparr>) else None
   | Arp_reset \<Rightarrow> map_option (\<lambda>ts. s\<lparr>threads := ts, ping := Send_echo\<rparr>) (wait_reset ''icmp_req_handle'' (threads s))
   | Send_echo \<Rightarrow> Some (s\<lparr>inet := send_icmp_echo_request_packet pcap (inet s), ping := Echo_unpost\<rparr>)
   | Echo_unpost \<Rightarrow> map_option (\<lambda>ts. s\<lparr>threads := ts, ping := Echo_enroll\<rparr>) (wait_unpost ''icmp_req_handle'' ''monitor_handle'' (threads s))
   | Echo_enroll \<Rightarrow> map_option (\<lambda>ts. s\<lparr>threads := ts, ping := Echo_waiting\<rparr>) (wait_enroll ''icmp_req_handle'' ''monitor_handle'' (threads s))
   | Echo_waiting \<Rightarrow> if wait_over ''icmp_req_handle'' (threads s) then Some (s\<lparr>ping := Echo_reset\<rparr>) else None
   | Echo_reset \<Rightarrow> map_option (\<lambda>ts. s\<lparr>threads := ts, ping := Print\<rparr>) (wait_reset ''icmp_req_handle'' (threads s))
   | Print \<Rightarrow> Some (s\<lparr>printed := Some (ping_success (inet s)), ping := Ping_ended\<rparr>)
   | Ping_ended \<Rightarrow> None)"

inductive ping_run :: "(u8 list \<Rightarrow> bool) \<Rightarrow> ping_net \<Rightarrow> u8 list list \<Rightarrow> ping_net \<Rightarrow> bool" for pcap s0 where
  ping_start: "ping_run pcap s0 [] s0"
| ping_step: "ping_run pcap s0 tr s \<Longrightarrow> icmp_req_handle pcap s = Some s' \<Longrightarrow> ping_run pcap s0 tr s'"
| ping_recv: "ping_run pcap s0 tr s \<Longrightarrow> monitor_recv packet s = Some s' \<Longrightarrow> ping_run pcap s0 (tr @ [packet]) s'"
| ping_act: "ping_run pcap s0 tr s \<Longrightarrow> monitor_act pcap s = Some s' \<Longrightarrow> ping_run pcap s0 tr s'"

section \<open>Success means that the other host has answered\<close>

definition is_echo_reply :: "u8 list \<Rightarrow> bool" where
  "is_echo_reply p \<longleftrightarrow> get16 p 12 = Some (htons ETHERTYPE_IP) \<and> get8 p 23 = Some IP_LOAD_ICMP \<and> get8 p 34 = Some ICMP_TYPE_REPLY_ECHO"

text \<open>What each handler does to the flag.\<close>

lemma flag_arp: "deal_arp_reply p i = Some (j, hit) \<Longrightarrow> ping_success j = ping_success i"
  by (auto simp: deal_arp_reply_def bind_eq_Some_conv split: if_splits)

lemma flag_icmp: "distribute_icmp_reply p i = Some (j, a) \<Longrightarrow> ping_success j = (ping_success i \<or> get8 p 34 = Some ICMP_TYPE_REPLY_ECHO)"
  by (auto simp: distribute_icmp_reply_def bind_eq_Some_conv split: if_splits)

lemma flag_udp: "distribute_udp_recv p i = Some (j, a) \<Longrightarrow> ping_success j = ping_success i"
  by (auto simp: distribute_udp_recv_def bind_eq_Some_conv Let_def split: if_splits)

lemma flag_tcp: "distribute_tcp_recv p n i = Some (j, a) \<Longrightarrow> ping_success j = ping_success i"
  by (auto simp: distribute_tcp_recv_def bind_eq_Some_conv Let_def split: if_splits)

lemma recv_flag:
  assumes "packet_recv p i = Some (j, a)"
  shows "ping_success j = ping_success i \<or> ping_success j \<and> is_echo_reply p"
proof -
  obtain t where t: "get16 p 12 = Some t" using assms by (auto simp: packet_recv_def bind_eq_Some_conv)
  consider "distribute_ip_reply p i = Some (j, a)" "ntohs t = ETHERTYPE_IP" | hit where "deal_arp_reply p i = Some (j, hit)" | "j = i"
    using assms t by (auto simp: packet_recv_def bind_eq_Some_conv split: if_splits)
  then show ?thesis
  proof cases
    case 1
    then have e: "get16 p 12 = Some (htons ETHERTYPE_IP)" using t by (metis htons_htons)
    consider "j = i" | "distribute_icmp_reply p i = Some (j, a)" "get8 p 23 = Some IP_LOAD_ICMP" | "distribute_udp_recv p i = Some (j, a)"
      | n where "distribute_tcp_recv p n i = Some (j, a)"
      using 1(1) by (auto simp: distribute_ip_reply_def bind_eq_Some_conv split: if_splits)
    then show ?thesis using e flag_icmp flag_udp flag_tcp by cases (auto simp: is_echo_reply_def)
  qed (use flag_arp in auto)
qed

lemma send_success:
  "ping_success (send_arp_req pcap i) = ping_success i" "ping_success (send_icmp_echo_request_packet pcap i) = ping_success i"
  "tcp_send_control pcap f i = Some j \<Longrightarrow> ping_success j = ping_success i"
  by (auto simp: send_arp_req_def send_icmp_echo_request_packet_def send_frames pcap_sendpacket_def Let_def split: if_splits)

definition ping_inv :: "u8 list list \<Rightarrow> ping_net \<Rightarrow> bool" where
  "ping_inv tr s \<longleftrightarrow> (ping_success (inet s) \<longrightarrow> (\<exists>p \<in> set tr. is_echo_reply p)) \<and> (printed s = Some True \<longrightarrow> ping_success (inet s))"

text \<open>A success is printed, and main goes on, only after an echo reply has arrived.\<close>

lemma ping_answered:
  assumes "ping_run pcap s0 tr s" "ping_inv [] s0"
  shows "ping_inv tr s"
  using assms
proof (induction rule: ping_run.induct)
  case (ping_step tr s s')
  then show ?case by (auto simp: icmp_req_handle_def ping_inv_def send_success split: ping_pc.splits if_splits)
next
  case (ping_recv tr s packet s')
  then obtain j a where "packet_recv packet (inet s) = Some (j, a)" "s' = s\<lparr>inet := j, monitor := Act a\<rparr>"
    by (auto simp: monitor_recv_def split: if_splits)
  then show ?case using ping_recv recv_flag by (fastforce simp: ping_inv_def)
next
  case (ping_act tr s s')
  have "printed s' = printed s \<and> ping_success (inet s') = ping_success (inet s)"
    using ping_act(2) send_success(3) by (auto simp: monitor_act_def split: monitor_pc.splits action.splits if_splits)
  moreover have "ping_inv tr s" using ping_act by blast
  ultimately show ?case by (simp add: ping_inv_def)
qed simp

end
