(* ===== verification/Spec2Isabelle.thy ===== *)
theory Spec2Isabelle
  imports String32 Bitmap PageAlloc Phymm Memory32 HeapSession ListHead Task64Props VsprintfProps Serial Smp ApicProps Idt64 Keyboard
    Task32Props Boot32 Main64 Stdio32 NetMain NetPing
begin

text \<open>
  A verification of x64_smp_os: a 32-bit kernel (src/x86_kernel) that prepares the
  machine and enters the 64-bit mode, the 64-bit kernel for several processors
  (src/x64_kenerl), the components both share (src/components), and a user-space
  TCP/IP stack over libpcap (src/netstack).

  \<^bold>\<open>How the parts work together.\<close> The loader leaves the memory map; x86_kernel builds
  segment descriptors, a page table and its tasks, and jumps to x64_kernel_main. That
  function sets up console, serial port, page allocator, interrupt table, interrupt
  controllers, task state segment and system calls, starts the other processors, which
  run x64_ap_main, and creates the first tasks. From then on timer interrupts choose
  tasks under a lock, and a broadcast message makes the other processors choose too.
  The 64-bit structures all come from the bucket allocator, whose pages come from the
  page allocator, whose map is the bitmap library.

  \<^bold>\<open>Models.\<close> Memory is a function from addresses (words of 64 or 32 bits) to bytes, and
  the structures of the source are read and written in it at their offsets (Prelude).
  Static variables are fields of records. A loop without an obvious end is a
  \<open>partial_function\<close> on options, so that \<open>None\<close> means that it does not return; where a
  failed assertion, an access outside of an object or the end of the program is meant,
  the theory says so (a loop that has both, as the walk of ApicProps, returns
  \<open>Some None\<close> for the access). No fuel is used, and what a function returns is proved as such.
  Devices and third-party code are parameters.

  \<^item> Strings (CString, String32; libs/string.c and lib/string.c of the kernels): the
    functions terminate and agree with operations on lists. memcmp of the 32-bit
    kernel reads one byte too many.
  \<^item> Bitmap (libs/bitmap.c): the search finds the first free run.
  \<^item> Physical pages. PageAlloc is the contract as a locale. Phymm
    (x64_kenerl/kernel/phymm.c) and Memory32 (x86_kernel/kernel/memory.c) satisfy it;
    the set-up of the first manages too many pages.
  \<^item> Bucket allocators. Links is the contract of a search in a chain, BlockAlloc that of
    an allocator. Malloc (x64_kenerl/mm/malloc.c) has the definitions, HeapInv, HeapOps
    and HeapProps the invariant, its preservation and the refinement of BlockAlloc;
    MallocSpec states what one call gives, and the defect in the width of the links;
    HeapSession runs all sequences of calls and of writes by the owners of blocks
    against a specification of what every client holds.
    Malloc32 (x86_kernel/kernel/mm/malloc.c) is the 32-bit one.
  \<^item> ListHead (components/include/list.h): the operations refine those on lists, the
    iterations end.
  \<^item> Tasks of the 64-bit kernel. Task64 (kernel/task64.c) and Task64Props: creation, the
    choice of the next task, cleaning. Smp (asm/apic_interrupts.asm, sched64.asm): all
    interleavings of the scheduling interrupts on several processors.
  \<^item> Processors. Machine (kernel/cpu.c, gdt64.c, syscall.c) with Percpu, Apic with
    ApicProps (kernel/apic.c), Ioremap with PageWalk (kernel/ioremap.c), Idt64
    (kernel/idt.c, exceptionErrorCode.c), Main64 (init/main.c, system_call.c).
  \<^item> Output. Vsprintf with VsprintfProps (libs/vsprintf.c), Console (driver/console.c),
    Serial (driver/serial.c), Logger (components/logger), Stdio32 (printk.c, stdio.c
    and the system calls of the 32-bit kernel).
  \<^item> The 32-bit kernel. Gdt32 (kernel/gdt.c), Task32 with Task32Props (kernel/task.c,
    sched.c, clock.c), Keyboard (chr_drv/keyboard.c), Boot32 (init/main.c, idt.c,
    vm101012.c). Below, the descriptors of Gdt32 are put against the system call
    registers of the 64-bit kernel.
  \<^item> The protocol stack. NetCheck (utils/util.cpp): the checksums against RFC 1071.
    NetPacket (protocol/*.cpp): headers and sent frames, which a receiver accepts.
    NetRecv (the receiving side, thread/thread.cpp, main.cpp): a datagram arrives at the
    other host. NetTcp: the threads of one TCP connection in all interleavings, while
    the main thread waits for its end; an invariant is an instance of the locale
    \<open>net_invariant\<close>. NetMain: the same threads together with the main thread and the
    user's commands, before, during and after a connection. NetPing: the thread of the
    echo request, which reports success only after a reply.

  \<^bold>\<open>Bounds.\<close> Lengths are bounded where the source's integers would wrap: 131074 bytes
  for a checksum in 32 bits, 65495 and 65507 bytes of payload for the 16-bit length of
  IP, 2048 bytes for the descriptors of task state segments, 100 processors, and 100
  tasks (4 in the 32-bit kernel) for the tables of that size.

  \<^bold>\<open>Not modelled.\<close> Boot sectors, the loader and the stubs that save registers are
  assembly without a C-visible effect. The bodies of demonstration tasks, the endless
  halt loops and texts printed for information are left out. In the protocol stack the
  look-up of interfaces and the reading of lines in main only call the operating system; the
  headers of libpcap are third party, and the socket programs beside the stack are
  tests of it.
\<close>

section \<open>Segments across the two kernels\<close>

text \<open>A segment of 64-bit code, or of data, of the privilege level \<open>pl\<close>.\<close>

definition code_segment :: "2 word \<Rightarrow> gdt_segment_desciptor \<Rightarrow> bool" where
  "code_segment pl d \<longleftrightarrow> seg_P d = 1 \<and> seg_S d = 1 \<and> seg_type d = 0b1000 \<and> seg_L d = 1 \<and> seg_DB d = 0 \<and> seg_DPL d = pl"

definition data_segment :: "2 word \<Rightarrow> gdt_segment_desciptor \<Rightarrow> bool" where
  "data_segment pl d \<longleftrightarrow> seg_P d = 1 \<and> seg_S d = 1 \<and> seg_type d = 0b0010 \<and> seg_DPL d = pl"

text \<open>The descriptor a selector names in the table at \<open>g\<close>.\<close>

definition segment_of :: "mem32 \<Rightarrow> u32 \<Rightarrow> u16 \<Rightarrow> gdt_segment_desciptor" where
  "segment_of m g sel = rd_desc m (g + ucast (sel AND 0xfff8))"

lemma syscall_star: "read_msr (syscall_init entry s) IA32_MSR_STAR = 0x23001800000000"
  by (simp add: syscall_init_def Let_def read_write_msr IA32_MSR_STAR_def IA32_MSR_FMASK_def SYSRET_SELECTOR_def SYSCALL_SELECTOR_def)

lemma star_selectors:
  "(ucast (drop_bit 32 (0x23001800000000 :: u64)) :: u16) = 0x18" "(ucast (drop_bit 48 (0x23001800000000 :: u64)) :: u16) = 0x23"
  by simp_all

text \<open>C39.
  The selectors of the 32-bit kernel, the table that its gdt_init leaves and the
  64-bit kernel's syscall_init agree: KERNEL_X64_CODE_SECTOR, with which the 32-bit kernel
  enters the 64-bit code, and KERNEL_X64_DATA_SECTOR name segments of 64-bit code and of data of
  level 0, USER_X64_CODE_SECTOR and USER_X64_DATA_SECTOR those of level 3, and
  they ask for the level of their segments. The processor takes the segments of the instruction
  syscall from bits 32 to 47 of STAR (code, and data 8 above) and those of sysret from
  bits 48 to 63 (code 16 above, data 8 above): these are the four selectors.
  X64_TSS_SECTOR names the descriptor TSS_INDEX, the first free one. LSTAR
  holds the entry, syscalls are enabled, and the interrupt flag is masked on entry. The
  loader's table has three descriptors, 24 bytes.
\<close>

theorem boot_segments:
  assumes "apart g 2048 0x9E000 10" "apart g 24 base 24" "apart base 24 0x9E000 10"
    and "gdt_init g 24 base m = (m', r)"
  shows "let s' = syscall_init entry s; star = read_msr s' IA32_MSR_STAR;
      call = ucast (drop_bit 32 star) :: u16; ret = ucast (drop_bit 48 star) :: u16
    in code_segment 0 (segment_of m' g (ucast KERNEL_X64_CODE_SECTOR)) \<and> data_segment 0 (segment_of m' g (ucast KERNEL_X64_DATA_SECTOR)) \<and>
       code_segment 3 (segment_of m' g (ucast USER_X64_CODE_SECTOR)) \<and> data_segment 3 (segment_of m' g (ucast USER_X64_DATA_SECTOR)) \<and>
       ucast KERNEL_X64_CODE_SECTOR = call \<and> ucast KERNEL_X64_DATA_SECTOR = call + 8 \<and>
       ucast USER_X64_CODE_SECTOR = ret + 16 \<and> ucast USER_X64_DATA_SECTOR = ret + 8 \<and>
       KERNEL_X64_CODE_SECTOR AND 3 = 0 \<and> KERNEL_X64_DATA_SECTOR AND 3 = 0 \<and>
       USER_X64_CODE_SECTOR AND 3 = 3 \<and> USER_X64_DATA_SECTOR AND 3 = 3 \<and>
       X64_TSS_SECTOR AND 0xfff8 = 8 * TSS_INDEX \<and> r = (ucast (8 * TSS_INDEX), g) \<and>
       read_msr s' IA32_MSR_LSTAR = entry \<and> bit (read_msr s' IA32_MSR_EFER) 0 \<and> bit (read_msr s' IA32_MSR_FMASK) 9"
proof -
  obtain lim ba where r: "r = (lim, ba)" by (cases r)
  note G = gdt_init_slots [OF assms(1-3) [folded x86_g_gdtr_def] assms(4) [unfolded r]]
  have sel: "ucast KERNEL_X64_CODE_SECTOR = (0x18 :: u16)" "ucast KERNEL_X64_DATA_SECTOR = (0x20 :: u16)"
    "ucast USER_X64_CODE_SECTOR = (0x33 :: u16)" "ucast USER_X64_DATA_SECTOR = (0x2B :: u16)"
    "X64_TSS_SECTOR AND 0xfff8 = 8 * TSS_INDEX" "KERNEL_X64_CODE_SECTOR AND 3 = 0" "KERNEL_X64_DATA_SECTOR AND 3 = 0"
    "USER_X64_CODE_SECTOR AND 3 = 3" "USER_X64_DATA_SECTOR AND 3 = 3"
    by (simp_all add: sectors TSS_INDEX_def)
  have seg: "segment_of m' g 0x18 = rd_desc m' (slot g 3)" "segment_of m' g 0x20 = rd_desc m' (slot g 4)"
    "segment_of m' g 0x2B = rd_desc m' (slot g 5)" "segment_of m' g 0x33 = rd_desc m' (slot g 6)"
    by (simp_all add: segment_of_def slot_def)
  have "code_segment 0 (segment_of m' g 0x18)" "data_segment 0 (segment_of m' g 0x20)"
    "code_segment 3 (segment_of m' g 0x33)" "data_segment 3 (segment_of m' g 0x2B)"
    using G(5-8) unfolding seg
    by (auto simp: code_segment_def data_segment_def build_x64_r0_cs_desc_def build_x64_r0_ds_desc_def build_x64_r3_cs_desc_def
      build_x64_r3_ds_desc_def)
  moreover have "read_msr (syscall_init entry s) IA32_MSR_LSTAR = entry" "bit (read_msr (syscall_init entry s) IA32_MSR_EFER) 0"
    "bit (read_msr (syscall_init entry s) IA32_MSR_FMASK) 9"
    by (simp_all add: syscall_init_def Let_def read_write_msr IA32_MSR_STAR_def IA32_MSR_FMASK_def IA32_MSR_LSTAR_def IA32_MSR_EFER_def
      bit_iff_odd even_or_iff)
  ultimately show ?thesis unfolding Let_def syscall_star star_selectors sel using G(1,2) by (simp add: r TSS_INDEX_def)
qed

theorem boot_segments_witness:
  "code_segment 0 (segment_of (fst (gdt_init 0x8000 24 0x500 (\<lambda>_. 0))) 0x8000 (ucast KERNEL_X64_CODE_SECTOR))"
proof -
  have 1: "apart (0x8000 :: u32) 2048 0x9E000 10" "apart (0x8000 :: u32) 24 0x500 24" "apart (0x500 :: u32) 24 0x9E000 10"
    by (simp_all add: apart_def)
  obtain m' r where 2: "gdt_init (0x8000 :: u32) 24 0x500 (\<lambda>_. 0) = (m', r)" by (rule prod.exhaust)
  from boot_segments [OF 1 2, of 0 demo_machine] show ?thesis unfolding 2 Let_def fst_conv by blast
qed

end
